(* ===== verification/Prelude.thy ===== *)
theory Prelude
  imports Main "HOL-Library.Word"
begin

text \<open>
  Shared vocabulary of the development: the C++ types the sources use as
  Isabelle types, the part of \<open>std::string\<close> the sources call, the exceptions of
  the standard library as values, and generic facts on lists and words that the
  component theories share.
\<close>

unbundle bit_operations_syntax

section \<open>Types\<close>

text \<open>
  A \<open>std::string\<close> is a list of 8-bit characters.  \<open>std::int32_t\<close> and
  \<open>std::int64_t\<close> are machine words read through \<^const>\<open>sint\<close>; \<open>size_t\<close> and the
  unsigned types are machine words read through \<^const>\<open>unat\<close>.
\<close>

type_synonym bytes = string
type_synonym int32 = "32 word"
type_synonym uint32 = "32 word"
type_synonym int64 = "64 word"
type_synonym uint64 = "64 word"
type_synonym size_t = "64 word"

text \<open>Exceptions that leave the modelled functions, and what has no defined outcome: a division by zero,
  an index past the end.\<close>

datatype cpp_exn = Out_of_range | Length_error | Invalid_argument | Logic_error | Div_trap | Out_of_bounds

type_synonym 'a res = "cpp_exn + 'a"

definition bind_res :: "'a res \<Rightarrow> ('a \<Rightarrow> 'b res) \<Rightarrow> 'b res" where
  "bind_res r f = (case r of Inl e \<Rightarrow> Inl e | Inr x \<Rightarrow> f x)"

named_theorems codec_simps \<open>sizes and round trips of the byte encodings\<close>
named_theorems run_simps \<open>evaluation of the sequencing of fallible calls\<close>

lemma bind_res_simps [simp, run_simps]:
  "bind_res (Inl e) f = Inl e"
  "bind_res (Inr x) f = f x"
  by (simp_all add: bind_res_def)

lemma bind_res_eq_Inr:
  "bind_res r f = Inr y \<longleftrightarrow> (\<exists>x. r = Inr x \<and> f x = Inr y)"
  by (cases r) simp_all

section \<open>Strings\<close>

text \<open>
  \<open>s.substr(pos, n)\<close>: at most \<open>n\<close> characters from \<open>pos\<close>;
  \<open>std::out_of_range\<close> when \<open>pos\<close> is past the end.
\<close>

definition substr :: "bytes \<Rightarrow> nat \<Rightarrow> nat \<Rightarrow> bytes res" where
  "substr s pos n = (if pos > length s then Inl Out_of_range else Inr (take n (drop pos s)))"

definition substr_from :: "bytes \<Rightarrow> nat \<Rightarrow> bytes res" where
  "substr_from s pos = (if pos > length s then Inl Out_of_range else Inr (drop pos s))"

lemma substr_Inr [simp]: "pos \<le> length s \<Longrightarrow> substr s pos n = Inr (take n (drop pos s))"
  by (simp add: substr_def)

lemma substr_from_Inr [simp]: "pos \<le> length s \<Longrightarrow> substr_from s pos = Inr (drop pos s)"
  by (simp add: substr_from_def)

lemma substr_Inl [simp]: "length s < pos \<Longrightarrow> substr s pos n = Inl Out_of_range"
  by (simp add: substr_def)

section \<open>Lists\<close>

text \<open>Reading a field that lies at a known place of a concatenation.\<close>

lemma take_drop_field:
  "length a = i \<Longrightarrow> length b = n \<Longrightarrow> take n (drop i (a @ b @ c)) = b"
  by simp

text \<open>Records of a fixed size stored one after the other.\<close>

lemma length_concat_blocks:
  "(\<And>x. x \<in> set xs \<Longrightarrow> length (f x) = n) \<Longrightarrow> length (concat (map f xs)) = n * length xs"
  by (induction xs) simp_all

lemma drop_concat_blocks:
  "(\<And>x. x \<in> set xs \<Longrightarrow> length (f x) = n) \<Longrightarrow>
     drop (n * k) (concat (map f xs)) = concat (map f (drop k xs))"
proof (induction xs arbitrary: k)
  case (Cons x xs)
  then show ?case by (cases k) simp_all
qed simp

lemma take_drop_concat_blocks:
  assumes "\<And>x. x \<in> set xs \<Longrightarrow> length (f x) = n" and "k < length xs"
  shows "take n (drop (n * k) (concat (map f xs))) = f (xs ! k)"
proof -
  have "drop (n * k) (concat (map f xs)) = concat (map f (xs ! k # drop (Suc k) xs))"
    using assms by (simp only: drop_concat_blocks Cons_nth_drop_Suc)
  then show ?thesis using assms by simp
qed

section \<open>Words\<close>

lemma of_char_less_256 [simp]: "(of_char c :: nat) < 256"
  by (metis mod_less_divisor of_char_mod_256 zero_less_numeral)

lemma sint_of_nat_64: "n < 2 ^ 63 \<Longrightarrow> sint (of_nat n :: 64 word) = int n"
  by (simp add: signed_of_nat signed_take_bit_int_eq_self)

lemma sint_of_nat_32: "n < 2 ^ 31 \<Longrightarrow> sint (of_nat n :: 32 word) = int n"
  by (simp add: signed_of_nat signed_take_bit_int_eq_self)

lemma of_char_char_of_unat [simp]:
  "(of_char (char_of (unat (w :: 'a::len word))) :: 'a word) = take_bit 8 w"
proof -
  have "(of_char (char_of (unat w)) :: 'a word) = of_nat (of_char (char_of (unat w) :: char))"
    by (simp only: of_nat_of_char)
  also have "\<dots> = of_nat (take_bit 8 (unat w))" by (simp add: take_bit_eq_mod)
  also have "\<dots> = take_bit 8 w" by (simp add: of_nat_take_bit)
  finally show ?thesis .
qed

end
