(* ===== verification/Bitbase.thy ===== *)
theory Bitbase
  imports Prelude
begin

text \<open>
  \<open>libs/bitbase.h\<close>: the big-endian integer encoding every binary format of the
  program uses, the list encoding built on it, and the bit operations.
\<close>

section \<open>Integers as characters\<close>

text \<open>One turn of the loop of \<open>numeric_to_chars\<close>: \<open>u_char((n >> s) & 0xff)\<close>.\<close>

definition byte_at :: "'a::len word \<Rightarrow> nat \<Rightarrow> char" where
  "byte_at n s = char_of (unat (drop_bit s n AND 0xff))"

primrec numeric_to_chars :: "'a::len word \<Rightarrow> nat \<Rightarrow> bytes" where
  "numeric_to_chars n 0 = []"
| "numeric_to_chars n (Suc k) = byte_at n (8 * k) # numeric_to_chars n k"

definition chars_to_numeric :: "bytes \<Rightarrow> 'a::len word" where
  "chars_to_numeric t =
     fst (fold (\<lambda>c (n, j). (n + push_bit (8 * j) (of_char c), j + 1)) (rev t) (0, 0))"

lemma length_numeric_to_chars [simp, codec_simps]: "length (numeric_to_chars n k) = k"
  by (induction k) simp_all

lemma chars_to_numeric_Nil [simp]: "chars_to_numeric [] = 0"
  by (simp add: chars_to_numeric_def)

lemma chars_fold_count:
  "snd (fold (\<lambda>c (n :: 'a::len word, j). (n + push_bit (8 * j) (of_char c), j + 1)) cs (n, j))
     = j + length cs"
  by (induction cs arbitrary: n j) simp_all

lemma chars_to_numeric_Cons:
  "(chars_to_numeric (c # t) :: 'a::len word) =
     push_bit (8 * length t) (of_char c) + chars_to_numeric t"
  using chars_fold_count[of "rev t" "0 :: 'a word" 0]
  by (simp add: chars_to_numeric_def case_prod_beta)

lemma byte_at_of_char [simp]: "of_char (byte_at n s) = take_bit 8 (drop_bit s n)"
proof -
  have "drop_bit s n AND 0xff = take_bit 8 (drop_bit s n)"
    by (simp add: take_bit_eq_mask mask_eq_exp_minus_1)
  then show ?thesis by (simp add: byte_at_def)
qed

lemma chars_numeric_take_bit:
  "chars_to_numeric (numeric_to_chars n k) = take_bit (8 * k) n"
proof (induction k)
  case 0
  then show ?case by simp
next
  case (Suc k)
  have "take_bit (8 * Suc k) n = push_bit (8 * k) (drop_bit (8 * k) (take_bit (8 * Suc k) n))
          + take_bit (8 * k) (take_bit (8 * Suc k) n)"
    by (simp only: bits_ident)
  also have "\<dots> = push_bit (8 * k) (take_bit 8 (drop_bit (8 * k) n)) + take_bit (8 * k) n"
    by (simp add: drop_bit_take_bit)
  finally show ?case using Suc by (simp add: chars_to_numeric_Cons)
qed

lemma chars_numeric_id [simp, codec_simps]:
  fixes n :: "'a::len word"
  assumes "LENGTH('a) \<le> 8 * k"
  shows "chars_to_numeric (numeric_to_chars n k) = n"
  using assms by (simp add: chars_numeric_take_bit take_bit_word_eq_self)

text \<open>
  The same encoding over unbounded numbers: the value of a character sequence and
  the digits of a number to base 256.
\<close>

primrec chars_val :: "bytes \<Rightarrow> nat" where
  "chars_val [] = 0"
| "chars_val (c # t) = of_char c * 256 ^ length t + chars_val t"

primrec nat_chars :: "nat \<Rightarrow> nat \<Rightarrow> bytes" where
  "nat_chars v 0 = []"
| "nat_chars v (Suc k) = char_of (v div 256 ^ k) # nat_chars v k"

lemma power_256: "(256 :: 'a::semiring_1) ^ k = 2 ^ (8 * k)"
proof -
  have "(256 :: 'a) = 2 ^ 8" by simp
  then show ?thesis by (simp only: power_mult)
qed

lemma chars_to_numeric_val: "(chars_to_numeric t :: 'a::len word) = of_nat (chars_val t)"
proof (induction t)
  case (Cons c t)
  have "of_char c * (2 :: 'a word) ^ (8 * length t) = push_bit (8 * length t) (of_char c)"
    by (simp add: push_bit_eq_mult)
  then show ?case using Cons by (simp add: chars_to_numeric_Cons power_256 of_nat_of_char)
qed simp

lemma chars_val_less: "chars_val t < 256 ^ length t"
proof (induction t)
  case (Cons c t)
  have "of_char c + 1 \<le> (256 :: nat)" using of_char_less_256[of c] by linarith
  then have "(of_char c + 1) * 256 ^ length t \<le> (256 :: nat) * 256 ^ length t"
    by (rule mult_le_mono1)
  then have "of_char c * 256 ^ length t + 256 ^ length t \<le> (256 :: nat) * 256 ^ length t"
    by (simp only: add_mult_distrib mult_1)
  with Cons have "of_char c * 256 ^ length t + chars_val t < 256 * 256 ^ length t" by linarith
  then show ?case by simp
qed simp

lemma unat_chars_to_numeric:
  assumes "8 * length t \<le> LENGTH('a::len)"
  shows "unat (chars_to_numeric t :: 'a word) = chars_val t"
proof -
  have "chars_val t < 2 ^ LENGTH('a)"
    using chars_val_less[of t] assms
    by (simp add: power_256 order.strict_trans2 power_increasing)
  then show ?thesis by (simp add: chars_to_numeric_val unat_of_nat take_bit_nat_eq_self)
qed

lemma byte_at_unat: "byte_at n (8 * k) = char_of (unat n div 256 ^ k)"
proof -
  have "unat (drop_bit (8 * k) n AND 0xff) = unat n div 256 ^ k mod 256"
  proof -
    have "drop_bit (8 * k) n AND 0xff = take_bit 8 (drop_bit (8 * k) n)"
      by (simp add: take_bit_eq_mask mask_eq_exp_minus_1)
    then have "unat (drop_bit (8 * k) n AND 0xff) = take_bit 8 (drop_bit (8 * k) (unat n))"
      by (simp only: unsigned_take_bit_eq unat_drop_bit_eq)
    then show ?thesis by (simp add: take_bit_eq_mod drop_bit_eq_div power_256)
  qed
  then show ?thesis by (simp add: byte_at_def char_of_mod_256)
qed

lemma numeric_to_chars_nat: "numeric_to_chars n k = nat_chars (unat n) k"
  by (induction k) (simp_all add: byte_at_unat)

lemma nat_chars_mod: "nat_chars (a * 256 ^ k + b) k = nat_chars b k"
proof (induction k arbitrary: a)
  case (Suc k)
  have *: "a * 256 ^ Suc k + b = (a * 256) * 256 ^ k + b" by simp
  have "((a * 256) * 256 ^ k + b) div 256 ^ k = a * 256 + b div 256 ^ k"
    by (simp add: div_mult_self3)
  moreover have "char_of (a * 256 + b div 256 ^ k) = char_of (b div 256 ^ k)"
    by (metis char_of_mod_256 mod_mult_self3)
  ultimately show ?case using Suc.IH[of "a * 256"] by (simp only: * nat_chars.simps)
qed simp

lemma nat_chars_val: "nat_chars (chars_val t) (length t) = t"
proof (induction t)
  case (Cons c t)
  have "char_of ((of_char c * 256 ^ length t + chars_val t) div 256 ^ length t) = c"
    using chars_val_less[of t] by simp
  then show ?case using Cons by (simp add: nat_chars_mod)
qed simp

lemma numeric_chars_id:
  assumes "8 * length t \<le> LENGTH('a::len)"
  shows "numeric_to_chars (chars_to_numeric t :: 'a word) (length t) = t"
  using assms by (simp add: numeric_to_chars_nat unat_chars_to_numeric nat_chars_val)

section \<open>Lists of integers\<close>

text \<open>
  \<open>uncomress_list\<close> walks the data in steps of \<open>sizeof(T)\<close> while a whole element
  is left; the container of the caller is a set.  \<open>sizeof\<close> is never 0.
\<close>

definition sizeof :: "'a::len word itself \<Rightarrow> nat" where
  "sizeof _ = LENGTH('a) div 8"

function uncomress_loop :: "nat \<Rightarrow> bytes \<Rightarrow> nat \<Rightarrow> nat \<Rightarrow> 'a::len word set \<Rightarrow> 'a word set" where
  "uncomress_loop size_bytes data sz i ret =
     (if 0 < size_bytes \<and> i \<le> sz
      then uncomress_loop size_bytes data sz (i + size_bytes)
             (insert (chars_to_numeric (take size_bytes (drop i data))) ret)
      else ret)"
  by pat_completeness auto
termination
  by (relation "measure (\<lambda>(n, d, sz, i, r). Suc sz - i)") auto

declare uncomress_loop.simps [simp del]

definition uncomress_list :: "bytes \<Rightarrow> 'a::len word set" where
  "uncomress_list data =
     (let size_bytes = sizeof TYPE('a word) in
      if size_bytes \<le> length data
      then uncomress_loop size_bytes data (length data - size_bytes) 0 {}
      else {})"

definition comress_list :: "'a::len word list \<Rightarrow> bytes" where
  "comress_list data = fold (\<lambda>it ret. ret @ numeric_to_chars it (sizeof TYPE('a word))) data []"

lemma comress_list_concat:
  "comress_list (xs :: 'a::len word list) =
     concat (map (\<lambda>x. numeric_to_chars x (sizeof TYPE('a word))) xs)"
proof -
  have "fold (\<lambda>it ret. ret @ f it) xs r = r @ concat (map f xs)"
    for f :: "'a word \<Rightarrow> bytes" and r
    by (induction xs arbitrary: r) simp_all
  then show ?thesis by (simp add: comress_list_def)
qed

lemma uncomress_loop_blocks:
  fixes xs :: "'a::len word list"
  assumes n: "0 < n" "LENGTH('a) \<le> 8 * n"
    and d: "d = concat (map (\<lambda>x. numeric_to_chars x n) xs)" and xs: "xs \<noteq> []"
  shows "k \<le> length xs \<Longrightarrow>
    uncomress_loop n d (length d - n) (n * k) r = r \<union> set (drop k xs)"
proof (induction "length xs - k" arbitrary: k r)
  case 0
  then have "\<not> n * k \<le> length d - n"
    using n xs by (cases xs) (simp_all add: d length_concat_blocks[where n = n])
  then show ?case using 0 by (simp add: uncomress_loop.simps)
next
  case (Suc m)
  then have k: "k < length xs" by simp
  have len: "length d = n * length xs" by (simp add: d length_concat_blocks[where n = n])
  have "n * Suc k \<le> n * length xs" using k by (intro mult_le_mono2) simp
  then have le: "n * k \<le> length d - n" using len by simp
  have blk: "take n (drop (n * k) d) = numeric_to_chars (xs ! k) n"
    unfolding d using k by (intro take_drop_concat_blocks) simp_all
  have "uncomress_loop n d (length d - n) (n * k) r =
        uncomress_loop n d (length d - n) (n * Suc k) (insert (xs ! k) r)"
    using n le blk by (subst uncomress_loop.simps) (simp add: add.commute)
  also have "\<dots> = insert (xs ! k) r \<union> set (drop (Suc k) xs)"
    using Suc.hyps(2) k by (intro Suc.hyps(1)) simp_all
  also have "\<dots> = r \<union> set (drop k xs)"
    by (simp add: Cons_nth_drop_Suc[OF k, symmetric])
  finally show ?case .
qed

lemma uncomress_comress_list:
  fixes xs :: "'a::len word list"
  assumes "8 dvd LENGTH('a)"
  shows "uncomress_list (comress_list xs) = set xs"
proof -
  let ?n = "sizeof TYPE('a word)"
  have n: "0 < ?n" "LENGTH('a) \<le> 8 * ?n"
    using assms len_gt_0[where 'a = 'a] by (auto simp: sizeof_def elim!: dvdE simp del: len_gt_0)
  show ?thesis
  proof (cases xs)
    case Nil
    then show ?thesis using n by (simp add: uncomress_list_def comress_list_def)
  next
    case (Cons x ys)
    then show ?thesis
      using uncomress_loop_blocks[OF n refl, of xs 0 "{}"]
      by (simp add: uncomress_list_def comress_list_concat Let_def)
  qed
qed

section \<open>Single bits\<close>

definition unsetBit :: "'a::len word \<Rightarrow> nat \<Rightarrow> 'a word" where
  "unsetBit num b = num AND NOT (push_bit b 1)"

definition setBit :: "'a::len word \<Rightarrow> nat \<Rightarrow> 'a word" where
  "setBit num b = num OR push_bit b 1"

definition isBitSetted :: "'a::len word \<Rightarrow> nat \<Rightarrow> bool" where
  "isBitSetted num b \<longleftrightarrow> num AND push_bit b 1 \<noteq> 0"

definition isBitSettedByNumber :: "'a::len word \<Rightarrow> 'a word \<Rightarrow> bool" where
  "isBitSettedByNumber num bit_num \<longleftrightarrow> num AND bit_num \<noteq> 0"

text \<open>\<open>max_bits_used\<close>: the loop from the top bit down, leaving at the first set bit.\<close>

primrec max_bits_loop :: "'a::len word \<Rightarrow> nat \<Rightarrow> nat" where
  "max_bits_loop n 0 = 0"
| "max_bits_loop n (Suc i) = (if isBitSetted n i then i + 1 else max_bits_loop n i)"

definition max_bits_used :: "'a::len word \<Rightarrow> nat \<Rightarrow> nat" where
  "max_bits_used n sz = max_bits_loop n (sz * 8)"

lemma isBitSetted_bit: "isBitSetted n b \<longleftrightarrow> bit n b"
proof
  assume "isBitSetted n b"
  then have "n AND push_bit b 1 \<noteq> 0" by (simp add: isBitSetted_def)
  then obtain i where "bit (n AND push_bit b 1) i" by (auto simp: bit_eq_iff)
  then show "bit n b" by (auto simp: bit_simps)
next
  assume "bit n b"
  then have "bit (n AND push_bit b 1) b"
    by (auto simp: bit_simps dest: bit_imp_le_length)
  then show "isBitSetted n b" by (auto simp: isBitSetted_def)
qed

lemma bit_setBit: "b < LENGTH('a) \<Longrightarrow> bit (setBit (n :: 'a::len word) b) i \<longleftrightarrow> i = b \<or> bit n i"
  by (auto simp: setBit_def bit_simps)

lemma bit_unsetBit: "bit (unsetBit (n :: 'a::len word) b) i \<longleftrightarrow> i \<noteq> b \<and> bit n i"
  by (auto simp: unsetBit_def bit_simps dest: bit_imp_le_length)

lemma max_bits_loop_spec:
  "max_bits_loop n m \<le> m \<and> (\<forall>i. max_bits_loop n m \<le> i \<and> i < m \<longrightarrow> \<not> bit n i)
     \<and> (max_bits_loop n m \<noteq> 0 \<longrightarrow> bit n (max_bits_loop n m - 1))"
proof (induction m)
  case (Suc m)
  then show ?case by (auto simp: isBitSetted_bit less_Suc_eq)
qed simp

lemma max_bits_used_le_iff:
  fixes n :: "'a::len word"
  assumes "LENGTH('a) \<le> sz * 8"
  shows "max_bits_used n sz \<le> k \<longleftrightarrow> unat n < 2 ^ k"
proof -
  let ?m = "max_bits_used n sz"
  have top: "\<not> bit n i" if "?m \<le> i" for i
    using that max_bits_loop_spec[of n "sz * 8"] assms bit_imp_le_length[of n i]
    by (cases "i < sz * 8") (auto simp: max_bits_used_def)
  show ?thesis
  proof
    assume "?m \<le> k"
    then have "take_bit k n = n" using top
      by (intro bit_word_eqI) (meson bit_take_bit_iff linorder_not_le order_trans)
    then have "take_bit k (unat n) = unat n" by (metis unsigned_take_bit_eq)
    then show "unat n < 2 ^ k" by (metis take_bit_nat_less_exp)
  next
    assume "unat n < 2 ^ k"
    then have "take_bit k (unat n) = unat n" by (rule take_bit_nat_eq_self)
    then have eq: "take_bit k n = n" by (metis unsigned_take_bit_eq unsigned_word_eqI)
    have "\<not> bit (take_bit k n) i" if "k \<le> i" for i
      using that by (simp add: bit_take_bit_iff)
    then have "\<not> bit n i" if "k \<le> i" for i using that eq by simp
    then show "?m \<le> k"
      using max_bits_loop_spec[of n "sz * 8"]
      by (cases "?m = 0") (force simp: max_bits_used_def)+
  qed
qed

end
