(* ===== verification/Cpp_Std.thy ===== *)
theory Cpp_Std
  imports Prelude
begin

text \<open>
  The parts of the C++ standard library the sources use beyond \<open>substr\<close>: decimal
  printing (\<open>std::to_string\<close>) and parsing (\<open>std::stol\<close>, \<open>std::stoi\<close>), arithmetic
  of \<open>size_t\<close>, and loops with \<open>break\<close>; and \<open>basefunc_std::stoi\<close> built on them.
\<close>

section \<open>Arithmetic of \<open>size_t\<close>\<close>

text \<open>
  Sizes and cursors are natural numbers; where the sources compute with \<open>size_t\<close>
  values that are not known to stay in range, the wrap-around at 64 bits is written out.
\<close>

definition sz_add :: "nat \<Rightarrow> nat \<Rightarrow> nat" where
  "sz_add a b = (a + b) mod 2 ^ 64"

definition sz_sub :: "nat \<Rightarrow> nat \<Rightarrow> nat" where
  "sz_sub a b = (if b \<le> a then a - b else a + 2 ^ 64 - b)"

definition sz_mul :: "nat \<Rightarrow> nat \<Rightarrow> nat" where
  "sz_mul a b = (a * b) mod 2 ^ 64"

lemma sz_add_eq: "a + b < 2 ^ 64 \<Longrightarrow> sz_add a b = a + b"
  by (simp add: sz_add_def)

lemma sz_sub_eq [simp]: "b \<le> a \<Longrightarrow> sz_sub a b = a - b"
  by (simp add: sz_sub_def)

lemma sz_mul_eq: "a * b < 2 ^ 64 \<Longrightarrow> sz_mul a b = a * b"
  by (simp add: sz_mul_def)

text \<open>\<open>static_cast<size_t>\<close> of an \<open>int32_t\<close>: the sign is extended to 64 bits.\<close>

definition size_of_int32 :: "int32 \<Rightarrow> nat" where
  "size_of_int32 b = unat (scast b :: size_t)"

lemma size_of_int32_nat: "n < 2 ^ 31 \<Longrightarrow> size_of_int32 (of_nat n) = n"
proof -
  assume n: "n < 2 ^ 31"
  have "sint (of_nat n :: int32) = int n"
    using n by (rule sint_of_nat_32)
  then have "(scast (of_nat n :: int32) :: size_t) = of_nat n"
    by (metis of_int_of_nat_eq of_int_sint)
  then show ?thesis
    using n by (simp add: size_of_int32_def unat_of_nat take_bit_nat_eq_self)
qed

section \<open>Division of \<open>int\<close>\<close>

text \<open>\<open>/\<close> and \<open>%\<close> truncate towards zero.\<close>

definition cdiv :: "int \<Rightarrow> int \<Rightarrow> int" where
  "cdiv a b = sgn a * sgn b * (\<bar>a\<bar> div \<bar>b\<bar>)"

definition cmod :: "int \<Rightarrow> int \<Rightarrow> int" where
  "cmod a b = a - b * cdiv a b"

lemma cdiv_nonneg [simp]: "0 \<le> a \<Longrightarrow> 0 < b \<Longrightarrow> cdiv a b = a div b"
  by (cases "a = 0") (simp_all add: cdiv_def)

lemma cmod_nonneg [simp]: "0 \<le> a \<Longrightarrow> 0 < b \<Longrightarrow> cmod a b = a mod b"
  by (simp add: cmod_def minus_mult_div_eq_mod)

lemma cmod_nonpos: "a \<le> 0 \<Longrightarrow> 0 < b \<Longrightarrow> cmod a b = - ((- a) mod b)"
proof (cases "a = 0")
  case False
  assume "a \<le> 0" "0 < b"
  then have "cdiv a b = - ((- a) div b)" using False by (simp add: cdiv_def)
  then show ?thesis using minus_mult_div_eq_mod[of "- a" b] by (simp add: cmod_def)
qed simp

lemma cdiv_mult [simp]: "0 < b \<Longrightarrow> cdiv (b * q) b = q"
  by (simp add: cdiv_def abs_mult sgn_mult mult_sgn_abs)

section \<open>Loops that may leave early\<close>

text \<open>One turn of a loop either goes on or leaves the loop.\<close>

datatype 's ctl = Continue 's | Break 's

text \<open>\<open>for (i = 0; i < k; ++i) body\<close>, with \<open>break\<close>.\<close>

primrec run_for :: "nat \<Rightarrow> ('s \<Rightarrow> 's ctl) \<Rightarrow> 's \<Rightarrow> 's" where
  "run_for 0 body s = s"
| "run_for (Suc k) body s =
     (case body s of Break s' \<Rightarrow> s' | Continue s' \<Rightarrow> run_for k body s')"

text \<open>
  A bounded loop whose variant is smaller than the bound leaves by \<open>break\<close>, from a
  state in which the invariant holds.
\<close>

lemma run_for_break:
  assumes "I s" and "m s < k"
    and "\<And>s s'. I s \<Longrightarrow> body s = Continue s' \<Longrightarrow> I s' \<and> (m s' :: nat) < m s"
  shows "\<exists>s1. I s1 \<and> body s1 = Break (run_for k body s)"
  using assms(1,2)
proof (induction k arbitrary: s)
  case (Suc k)
  show ?case
  proof (cases "body s")
    case (Break s')
    then show ?thesis using Suc.prems by auto
  next
    case (Continue s')
    then have "I s'" "m s' < k" using assms(3)[OF Suc.prems(1) Continue] Suc.prems(2) by auto
    then show ?thesis using Suc.IH[of s'] Continue by simp
  qed
qed simp

section \<open>Decimal numbers\<close>

definition digit_char :: "nat \<Rightarrow> char" where
  "digit_char d = char_of (48 + d)"

definition isdigit :: "char \<Rightarrow> bool" where
  "isdigit c \<longleftrightarrow> 48 \<le> (of_char c :: nat) \<and> (of_char c :: nat) \<le> 57"

definition isspace :: "char \<Rightarrow> bool" where
  "isspace c \<longleftrightarrow> (of_char c :: nat) = 32 \<or> (9 \<le> (of_char c :: nat) \<and> (of_char c :: nat) \<le> 13)"

definition digit_val :: "char \<Rightarrow> nat" where
  "digit_val c = of_char c - 48"

fun nat_to_string :: "nat \<Rightarrow> string" where
  "nat_to_string n =
     (if n < 10 then [digit_char n] else nat_to_string (n div 10) @ [digit_char (n mod 10)])"

declare nat_to_string.simps [simp del]

text \<open>\<open>std::to_string\<close>.\<close>

definition to_string :: "int \<Rightarrow> string" where
  "to_string i = (if i < 0 then CHR ''-'' # nat_to_string (nat (- i)) else nat_to_string (nat i))"

text \<open>\<open>strtol\<close> to base 10, without the range check: \<open>None\<close> when there is no digit.\<close>

definition digits_val :: "string \<Rightarrow> nat" where
  "digits_val ds = foldl (\<lambda>v c. v * 10 + digit_val c) 0 ds"

definition strtol :: "string \<Rightarrow> int option" where
  "strtol s =
     (let s1 = dropWhile isspace s;
          neg = (s1 \<noteq> [] \<and> hd s1 = CHR ''-'');
          s2 = (if s1 \<noteq> [] \<and> (hd s1 = CHR ''-'' \<or> hd s1 = CHR ''+'') then tl s1 else s1);
          ds = takeWhile isdigit s2
      in if ds = [] then None
         else Some (if neg then - int (digits_val ds) else int (digits_val ds)))"

definition stol_range :: "nat \<Rightarrow> string \<Rightarrow> int res" where
  "stol_range w s =
     (case strtol s of
        None \<Rightarrow> Inl Invalid_argument
      | Some v \<Rightarrow> if - (2 ^ (w - 1)) \<le> v \<and> v < 2 ^ (w - 1) then Inr v else Inl Out_of_range)"

text \<open>\<open>std::stol\<close> and \<open>std::stoi\<close>; \<open>long\<close> has 64 bits and \<open>int\<close> 32.\<close>

definition stol :: "string \<Rightarrow> int res" where "stol s = stol_range 64 s"
definition std_stoi :: "string \<Rightarrow> int res" where "std_stoi s = stol_range 32 s"

text \<open>
  \<open>basefunc_std::stoi\<close> for \<open>long\<close> and \<open>int\<close>: the variable keeps its value when the
  conversion throws, and the returned flag says whether it was set.
\<close>

definition stoi_long :: "string \<Rightarrow> int64 \<Rightarrow> bool \<times> int64" where
  "stoi_long str l = (case stol str of Inl _ \<Rightarrow> (False, l) | Inr v \<Rightarrow> (True, word_of_int v))"

definition stoi_int :: "string \<Rightarrow> int32 \<Rightarrow> bool \<times> int32" where
  "stoi_int str l = (case std_stoi str of Inl _ \<Rightarrow> (False, l) | Inr v \<Rightarrow> (True, word_of_int v))"

subsection \<open>Printing and parsing agree\<close>

lemma of_char_digit_char [simp]: "d < 10 \<Longrightarrow> (of_char (digit_char d) :: nat) = 48 + d"
  by (simp add: digit_char_def)

lemma digit_char_simps [simp]:
  assumes "d < 10"
  shows "isdigit (digit_char d)" "digit_val (digit_char d) = d" "\<not> isspace (digit_char d)"
  using assms by (simp_all add: isdigit_def digit_val_def isspace_def)

lemma digit_char_not_sign [simp]:
  assumes "d < 10"
  shows "digit_char d \<noteq> CHR ''-''" "digit_char d \<noteq> CHR ''+''"
proof -
  have "(of_char (digit_char d) :: nat) \<ge> 48" using assms by simp
  moreover have "(of_char (CHR ''-'') :: nat) < 48" "(of_char (CHR ''+'') :: nat) < 48" by simp_all
  ultimately show "digit_char d \<noteq> CHR ''-''" "digit_char d \<noteq> CHR ''+''"
    by (metis not_less)+
qed

lemma nat_to_string_digits: "\<forall>c \<in> set (nat_to_string n). isdigit c"
proof (induction n rule: nat_to_string.induct)
  case (1 n)
  then show ?case by (subst nat_to_string.simps) auto
qed

lemma nat_to_string_not_Nil [simp]: "nat_to_string n \<noteq> []"
  by (subst nat_to_string.simps) simp

lemma digits_val_nat_to_string: "digits_val (nat_to_string n) = n"
proof (induction n rule: nat_to_string.induct)
  case (1 n)
  then show ?case by (subst nat_to_string.simps) (auto simp: digits_val_def)
qed

lemma isdigit_not_space: "isdigit c \<Longrightarrow> \<not> isspace c \<and> c \<noteq> CHR ''-'' \<and> c \<noteq> CHR ''+''"
  by (auto simp: isdigit_def isspace_def)

lemma strtol_digits:
  assumes "ds \<noteq> []" "\<forall>c \<in> set ds. isdigit c" "r = [] \<or> \<not> isdigit (hd r)"
  shows "strtol (ds @ r) = Some (int (digits_val ds))"
    and "strtol (CHR ''-'' # ds @ r) = Some (- int (digits_val ds))"
proof -
  have tw: "takeWhile isdigit (ds @ r) = ds"
    using assms by (cases r) (auto simp: takeWhile_append2)
  obtain c cs where ds: "ds = c # cs" "isdigit c" using assms by (cases ds) auto
  then have sp: "dropWhile isspace (ds @ r) = ds @ r" using isdigit_not_space[of c] by simp
  have "\<not> isspace (CHR ''-'')" by (simp add: isspace_def)
  then show "strtol (ds @ r) = Some (int (digits_val ds))"
    and "strtol (CHR ''-'' # ds @ r) = Some (- int (digits_val ds))"
    using ds isdigit_not_space[of c] sp tw by (simp_all add: strtol_def Let_def)
qed

lemma strtol_to_string: "strtol (to_string i) = Some i"
  using strtol_digits[of "nat_to_string (nat i)" "[]"]
    strtol_digits[of "nat_to_string (nat (- i))" "[]"] nat_to_string_digits
  by (simp add: to_string_def digits_val_nat_to_string)

lemma stol_to_string: "- (2 ^ 63) \<le> i \<Longrightarrow> i < 2 ^ 63 \<Longrightarrow> stol (to_string i) = Inr i"
  by (simp add: stol_def stol_range_def strtol_to_string)

lemma stoi_long_to_string: "stoi_long (to_string (sint x)) l = (True, x)"
  using stol_to_string[of "sint x"] sint_range_size[of x]
  by (simp add: stoi_long_def word_size)

lemma stoi_int_to_string: "stoi_int (to_string (sint v)) l = (True, v :: int32)"
proof -
  have "- (2 ^ 31) \<le> sint v" "sint v < 2 ^ 31" using sint_ge[of v] sint_lt[of v] by simp_all
  then show ?thesis by (simp add: stoi_int_def std_stoi_def stol_range_def strtol_to_string)
qed

section \<open>Searching in strings\<close>

text \<open>\<open>s.find(pat, pos)\<close>; \<^const>\<open>None\<close> is \<open>npos\<close>.\<close>

fun find_at :: "string \<Rightarrow> string \<Rightarrow> nat \<Rightarrow> nat option" where
  "find_at pat [] k = (if pat = [] then Some k else None)"
| "find_at pat (c # cs) k = (if take (length pat) (c # cs) = pat then Some k else find_at pat cs (k + 1))"

definition str_find :: "string \<Rightarrow> string \<Rightarrow> nat \<Rightarrow> nat option" where
  "str_find s pat pos = (if pos \<le> length s then find_at pat (drop pos s) pos else None)"

text \<open>\<open>std::stoul\<close>: a minus sign negates modulo \<open>2\<^sup>6\<^sup>4\<close>.\<close>

definition stoul :: "string \<Rightarrow> nat res" where
  "stoul s =
     (case strtol s of
        None \<Rightarrow> Inl Invalid_argument
      | Some v \<Rightarrow> if \<bar>v\<bar> < 2 ^ 64 then Inr (nat (v mod 2 ^ 64)) else Inl Out_of_range)"

definition stoi_ulong :: "string \<Rightarrow> uint64 \<Rightarrow> bool \<times> uint64" where
  "stoi_ulong str l = (case stoul str of Inl _ \<Rightarrow> (False, l) | Inr v \<Rightarrow> (True, of_nat v))"

lemma find_at_absent: "\<forall>i \<le> length s. take (length pat) (drop i s) \<noteq> pat \<Longrightarrow> find_at pat s k = None"
proof (induction s arbitrary: k)
  case (Cons c cs)
  have "\<forall>i \<le> length cs. take (length pat) (drop i cs) \<noteq> pat"
    using Cons.prems by (auto dest: spec[of _ "Suc _"])
  then show ?case using Cons.IH spec[OF Cons.prems, of 0] by simp
qed auto

lemma find_at_char:
  "find_at [c] (xs @ c # ys) k = Some (k + length xs)" if "c \<notin> set xs"
  using that by (induction xs arbitrary: k) auto

lemma find_at_char_none: "c \<notin> set xs \<Longrightarrow> find_at [c] xs k = None"
  by (induction xs arbitrary: k) auto

lemma stoul_to_string: "n < 2 ^ 64 \<Longrightarrow> stoul (to_string (int n)) = Inr n"
  by (simp add: stoul_def strtol_to_string)

lemma stoi_ulong_to_string: "stoi_ulong (to_string (uint p)) l = (True, p)"
proof -
  have lt: "unat p < 2 ^ 64" using unsigned_less[of p, where ?'a = nat] by simp
  have e: "to_string (uint p) = to_string (int (unat p))" by simp
  show ?thesis unfolding e stoi_ulong_def stoul_to_string[OF lt] by simp
qed

end
