(* ===== verification/B_Tree.thy ===== *)
theory B_Tree
  imports Bitbase Cpp_Std
begin

text \<open>
  \<open>extentions/b_tree.h\<close>: the records an index search works with.
\<close>

section \<open>Data of an index search\<close>

datatype b_type = none_t | numeric_t | date_t | string_t

record b_base =
  b_tp :: b_type
  b_offset :: uint32
  b_size :: uint32
  rebuilded :: bool

definition b_base_init :: b_base where
  "b_base_init = \<lparr>b_tp = numeric_t, b_offset = 0, b_size = 0, rebuilded = False\<rparr>"

definition b_base_clear :: "b_base \<Rightarrow> b_base" where
  "b_base_clear b = b\<lparr>b_offset := 0, b_size := 0\<rparr>"

record search_index =
  idx_i :: int64
  dd :: b_base
  cursor :: nat
  max_cursor :: nat
  found :: bool
  found_ultima :: bool
  is_lower :: bool

definition index_init :: search_index where
  "index_init = \<lparr>idx_i = 0, dd = b_base_init, cursor = 0, max_cursor = 0,
     found = False, found_ultima = False, is_lower = False\<rparr>"

definition index_clear :: "search_index \<Rightarrow> search_index" where
  "index_clear d = d\<lparr>idx_i := 0, dd := b_base_clear (dd d)\<rparr>"

datatype type_operation =
    op_compare | op_lte | op_gte | op_lt | op_gt
  | range_lte_gte | range_lt_gte | range_lte_gt | range_lt_gt

datatype type_search_index = ts_compare | ts_lte | ts_gte | ts_lt | ts_gt

record val_search =
  indexed :: string
  vs_base :: string

record b_search =
  s_op :: type_operation
  s_tp :: b_type
  vals :: "val_search list"
  is_indexed :: bool
  smin :: int64
  smax :: int64

definition b_search_init :: b_search where
  "b_search_init = \<lparr>s_op = op_compare, s_tp = numeric_t, vals = [], is_indexed = False,
     smin = word_of_int (- (2 ^ 63)), smax = word_of_int (2 ^ 63 - 1)\<rparr>"

end
