(* ===== verification/J_Index.thy ===== *)
theory J_Index
  imports B_Tree "HOL-Library.Multiset"
begin

text \<open>
  \<open>JDatabaseManager::IndexUtility\<close> of \<open>extentions/j_manager.cpp\<close>: an index of the
  document store is a string of 16-byte entries (key, offset, size), sorted by key,
  searched by a halving search and extended by inserting one entry.
\<close>

section \<open>Definitions\<close>

definition indexDataSize :: nat where "indexDataSize = 16"

subsection \<open>Reading one entry\<close>

fun extract_loop :: "bytes \<Rightarrow> nat \<Rightarrow> nat \<Rightarrow> bytes \<Rightarrow> nat \<Rightarrow> search_index \<Rightarrow> search_index" where
  "extract_loop index i 0 data n d = d"
| "extract_loop index i (Suc j) data n d =
     (if i < length index then
        (let data = data @ [index ! i] in
         if n = 0 then
           (if length data = 8
            then extract_loop index (i + 1) j [] 1 (d\<lparr>idx_i := chars_to_numeric data\<rparr>)
            else extract_loop index (i + 1) j data n d)
         else if n = 1 then
           (if length data = 4
            then extract_loop index (i + 1) j [] 2 (d\<lparr>dd := (dd d)\<lparr>b_offset := chars_to_numeric data\<rparr>\<rparr>)
            else extract_loop index (i + 1) j data n d)
         else if n = 2 then
           (if length data = 4
            then d\<lparr>dd := (dd d)\<lparr>b_size := chars_to_numeric data\<rparr>\<rparr>
            else extract_loop index (i + 1) j data n d)
         else extract_loop index (i + 1) j data n d)
      else d)"

definition extractIndex :: "bytes \<Rightarrow> nat \<Rightarrow> search_index \<Rightarrow> search_index" where
  "extractIndex index c d =
     (let d = index_clear d; i = sz_mul c indexDataSize in
      if i < length index then extract_loop index i indexDataSize [] 0 d else d)"

lemma extract_loop_keeps [simp]:
  "cursor (extract_loop index i j data n d) = cursor d"
  "max_cursor (extract_loop index i j data n d) = max_cursor d"
  "found (extract_loop index i j data n d) = found d"
  "found_ultima (extract_loop index i j data n d) = found_ultima d"
  "is_lower (extract_loop index i j data n d) = is_lower d"
  by (induction index i j data n d rule: extract_loop.induct) (auto simp: Let_def)

lemma extractIndex_keeps [simp]:
  "cursor (extractIndex index c d) = cursor d"
  "max_cursor (extractIndex index c d) = max_cursor d"
  "found (extractIndex index c d) = found d"
  "found_ultima (extractIndex index c d) = found_ultima d"
  "is_lower (extractIndex index c d) = is_lower d"
  by (simp_all add: extractIndex_def index_clear_def Let_def)

definition fetchAllIndexedData :: "bytes \<Rightarrow> search_index list" where
  "fetchAllIndexedData index =
     map (\<lambda>c. extractIndex index c index_init) [0..<length index div indexDataSize]"

definition calculateIndexSize :: "bytes \<Rightarrow> nat" where
  "calculateIndexSize index = length index div indexDataSize"

subsection \<open>Searching\<close>

text \<open>The local variables of the loop of \<open>retrieveCursor\<close>.\<close>

record cursor_state =
  cs_f :: search_index
  cs_cursor :: nat
  cs_prev :: nat
  step_up :: bool
  step_down :: bool
  is_equal :: bool

definition cursor_step ::
  "bytes \<Rightarrow> int64 \<Rightarrow> type_search_index \<Rightarrow> nat \<Rightarrow> cursor_state \<Rightarrow> cursor_state ctl" where
  "cursor_step index val op mx s =
     (let f = extractIndex index (cs_cursor s) (cs_f s); c = cs_cursor s in
      if idx_i f = val then
        Break (s\<lparr>cs_f := f\<lparr>cursor := c, found := True\<rparr>, is_equal := True\<rparr>)
      else if sint (idx_i f) < sint val then
        (if step_down s then
           (if op = ts_gte \<or> op = ts_gt then
              Break (s\<lparr>cs_cursor := sz_add c 1, cs_f := f\<lparr>cursor := sz_add c 1, found := True\<rparr>\<rparr>)
            else if op = ts_lte \<or> op = ts_lt then
              Break (s\<lparr>cs_f := f\<lparr>cursor := c, found := True\<rparr>\<rparr>)
            else Break (s\<lparr>cs_f := f\<rparr>))
         else if sz_sub mx c > 5 then
           Continue (s\<lparr>cs_f := f, cs_prev := c, cs_cursor := sz_add c (sz_sub mx c div 2)\<rparr>)
         else if sz_add c 1 = mx then
           (if op = ts_lte \<or> op = ts_lt then
              Break (s\<lparr>cs_f := f\<lparr>cursor := c, found := True\<rparr>, cs_prev := c, step_up := True\<rparr>)
            else Break (s\<lparr>cs_f := f, cs_prev := c, step_up := True, cs_cursor := sz_add c 1\<rparr>))
         else Continue (s\<lparr>cs_f := f, cs_prev := c, step_up := True, cs_cursor := sz_add c 1\<rparr>))
      else
        (if step_up s then
           (if op = ts_lte \<or> op = ts_lt then
              Break (s\<lparr>cs_cursor := sz_sub c 1, cs_f := f\<lparr>cursor := sz_sub c 1, found := True\<rparr>\<rparr>)
            else if op = ts_gte \<or> op = ts_gt then
              Break (s\<lparr>cs_f := f\<lparr>cursor := c, found := True\<rparr>\<rparr>)
            else Break (s\<lparr>cs_f := f\<rparr>))
         else if sz_sub c (cs_prev s) > 5 then
           Continue (s\<lparr>cs_f := f, cs_cursor := sz_add (cs_prev s) (sz_sub c (cs_prev s) div 2)\<rparr>)
         else if c = 0 then
           (if op = ts_gte \<or> op = ts_gt then
              Break (s\<lparr>cs_f := f\<lparr>is_lower := True, cursor := c, found := True\<rparr>, step_down := True\<rparr>)
            else Break (s\<lparr>cs_f := f\<lparr>is_lower := True\<rparr>, step_down := True\<rparr>))
         else Continue (s\<lparr>cs_f := f, step_down := True, cs_cursor := c - 1\<rparr>)))"

text \<open>\<open>for (; f.cursor < f.max_cursor; ++f.cursor)\<close> of the last-equal search.\<close>

function equal_up :: "bytes \<Rightarrow> int64 \<Rightarrow> type_search_index \<Rightarrow> search_index \<Rightarrow> search_index" where
  "equal_up index val op f =
     (if cursor f < max_cursor f then
        (let f1 = extractIndex index (cursor f) f in
         if idx_i f1 \<noteq> val then
           (let f2 = (if op = ts_lte then f1\<lparr>cursor := sz_sub (cursor f1) 1\<rparr> else f1)
            in extractIndex index (cursor f2) f2)
         else equal_up index val op (f1\<lparr>cursor := cursor f1 + 1\<rparr>))
      else f)"
  by pat_completeness auto
termination
  by (relation "measure (\<lambda>(index, val, op, f). max_cursor f - cursor f)") auto

text \<open>\<open>while (f.cursor > 0)\<close> of the first-equal search.\<close>

fun equal_down :: "bytes \<Rightarrow> int64 \<Rightarrow> type_search_index \<Rightarrow> nat \<Rightarrow> search_index \<Rightarrow> search_index" where
  "equal_down index val op 0 f = f\<lparr>cursor := 0\<rparr>"
| "equal_down index val op (Suc c) f =
     (let f1 = extractIndex index c (f\<lparr>cursor := c\<rparr>) in
      if idx_i f1 \<noteq> val then
        (let f2 = (if op = ts_gte then f1\<lparr>cursor := sz_add c 1\<rparr> else f1)
         in extractIndex index (cursor f2) f2)
      else equal_down index val op c f1)"

definition retrieveCursor :: "bytes \<Rightarrow> int64 \<Rightarrow> type_search_index \<Rightarrow> search_index" where
  "retrieveCursor index val op =
     (let mx = length index div indexDataSize;
          s0 = \<lparr>cs_f = index_init\<lparr>max_cursor := mx\<rparr>, cs_cursor = mx div 2, cs_prev = 0,
                step_up = False, step_down = False, is_equal = False\<rparr>;
          s = (if index \<noteq> [] then run_for 10000 (cursor_step index val op mx) s0 else s0);
          f = cs_f s
      in if is_equal s then
           (if op = ts_lte \<or> op = ts_gt then
              (let f1 = f\<lparr>cursor := sz_add (cursor f) 1\<rparr>;
                   f2 = (if cursor f1 < max_cursor f1 then equal_up index val op f1
                         else f1\<lparr>cursor := sz_sub (cursor f1) 1\<rparr>)
               in if op = ts_gt \<and> idx_i f2 = val
                  then f2\<lparr>found_ultima := True, found := False\<rparr> else f2)
            else if op = ts_gte \<or> op = ts_lt then
              (let f2 = equal_down index val op (cursor f) f
               in if op = ts_lt \<and> idx_i f2 = val
                  then f2\<lparr>found_ultima := True, found := False\<rparr> else f2)
            else f)
         else f)"

subsection \<open>Inserting\<close>

text \<open>\<open>std::string::insert(pos, s)\<close>; past the end it throws.\<close>

definition str_insert :: "bytes \<Rightarrow> nat \<Rightarrow> bytes \<Rightarrow> bytes res" where
  "str_insert s pos t = (if pos > length s then Inl Out_of_range else Inr (take pos s @ t @ drop pos s))"

definition index_entry :: "search_index \<Rightarrow> bytes" where
  "index_entry idx = numeric_to_chars (idx_i idx) 8 @ numeric_to_chars (b_offset (dd idx)) 4
     @ numeric_to_chars (b_size (dd idx)) 4"

definition addToIndex :: "bytes \<Rightarrow> search_index \<Rightarrow> bytes res" where
  "addToIndex index_data idx =
     (let f = retrieveCursor index_data (idx_i idx) ts_lt;
          pos_to_insert = (if found f \<or> found_ultima f
                           then sz_mul (sz_add (cursor f) 1) indexDataSize
                           else if is_lower f then 0 else length index_data)
      in str_insert index_data pos_to_insert (index_entry idx))"

subsection \<open>Range searches\<close>

text \<open>
  \<open>f_add\<close>: the entry is added when there is no earlier result or it is part of it;
  \<open>unordered_map::insert\<close> keeps the value of a key that is already there.
\<close>

type_synonym offsets = "uint32 \<Rightarrow> uint32 option"

definition f_add :: "offsets option \<Rightarrow> search_index \<Rightarrow> offsets \<Rightarrow> offsets" where
  "f_add readed si ret =
     (if (case readed of None \<Rightarrow> True | Some r \<Rightarrow> r (b_offset (dd si)) \<noteq> None) then
        (if ret (b_offset (dd si)) = None then ret(b_offset (dd si) \<mapsto> b_size (dd si)) else ret)
      else ret)"

function compare_up ::
  "bytes \<Rightarrow> int64 \<Rightarrow> offsets option \<Rightarrow> search_index \<Rightarrow> offsets \<Rightarrow> search_index \<times> offsets" where
  "compare_up index s readed f ret =
     (if cursor f < max_cursor f then
        (let f1 = extractIndex index (cursor f) f in
         if idx_i f1 = s then compare_up index s readed (f1\<lparr>cursor := cursor f1 + 1\<rparr>) (f_add readed f1 ret)
         else (f1, ret))
      else (f, ret))"
  by pat_completeness auto
termination
  by (relation "measure (\<lambda>(index, s, readed, f, ret). max_cursor f - cursor f)") auto

fun compare_down ::
  "bytes \<Rightarrow> int64 \<Rightarrow> offsets option \<Rightarrow> nat \<Rightarrow> search_index \<Rightarrow> offsets \<Rightarrow> offsets" where
  "compare_down index s readed 0 f ret = ret"
| "compare_down index s readed (Suc c) f ret =
     (let f1 = extractIndex index c f in
      if idx_i f1 = s then compare_down index s readed c f1 (f_add readed f1 ret) else ret)"

definition compare_one :: "bytes \<Rightarrow> offsets option \<Rightarrow> val_search \<Rightarrow> offsets \<Rightarrow> offsets" where
  "compare_one index readed it ret =
     (let s = snd (stoi_long (indexed it) 0);
          f = retrieveCursor index s ts_compare
      in if found f then
           (let c = cursor f;
                (f2, ret2) = compare_up index s readed (f\<lparr>cursor := sz_add (cursor f) 1\<rparr>) (f_add readed f ret)
            in compare_down index s readed c f2 ret2)
         else ret)"

function add_up :: "bytes \<Rightarrow> offsets option \<Rightarrow> search_index \<Rightarrow> offsets \<Rightarrow> offsets" where
  "add_up index readed f ret =
     (if cursor f < max_cursor f then
        (let f1 = extractIndex index (cursor f) f
         in add_up index readed (f1\<lparr>cursor := cursor f1 + 1\<rparr>) (f_add readed f1 ret))
      else ret)"
  by pat_completeness auto
termination
  by (relation "measure (\<lambda>(index, readed, f, ret). max_cursor f - cursor f)") auto

fun add_down :: "bytes \<Rightarrow> offsets option \<Rightarrow> nat \<Rightarrow> search_index \<Rightarrow> offsets \<Rightarrow> offsets" where
  "add_down index readed 0 f ret = ret"
| "add_down index readed (Suc c) f ret =
     (let f1 = extractIndex index c (f\<lparr>cursor := c\<rparr>) in add_down index readed c f1 (f_add readed f1 ret))"

text \<open>\<open>while (f.cursor <= f2.cursor)\<close>.\<close>

function add_range :: "bytes \<Rightarrow> offsets option \<Rightarrow> nat \<Rightarrow> search_index \<Rightarrow> offsets \<Rightarrow> offsets" where
  "add_range index readed c2 f ret =
     (if cursor f \<le> c2 then
        (let f1 = f\<lparr>cursor := cursor f + 1\<rparr>
         in add_range index readed c2 (extractIndex index (cursor f1) f1) (f_add readed f ret))
      else ret)"
  by pat_completeness auto
termination
  by (relation "measure (\<lambda>(index, readed, c2, f, ret). Suc c2 - cursor f)") auto

declare equal_up.simps [simp del] compare_up.simps [simp del]
declare add_up.simps [simp del] add_range.simps [simp del]

definition fetchIndexedData :: "b_search \<Rightarrow> bytes \<Rightarrow> offsets option \<Rightarrow> offsets" where
  "fetchIndexedData srch index readed =
     (if s_op srch = op_compare then
        fold (compare_one index readed) (vals srch) Map.empty
      else if s_op srch = op_gt \<or> s_op srch = op_gte then
        (let f = retrieveCursor index (smin srch) (if s_op srch = op_gt then ts_gt else ts_gte)
         in if found f
            then add_up index readed (f\<lparr>cursor := sz_add (cursor f) 1\<rparr>) (f_add readed f Map.empty)
            else Map.empty)
      else if s_op srch = op_lt \<or> s_op srch = op_lte then
        (let f = retrieveCursor index (smax srch) (if s_op srch = op_lt then ts_lt else ts_lte)
         in if found f then add_down index readed (cursor f) f (f_add readed f Map.empty)
            else Map.empty)
      else
        (let f = retrieveCursor index (smin srch)
                   (if s_op srch = range_lte_gt \<or> s_op srch = range_lt_gt then ts_gt else ts_gte);
             f2 = retrieveCursor index (smax srch)
                   (if s_op srch = range_lt_gt \<or> s_op srch = range_lt_gte then ts_lt else ts_lte)
         in if found f \<and> found f2 then add_range index readed (cursor f2) f Map.empty
            else Map.empty))"

text \<open>\<open>find\<close> over the columns; the position is narrowed to 16 bits, 0 when absent.\<close>

fun find_pos :: "string list \<Rightarrow> string \<Rightarrow> nat \<Rightarrow> nat option" where
  "find_pos [] field k = None"
| "find_pos (c # cs) field k = (if c = field then Some k else find_pos cs field (k + 1))"

definition findIndexColumn :: "string list \<Rightarrow> string \<Rightarrow> 16 word" where
  "findIndexColumn columns field =
     (case find_pos columns field 0 of Some k \<Rightarrow> of_nat k | None \<Rightarrow> 0)"

section \<open>Reading entries back\<close>

text \<open>The abstract index: a list of key, offset and size.\<close>

type_synonym entry = "int64 \<times> uint32 \<times> uint32"

definition enc_entry :: "entry \<Rightarrow> bytes" where
  "enc_entry e = (case e of (k, off, sz) \<Rightarrow>
     numeric_to_chars k 8 @ numeric_to_chars off 4 @ numeric_to_chars sz 4)"

definition enc_index :: "entry list \<Rightarrow> bytes" where
  "enc_index es = concat (map enc_entry es)"

definition key :: "entry \<Rightarrow> int" where "key e = sint (fst e)"

definition load :: "entry \<Rightarrow> search_index \<Rightarrow> search_index" where
  "load e d = (case e of (k, off, sz) \<Rightarrow>
     d\<lparr>idx_i := k, dd := (dd d)\<lparr>b_offset := off, b_size := sz\<rparr>\<rparr>)"

lemma length_enc_entry [simp]: "length (enc_entry e) = 16"
  by (simp add: enc_entry_def split: prod.split)

lemma length_enc_index [simp]: "length (enc_index es) = 16 * length es"
  by (simp add: enc_index_def length_concat_blocks[where n = 16])

lemma enc_index_simps [simp]:
  "enc_index [] = []" "enc_index (e # es) = enc_entry e @ enc_index es"
  "enc_index (xs @ ys) = enc_index xs @ enc_index ys"
  by (simp_all add: enc_index_def)

lemma enc_index_eq_Nil [simp]: "enc_index es = [] \<longleftrightarrow> es = []"
  using length_enc_index[of es] by (metis length_0_conv mult_eq_0_iff zero_neq_numeral)

lemma extract_loop_key:
  assumes "length data + Suc m = 8" "i + Suc m \<le> length index"
  shows "extract_loop index i (Suc m + j) data 0 d =
    extract_loop index (i + Suc m) j [] 1 (d\<lparr>idx_i := chars_to_numeric (data @ take (Suc m) (drop i index))\<rparr>)"
  using assms
proof (induction m arbitrary: i data)
  case 0
  then show ?case by (simp add: Let_def take_Suc_conv_app_nth)
next
  case (Suc m)
  have "take (Suc (Suc m)) (drop i index) = index ! i # take (Suc m) (drop (Suc i) index)"
    using Suc.prems by (simp add: Cons_nth_drop_Suc[symmetric])
  then show ?case using Suc.IH[of "data @ [index ! i]" "Suc i"] Suc.prems by (simp add: Let_def)
qed

lemma extract_loop_offset:
  assumes "length data + Suc m = 4" "i + Suc m \<le> length index"
  shows "extract_loop index i (Suc m + j) data 1 d =
    extract_loop index (i + Suc m) j [] 2
      (d\<lparr>dd := (dd d)\<lparr>b_offset := chars_to_numeric (data @ take (Suc m) (drop i index))\<rparr>\<rparr>)"
  using assms
proof (induction m arbitrary: i data)
  case 0
  then show ?case by (simp add: Let_def take_Suc_conv_app_nth)
next
  case (Suc m)
  have "take (Suc (Suc m)) (drop i index) = index ! i # take (Suc m) (drop (Suc i) index)"
    using Suc.prems by (simp add: Cons_nth_drop_Suc[symmetric])
  then show ?case using Suc.IH[of "data @ [index ! i]" "Suc i"] Suc.prems by (simp add: Let_def)
qed

lemma extract_loop_size:
  assumes "length data + Suc m = 4" "i + Suc m \<le> length index"
  shows "extract_loop index i (Suc m + j) data 2 d =
    d\<lparr>dd := (dd d)\<lparr>b_size := chars_to_numeric (data @ take (Suc m) (drop i index))\<rparr>\<rparr>"
  using assms
proof (induction m arbitrary: i data)
  case 0
  then show ?case by (simp add: Let_def take_Suc_conv_app_nth)
next
  case (Suc m)
  have "take (Suc (Suc m)) (drop i index) = index ! i # take (Suc m) (drop (Suc i) index)"
    using Suc.prems by (simp add: Cons_nth_drop_Suc[symmetric])
  then show ?case using Suc.IH[of "data @ [index ! i]" "Suc i"] Suc.prems by (simp add: Let_def)
qed

lemma extract_loop_16:
  assumes "i + 16 \<le> length index"
  shows "extract_loop index i 16 [] 0 d =
    d\<lparr>idx_i := chars_to_numeric (take 8 (drop i index)),
      dd := (dd d)\<lparr>b_offset := chars_to_numeric (take 4 (drop (i + 8) index)),
                   b_size := chars_to_numeric (take 4 (drop (i + 12) index))\<rparr>\<rparr>"
proof -
  have "extract_loop index i (Suc 7 + 8) [] 0 d =
      extract_loop index (i + Suc 7) (Suc 3 + 4) [] 1 (d\<lparr>idx_i := chars_to_numeric (take 8 (drop i index))\<rparr>)"
    using assms by (subst extract_loop_key) simp_all
  also have "\<dots> = extract_loop index (i + Suc 7 + Suc 3) (Suc 3 + 0) [] 2
      (d\<lparr>idx_i := chars_to_numeric (take 8 (drop i index)),
         dd := (dd d)\<lparr>b_offset := chars_to_numeric (take 4 (drop (i + 8) index))\<rparr>\<rparr>)"
    using assms by (subst extract_loop_offset) simp_all
  also have "\<dots> = d\<lparr>idx_i := chars_to_numeric (take 8 (drop i index)),
      dd := (dd d)\<lparr>b_offset := chars_to_numeric (take 4 (drop (i + 8) index)),
                   b_size := chars_to_numeric (take 4 (drop (i + 12) index))\<rparr>\<rparr>"
    using assms by (subst extract_loop_size) (simp_all add: add.commute)
  finally show ?thesis by (simp add: add.commute)
qed

lemma drop_enc_index:
  "c < length es \<Longrightarrow> drop (16 * c) (enc_index es) = enc_entry (es ! c) @ enc_index (drop (Suc c) es)"
  using drop_concat_blocks[of es enc_entry 16 c]
  by (simp add: enc_index_def Cons_nth_drop_Suc[symmetric])

lemma extractIndex_entry:
  assumes "c < length es" "length es < 2 ^ 60"
  shows "extractIndex (enc_index es) c d = load (es ! c) d"
proof -
  obtain k off sz where e: "es ! c = (k, off, sz)" by (cases "es ! c")
  have *: "drop (16 * c + m) (enc_index es) = drop m (enc_entry (es ! c) @ enc_index (drop (Suc c) es))" for m
    using drop_enc_index[OF assms(1)] by (metis add.commute drop_drop)
  have mul: "sz_mul c indexDataSize = 16 * c"
    using assms by (simp add: indexDataSize_def sz_mul_eq)
  have f: "take 8 (drop (16 * c) (enc_index es)) = numeric_to_chars k 8"
    "take 4 (drop (16 * c + 8) (enc_index es)) = numeric_to_chars off 4"
    "take 4 (drop (16 * c + 12) (enc_index es)) = numeric_to_chars sz 4"
    using *[of 0] *[of 8] *[of 12] by (simp_all add: e enc_entry_def)
  have "extractIndex (enc_index es) c d = extract_loop (enc_index es) (16 * c) 16 [] 0 (index_clear d)"
    using assms mul by (simp add: extractIndex_def indexDataSize_def)
  also have "\<dots> = load (es ! c) d"
    using assms f by (subst extract_loop_16)
      (simp_all add: load_def e index_clear_def b_base_clear_def)
  finally show ?thesis .
qed

lemma extractIndex_past:
  assumes "length es \<le> c" "c < 2 ^ 60"
  shows "extractIndex (enc_index es) c d = index_clear d"
  using assms by (simp add: extractIndex_def indexDataSize_def sz_mul_eq Let_def)

lemma load_simps [simp]:
  "idx_i (load e d) = fst e" "sint (idx_i (load e d)) = key e"
  "b_offset (dd (load e d)) = fst (snd e)" "b_size (dd (load e d)) = snd (snd e)"
  "cursor (load e d) = cursor d" "max_cursor (load e d) = max_cursor d" "found (load e d) = found d"
  "found_ultima (load e d) = found_ultima d" "is_lower (load e d) = is_lower d"
  "load e (load e' d) = load e d"
  by (simp_all add: load_def key_def split: prod.split)

lemma load_cursor [simp]: "load e (d\<lparr>cursor := c\<rparr>) = (load e d)\<lparr>cursor := c\<rparr>"
  by (simp add: load_def split: prod.split)

section \<open>The halving search\<close>

text \<open>Number of binary digits, the variant of the halving steps.\<close>

fun bit_len :: "nat \<Rightarrow> nat" where
  "bit_len x = (if x = 0 then 0 else Suc (bit_len (x div 2)))"

declare bit_len.simps [simp del]

lemma bit_len_mono: "x \<le> y \<Longrightarrow> bit_len x \<le> bit_len y"
proof (induction y arbitrary: x rule: bit_len.induct)
  case (1 y)
  show ?case
  proof (cases "x = 0")
    case False
    then show ?thesis using 1 by (subst (1 2) bit_len.simps) (simp add: div_le_mono)
  qed (simp add: bit_len.simps)
qed

lemma bit_len_less_power: "x < 2 ^ k \<Longrightarrow> bit_len x \<le> k"
proof (induction k arbitrary: x)
  case (Suc k)
  then show ?case by (subst bit_len.simps) (auto simp: less_mult_imp_div_less)
qed (simp add: bit_len.simps)

lemma bit_len_half: "0 < y \<Longrightarrow> x \<le> y div 2 \<Longrightarrow> bit_len x < bit_len y"
  using bit_len_mono[of x "y div 2"] by (subst (2) bit_len.simps) simp

text \<open>A well-formed index: sorted by key, and small enough to be a string.\<close>

definition wf_index :: "entry list \<Rightarrow> bool" where
  "wf_index es \<longleftrightarrow> sorted (map key es) \<and> length es < 2 ^ 60"

lemma key_mono:
  assumes "wf_index es" "i \<le> j" "j < length es"
  shows "key (es ! i) \<le> key (es ! j)"
  using sorted_nth_mono[of "map key es" i j] assms by (simp add: wf_index_def)

text \<open>The first position whose key is at least \<open>v\<close>.\<close>

definition tgt :: "entry list \<Rightarrow> int \<Rightarrow> nat" where
  "tgt es v = length (filter (\<lambda>e. key e < v) es)"

lemma tgt_le: "tgt es v \<le> length es"
  by (simp add: tgt_def)

lemma tgt_iff:
  assumes "sorted (map key es)" "i < length es"
  shows "key (es ! i) < v \<longleftrightarrow> i < tgt es v"
  using assms
proof (induction es arbitrary: i)
  case (Cons e es)
  show ?case
  proof (cases "key e < v")
    case True
    then show ?thesis using Cons by (cases i) (auto simp: tgt_def)
  next
    case False
    then have "filter (\<lambda>e. key e < v) es = []" using Cons.prems by (auto simp: filter_empty_conv)
    moreover have "\<not> key ((e # es) ! i) < v"
      using False Cons.prems by (cases i) (auto dest!: nth_mem)
    ultimately show ?thesis using False by (simp add: tgt_def)
  qed
qed simp

text \<open>What the loop of \<open>retrieveCursor\<close> maintains, and its variant.\<close>

definition cinv :: "entry list \<Rightarrow> int64 \<Rightarrow> cursor_state \<Rightarrow> bool" where
  "cinv es val s \<longleftrightarrow>
     (let n = length es; t = tgt es (sint val); c = cs_cursor s; p = cs_prev s; f = cs_f s in
      c < n \<and> \<not> is_equal s \<and> \<not> found f \<and> \<not> found_ultima f \<and> \<not> is_lower f \<and> max_cursor f = n
      \<and> (p = 0 \<or> p < t) \<and> p \<le> c \<and> \<not> (step_up s \<and> step_down s)
      \<and> (step_up s \<longrightarrow> p + 1 = c \<and> p < t \<and> n - c \<le> 5)
      \<and> (step_down s \<longrightarrow> t \<le> c + 1 \<and> c - p \<le> 5 \<and> c + 1 < n \<and> sint val < key (es ! (c + 1)))
      \<and> (\<not> step_up s \<and> \<not> step_down s \<longrightarrow>
           t - p \<le> 2 * (c - p) + 1 \<and> (p = 0 \<and> c = n div 2 \<or> p + 3 \<le> c)))"

definition cvar :: "entry list \<Rightarrow> int64 \<Rightarrow> cursor_state \<Rightarrow> nat" where
  "cvar es val s =
     (if step_up s then length es - cs_cursor s
      else if step_down s then cs_cursor s - cs_prev s
      else 70 * bit_len (tgt es (sint val) - cs_prev s - 1) + bit_len (cs_cursor s - cs_prev s) + 10)"

lemma cursor_step_entry:
  assumes "wf_index es" "cs_cursor s < length es"
  shows "cursor_step (enc_index es) val op (length es) s =
    (let f = load (es ! cs_cursor s) (cs_f s); c = cs_cursor s in
      if key (es ! c) = sint val then
        Break (s\<lparr>cs_f := f\<lparr>cursor := c, found := True\<rparr>, is_equal := True\<rparr>)
      else if key (es ! c) < sint val then
        (if step_down s then
           (if op = ts_gte \<or> op = ts_gt then
              Break (s\<lparr>cs_cursor := c + 1, cs_f := f\<lparr>cursor := c + 1, found := True\<rparr>\<rparr>)
            else if op = ts_lte \<or> op = ts_lt then
              Break (s\<lparr>cs_f := f\<lparr>cursor := c, found := True\<rparr>\<rparr>)
            else Break (s\<lparr>cs_f := f\<rparr>))
         else if length es - c > 5 then
           Continue (s\<lparr>cs_f := f, cs_prev := c, cs_cursor := c + (length es - c) div 2\<rparr>)
         else if c + 1 = length es then
           (if op = ts_lte \<or> op = ts_lt then
              Break (s\<lparr>cs_f := f\<lparr>cursor := c, found := True\<rparr>, cs_prev := c, step_up := True\<rparr>)
            else Break (s\<lparr>cs_f := f, cs_prev := c, step_up := True, cs_cursor := c + 1\<rparr>))
         else Continue (s\<lparr>cs_f := f, cs_prev := c, step_up := True, cs_cursor := c + 1\<rparr>))
      else
        (if step_up s then
           (if op = ts_lte \<or> op = ts_lt then
              Break (s\<lparr>cs_cursor := sz_sub c 1, cs_f := f\<lparr>cursor := sz_sub c 1, found := True\<rparr>\<rparr>)
            else if op = ts_gte \<or> op = ts_gt then
              Break (s\<lparr>cs_f := f\<lparr>cursor := c, found := True\<rparr>\<rparr>)
            else Break (s\<lparr>cs_f := f\<rparr>))
         else if sz_sub c (cs_prev s) > 5 then
           Continue (s\<lparr>cs_f := f, cs_cursor := sz_add (cs_prev s) (sz_sub c (cs_prev s) div 2)\<rparr>)
         else if c = 0 then
           (if op = ts_gte \<or> op = ts_gt then
              Break (s\<lparr>cs_f := f\<lparr>is_lower := True, cursor := c, found := True\<rparr>, step_down := True\<rparr>)
            else Break (s\<lparr>cs_f := f\<lparr>is_lower := True\<rparr>, step_down := True\<rparr>))
         else Continue (s\<lparr>cs_f := f, step_down := True, cs_cursor := c - 1\<rparr>)))"
proof -
  have n: "length es < 2 ^ 60" using assms by (simp add: wf_index_def)
  have ex: "extractIndex (enc_index es) (cs_cursor s) (cs_f s) = load (es ! cs_cursor s) (cs_f s)"
    using extractIndex_entry[OF assms(2) n] .
  have eq: "fst e = val \<longleftrightarrow> key e = sint val" for e :: entry
    by (auto simp: key_def intro: signed_word_eqI)
  have a: "sz_add (cs_cursor s) 1 = cs_cursor s + 1"
    "sz_add (cs_cursor s) ((length es - cs_cursor s) div 2) = cs_cursor s + (length es - cs_cursor s) div 2"
    using assms n by (simp_all add: sz_add_eq)
  show ?thesis
    using assms by (simp only: cursor_step_def ex Let_def a load_simps eq key_def[symmetric] sz_sub_eq less_imp_le)
qed

lemma cursor_step_Continue:
  assumes wf: "wf_index es" and inv: "cinv es val s"
    and st: "cursor_step (enc_index es) val op (length es) s = Continue s'"
  shows "cinv es val s' \<and> cvar es val s' < cvar es val s"
proof -
  let ?n = "length es" and ?t = "tgt es (sint val)" and ?c = "cs_cursor s" and ?p = "cs_prev s"
  have n: "?n < 2 ^ 60" and srt: "sorted (map key es)" using wf by (simp_all add: wf_index_def)
  have c: "?c < ?n" using inv by (simp add: cinv_def Let_def)
  have low: "key (es ! ?c) < sint val \<longleftrightarrow> ?c < ?t" using tgt_iff[OF srt c] .
  have tn: "?t \<le> ?n" by (rule tgt_le)
  note st = st[unfolded cursor_step_entry[OF wf c] Let_def]
  have ne: "key (es ! ?c) \<noteq> sint val" using st by auto
  note i = inv[unfolded cinv_def Let_def]
  show ?thesis
  proof (cases "key (es ! ?c) < sint val")
    case True
    then have sd: "\<not> step_down s" using st ne by (auto split: if_splits)
    show ?thesis
    proof (cases "?n - ?c > 5")
      case jump: True
      then have s': "s' = s\<lparr>cs_f := load (es ! ?c) (cs_f s), cs_prev := ?c, cs_cursor := ?c + (?n - ?c) div 2\<rparr>"
        using st True sd by simp
      have su: "\<not> step_up s" using i jump by auto
      then have d: "?t - ?p \<le> 2 * (?c - ?p) + 1" "?p = 0 \<and> ?c = ?n div 2 \<or> ?p + 3 \<le> ?c" "?p \<le> ?c"
        using i sd by auto
      have lt: "?c < ?t" using low True by simp
      have h: "?t - ?c \<le> 2 * ((?n - ?c) div 2) + 1" using tn by linarith
      have h2: "3 \<le> (?n - ?c) div 2" "?c + (?n - ?c) div 2 < ?n" using jump by linarith+
      have "\<not> is_equal s \<and> \<not> found (cs_f s) \<and> \<not> found_ultima (cs_f s)
          \<and> \<not> is_lower (cs_f s) \<and> max_cursor (cs_f s) = ?n" using i by simp
      then have "cinv es val s'"
        using lt su sd h h2 by (simp add: s' cinv_def)
      moreover have "bit_len (?t - ?c - 1) < bit_len (?t - ?p - 1)"
      proof (rule bit_len_half)
        have "?p + 3 \<le> ?c" using d(2) jump by presburger
        then show "0 < ?t - ?p - 1" using lt by linarith
        have "2 * (?t - ?c - 1) \<le> ?t - ?p - 1" using d(1,3) lt by linarith
        then show "?t - ?c - 1 \<le> (?t - ?p - 1) div 2" by linarith
      qed
      moreover have "bit_len ((?n - ?c) div 2) \<le> 60" using n by (intro bit_len_less_power) auto
      ultimately show ?thesis using su sd by (simp add: s' cvar_def)
    next
      case near: False
      then have s': "s' = s\<lparr>cs_f := load (es ! ?c) (cs_f s), cs_prev := ?c, step_up := True, cs_cursor := ?c + 1\<rparr>"
        and c1: "?c + 1 \<noteq> ?n"
        using st True sd by (auto split: if_splits)
      have "cinv es val s'"
        using i near low True sd c c1 by (auto simp: s' cinv_def Let_def)
      moreover have "cvar es val s' < cvar es val s"
        using c c1 near sd by (auto simp: s' cvar_def)
      ultimately show ?thesis by simp
    qed
  next
    case False
    then have su: "\<not> step_up s" using st ne by (auto split: if_splits)
    have ge: "?t \<le> ?c" using low False by simp
    have pc: "?p \<le> ?c" using i by simp
    show ?thesis
    proof (cases "?c - ?p > 5")
      case jump: True
      then have sd: "\<not> step_down s" using i by auto
      have s': "s' = s\<lparr>cs_f := load (es ! ?c) (cs_f s), cs_cursor := ?p + (?c - ?p) div 2\<rparr>"
        using st False su jump pc ne c n by (auto simp: sz_add_eq split: if_splits)
      have "cinv es val s'"
        using i jump ge su sd c by (auto simp: s' cinv_def Let_def)
      moreover have "bit_len ((?c - ?p) div 2) < bit_len (?c - ?p)"
        using jump by (intro bit_len_half) auto
      ultimately show ?thesis using su sd by (simp add: s' cvar_def)
    next
      case near: False
      then have s': "s' = s\<lparr>cs_f := load (es ! ?c) (cs_f s), step_down := True, cs_cursor := ?c - 1\<rparr>"
        and c0: "?c \<noteq> 0"
        using st False su pc ne by (auto split: if_splits)
      have "?p < ?c" using i ge c0 by auto
      then have "cinv es val s'"
        using i near ge su c c0 ne False by (auto simp: s' cinv_def Let_def)
      moreover have "cvar es val s' < cvar es val s"
        using \<open>?p < ?c\<close> near su by (auto simp: s' cvar_def)
      ultimately show ?thesis by simp
    qed
  qed
qed

text \<open>A value missing from a sorted index lies in the gap before \<open>tgt\<close>.\<close>

lemma gap_after:
  assumes srt: "sorted (map key es)" and c: "c < length es" "key (es ! c) < v"
    and nxt: "c + 1 = length es \<or> v < key (es ! (c + 1))"
  shows "v \<notin> key ` set es \<and> tgt es v = c + 1"
proof -
  have lt: "c < tgt es v" using tgt_iff[OF srt c(1)] c(2) by simp
  have le: "tgt es v \<le> c + 1"
  proof (cases "c + 1 = length es")
    case True
    then show ?thesis using tgt_le[of es v] by simp
  next
    case False
    then have "c + 1 < length es" "\<not> key (es ! (c + 1)) < v" using c nxt by auto
    then show ?thesis using tgt_iff[OF srt, of "c + 1" v] by simp
  qed
  have "key (es ! j) \<noteq> v" if "j < length es" for j
  proof (cases "j \<le> c")
    case True
    then have "key (es ! j) < v" using tgt_iff[OF srt that, of v] lt by simp
    then show ?thesis by simp
  next
    case False
    then have "v < key (es ! (c + 1))" "c + 1 \<le> j" using nxt that by auto
    moreover have "key (es ! (c + 1)) \<le> key (es ! j)"
      using sorted_nth_mono[OF srt \<open>c + 1 \<le> j\<close>] that \<open>c + 1 \<le> j\<close> by simp
    ultimately show ?thesis by simp
  qed
  then have "v \<notin> key ` set es" by (metis imageE in_set_conv_nth)
  then show ?thesis using lt le by simp
qed

lemma gap_before:
  assumes srt: "sorted (map key es)" and "es \<noteq> []" "v < key (es ! 0)"
  shows "v \<notin> key ` set es \<and> tgt es v = 0"
proof -
  have "v < key (es ! j)" if "j < length es" for j
  proof -
    have "map key es ! 0 \<le> map key es ! j" using sorted_nth_mono[OF srt, of 0 j] that by simp
    moreover have "0 < length es" using assms(2) by simp
    ultimately have "key (es ! 0) \<le> key (es ! j)" using that by (simp only: nth_map)
    then show ?thesis using assms(3) by simp
  qed
  then have "v \<notin> key ` set es" by (metis imageE in_set_conv_nth less_irrefl)
  moreover have "tgt es v = 0" using tgt_iff[OF srt, of 0 v] assms(2,3) by simp
  ultimately show ?thesis by simp
qed

text \<open>What the loop leaves behind.\<close>

definition holds_entry :: "entry \<Rightarrow> search_index \<Rightarrow> bool" where
  "holds_entry e f \<longleftrightarrow>
     idx_i f = fst e \<and> b_offset (dd f) = fst (snd e) \<and> b_size (dd f) = snd (snd e)"

lemma holds_entry_load [simp]: "holds_entry e (load e d)"
  by (simp add: holds_entry_def)

lemma holds_entry_update [simp]:
  "holds_entry e (f\<lparr>cursor := c\<rparr>) = holds_entry e f" "holds_entry e (f\<lparr>found := b\<rparr>) = holds_entry e f"
  "holds_entry e (f\<lparr>found_ultima := b\<rparr>) = holds_entry e f"
  by (simp_all add: holds_entry_def)

definition miss_post :: "entry list \<Rightarrow> int64 \<Rightarrow> type_search_index \<Rightarrow> search_index \<Rightarrow> bool" where
  "miss_post es val op f \<longleftrightarrow>
     (let t = tgt es (sint val); n = length es in
      sint val \<notin> key ` set es \<and> (is_lower f \<longleftrightarrow> t = 0)
      \<and> (op = ts_lt \<or> op = ts_lte \<longrightarrow> (found f \<longleftrightarrow> 0 < t) \<and> (0 < t \<longrightarrow> cursor f = t - 1))
      \<and> (op = ts_gt \<or> op = ts_gte \<longrightarrow> (found f \<longleftrightarrow> t < n) \<and> (t < n \<longrightarrow> cursor f = t))
      \<and> (op = ts_compare \<longrightarrow> \<not> found f))"

definition hit_post :: "entry list \<Rightarrow> int64 \<Rightarrow> search_index \<Rightarrow> bool" where
  "hit_post es val f \<longleftrightarrow>
     cursor f < length es \<and> key (es ! cursor f) = sint val \<and> holds_entry (es ! cursor f) f
     \<and> found f \<and> \<not> is_lower f"

definition cpost :: "entry list \<Rightarrow> int64 \<Rightarrow> type_search_index \<Rightarrow> cursor_state \<Rightarrow> bool" where
  "cpost es val op s \<longleftrightarrow>
     max_cursor (cs_f s) = length es \<and> \<not> found_ultima (cs_f s)
     \<and> (if is_equal s then hit_post es val (cs_f s) else miss_post es val op (cs_f s))"

lemma cursor_step_Break:
  assumes wf: "wf_index es" and inv: "cinv es val s"
    and st: "cursor_step (enc_index es) val op (length es) s = Break s'"
  shows "cpost es val op s'"
proof -
  let ?n = "length es" and ?t = "tgt es (sint val)" and ?c = "cs_cursor s" and ?p = "cs_prev s"
  let ?f = "load (es ! ?c) (cs_f s)"
  have n: "?n < 2 ^ 60" and srt: "sorted (map key es)" using wf by (simp_all add: wf_index_def)
  note i = inv[unfolded cinv_def Let_def]
  have c: "?c < ?n" and base: "\<not> is_equal s" "\<not> found (cs_f s)" "\<not> found_ultima (cs_f s)"
    "\<not> is_lower (cs_f s)" "max_cursor (cs_f s) = ?n" "?p \<le> ?c"
    using i by simp_all
  note st = st[unfolded cursor_step_entry[OF wf c] Let_def]
  consider (eq) "key (es ! ?c) = sint val" | (low) "key (es ! ?c) < sint val"
    | (high) "sint val < key (es ! ?c)" by linarith
  then show ?thesis
  proof cases
    case eq
    then have s': "s' = s\<lparr>cs_f := ?f\<lparr>cursor := ?c, found := True\<rparr>, is_equal := True\<rparr>"
      using st by simp
    show ?thesis using eq c base by (simp add: cpost_def hit_post_def s')
  next
    case low
    show ?thesis
    proof (cases "step_down s")
      case True
      then have g: "sint val \<notin> key ` set es \<and> ?t = ?c + 1" and c1: "?c + 1 < ?n"
        using gap_after[OF srt c low] i by auto
      then show ?thesis
        using st True low base by (auto simp: cpost_def miss_post_def Let_def split: if_splits)
    next
      case False
      then have c1: "?c + 1 = ?n" using st low by (auto split: if_splits)
      then have g: "sint val \<notin> key ` set es \<and> ?t = ?c + 1" using gap_after[OF srt c low] by auto
      then show ?thesis
        using st False low base c1 by (auto simp: cpost_def miss_post_def Let_def split: if_splits)
    qed
  next
    case high
    show ?thesis
    proof (cases "step_up s")
      case True
      then have p: "?p + 1 = ?c" "?p < ?t" using i by auto
      then have "key (es ! ?p) < sint val" using tgt_iff[OF srt, of ?p "sint val"] c by simp
      then have g: "sint val \<notin> key ` set es \<and> ?t = ?c"
        using gap_after[OF srt, of ?p "sint val"] p c high by auto
      have "1 \<le> ?c" using p by simp
      then show ?thesis
        using st True high base g c by (auto simp: cpost_def miss_post_def Let_def split: if_splits)
    next
      case False
      then have c0: "?c = 0" using st high base(6) by (auto split: if_splits)
      then have g: "sint val \<notin> key ` set es \<and> ?t = 0"
        using gap_before[OF srt, of "sint val"] high c by auto
      then show ?thesis
        using st False high base c0 c by (auto simp: cpost_def miss_post_def Let_def split: if_splits)
    qed
  qed
qed

text \<open>
  Ten thousand turns are enough: the variant starts below 70 * 60 + 60 + 11.
\<close>

lemma cursor_loop_post:
  assumes wf: "wf_index es" and ne: "es \<noteq> []"
    and s0: "s0 = \<lparr>cs_f = index_init\<lparr>max_cursor := length es\<rparr>, cs_cursor = length es div 2, cs_prev = 0,
                step_up = False, step_down = False, is_equal = False\<rparr>"
  shows "cpost es val op (run_for 10000 (cursor_step (enc_index es) val op (length es)) s0)"
proof -
  have n: "length es < 2 ^ 60" using wf by (simp add: wf_index_def)
  have tn: "tgt es (sint val) \<le> length es" by (rule tgt_le)
  have "length es div 2 < length es" using ne by (cases es) auto
  moreover have "tgt es (sint val) \<le> 2 * (length es div 2) + 1" using tn by linarith
  ultimately have inv: "cinv es val s0" by (simp add: s0 cinv_def index_init_def)
  have "bit_len (tgt es (sint val) - 1) \<le> 60" "bit_len (length es div 2) \<le> 60"
    using n tn by (auto intro!: bit_len_less_power)
  then have "cvar es val s0 < 10000" by (simp add: s0 cvar_def)
  then obtain s1 where "cinv es val s1"
    "cursor_step (enc_index es) val op (length es) s1
       = Break (run_for 10000 (cursor_step (enc_index es) val op (length es)) s0)"
    using run_for_break[where I = "cinv es val" and m = "cvar es val", OF inv]
      cursor_step_Continue[OF wf] by blast
  then show ?thesis using cursor_step_Break[OF wf] by blast
qed

section \<open>The result of a search\<close>

lemma equal_down_keeps [simp]:
  "max_cursor (equal_down index val op c f) = max_cursor f" "found (equal_down index val op c f) = found f"
  "found_ultima (equal_down index val op c f) = found_ultima f"
  "is_lower (equal_down index val op c f) = is_lower f"
  by (induction index val op c f rule: equal_down.induct) (simp_all add: Let_def)

lemma equal_up_keeps [simp]:
  "max_cursor (equal_up index val op f) = max_cursor f" "found (equal_up index val op f) = found f"
  "found_ultima (equal_up index val op f) = found_ultima f"
  "is_lower (equal_up index val op f) = is_lower f"
  by (induction index val op f rule: equal_up.induct; subst equal_up.simps; simp add: Let_def)+

text \<open>From an equal entry the downward scan stops at the first one.\<close>

lemma equal_down_first:
  assumes wf: "wf_index es" and op: "op = ts_gte \<or> op = ts_lt"
  shows "c < length es \<Longrightarrow> key (es ! c) = sint val \<Longrightarrow> holds_entry (es ! c) f \<Longrightarrow>
    (let t = tgt es (sint val); g = equal_down (enc_index es) val op c f in
     if op = ts_gte \<or> t = 0 then cursor g = t \<and> holds_entry (es ! t) g
     else cursor g = t - 1 \<and> holds_entry (es ! (t - 1)) g)"
proof (induction c arbitrary: f)
  case 0
  then have "tgt es (sint val) = 0"
    using tgt_iff[of es 0 "sint val"] wf by (simp add: wf_index_def)
  then show ?case using 0 by simp
next
  case (Suc c)
  have n: "length es < 2 ^ 60" and srt: "sorted (map key es)" using wf by (simp_all add: wf_index_def)
  have ex: "extractIndex (enc_index es) j d = load (es ! j) d" if "j \<le> Suc c" for j d
    using extractIndex_entry n that Suc.prems(1) by simp
  show ?case
  proof (cases "key (es ! c) = sint val")
    case True
    then have "fst (es ! c) = val" by (auto simp: key_def intro: signed_word_eqI)
    then show ?thesis
      using Suc.IH[of "load (es ! c) (f\<lparr>cursor := c\<rparr>)"] Suc.prems True ex[of c] by (simp add: Let_def)
  next
    case False
    have "key (es ! c) \<le> key (es ! Suc c)"
      using key_mono[OF wf, of c "Suc c"] Suc.prems by simp
    then have lt: "key (es ! c) < sint val" using False Suc.prems by simp
    then have ge: "c < tgt es (sint val)" using tgt_iff[OF srt, of c] Suc.prems by simp
    moreover have "\<not> Suc c < tgt es (sint val)" using tgt_iff[OF srt Suc.prems(1), of "sint val"] Suc.prems(2) by simp
    ultimately have t: "tgt es (sint val) = Suc c" by simp
    have "fst (es ! c) \<noteq> val" using False by (auto simp: key_def)
    moreover have "sz_add c 1 = Suc c" using Suc.prems n by (simp add: sz_add_eq)
    ultimately show ?thesis using op t ex[of c] ex[of "Suc c"] by (auto simp: Let_def)
  qed
qed

text \<open>The upward scan stops behind the last equal entry, or on it for \<open>lte\<close>.\<close>

lemma equal_up_last:
  assumes wf: "wf_index es" and op: "op = ts_lte \<or> op = ts_gt" and mx: "max_cursor f = length es"
    and c: "0 < cursor f" "cursor f \<le> length es" "key (es ! (cursor f - 1)) = sint val"
    and h: "holds_entry (es ! (cursor f - 1)) f"
  shows "let u = tgt es (sint val + 1); g = equal_up (enc_index es) val op f in
     if u = length es then cursor g = u \<and> holds_entry (es ! (u - 1)) g
     else if op = ts_gt then cursor g = u \<and> holds_entry (es ! u) g
     else cursor g = u - 1 \<and> holds_entry (es ! (u - 1)) g"
  using mx c h
proof (induction "length es - cursor f" arbitrary: f)
  case 0
  have srt: "sorted (map key es)" using wf by (simp add: wf_index_def)
  have "tgt es (sint val + 1) = length es"
    using tgt_iff[OF srt, of "cursor f - 1" "sint val + 1"] tgt_le[of es "sint val + 1"] 0 by simp
  then show ?case using 0 by (simp add: equal_up.simps)
next
  case (Suc m)
  have n: "length es < 2 ^ 60" and srt: "sorted (map key es)" using wf by (simp_all add: wf_index_def)
  let ?c = "cursor f"
  have c: "?c < length es" using Suc.hyps(2) by simp
  have ex: "extractIndex (enc_index es) j d = load (es ! j) d" if "j \<le> ?c" for j d
    using extractIndex_entry n that c by simp
  show ?case
  proof (cases "key (es ! ?c) = sint val")
    case True
    then have "fst (es ! ?c) = val" by (auto simp: key_def intro: signed_word_eqI)
    then have "equal_up (enc_index es) val op f = equal_up (enc_index es) val op ((load (es ! ?c) f)\<lparr>cursor := ?c + 1\<rparr>)"
      using c Suc.prems ex[of ?c] by (subst equal_up.simps) (simp add: Let_def)
    then show ?thesis
      using Suc.hyps(1)[of "(load (es ! ?c) f)\<lparr>cursor := ?c + 1\<rparr>"] Suc.hyps(2) Suc.prems c True by simp
  next
    case False
    have "key (es ! (?c - 1)) \<le> key (es ! ?c)"
      using key_mono[OF wf, of "?c - 1" ?c] c by simp
    then have "\<not> key (es ! ?c) < sint val + 1" using False Suc.prems by simp
    then have "\<not> ?c < tgt es (sint val + 1)" using tgt_iff[OF srt c, of "sint val + 1"] by simp
    moreover have "?c - 1 < tgt es (sint val + 1)"
      using tgt_iff[OF srt, of "?c - 1" "sint val + 1"] Suc.prems c by simp
    ultimately have u: "tgt es (sint val + 1) = ?c" using Suc.prems by simp
    have "fst (es ! ?c) \<noteq> val" using False by (auto simp: key_def)
    then have "equal_up (enc_index es) val op f =
        (if op = ts_lte then (load (es ! (?c - 1)) f)\<lparr>cursor := ?c - 1\<rparr> else load (es ! ?c) f)"
      using c Suc.prems ex[of ?c] ex[of "?c - 1"] by (subst equal_up.simps) (simp add: Let_def)
    then show ?thesis using op u c by (auto simp: Let_def)
  qed
qed

lemma retrieveCursor_empty [simp]: "retrieveCursor [] val op = index_init"
  by (simp add: retrieveCursor_def indexDataSize_def index_init_def Let_def)

text \<open>The search either misses, and is the result of the loop, or hits and goes on from there.\<close>

lemma retrieveCursor_cases:
  assumes wf: "wf_index es" and ne: "es \<noteq> []"
  obtains (miss) "miss_post es val op (retrieveCursor (enc_index es) val op)"
      "max_cursor (retrieveCursor (enc_index es) val op) = length es"
      "\<not> found_ultima (retrieveCursor (enc_index es) val op)"
    | (hit) f where "hit_post es val f" "max_cursor f = length es" "\<not> found_ultima f"
      "retrieveCursor (enc_index es) val op =
         (if op = ts_lte \<or> op = ts_gt then
            (let f1 = f\<lparr>cursor := cursor f + 1\<rparr>;
                 f2 = (if cursor f1 < max_cursor f1 then equal_up (enc_index es) val op f1 else f)
             in if op = ts_gt \<and> idx_i f2 = val then f2\<lparr>found_ultima := True, found := False\<rparr> else f2)
          else if op = ts_gte \<or> op = ts_lt then
            (let f2 = equal_down (enc_index es) val op (cursor f) f
             in if op = ts_lt \<and> idx_i f2 = val then f2\<lparr>found_ultima := True, found := False\<rparr> else f2)
          else f)"
proof -
  define s where "s = run_for 10000 (cursor_step (enc_index es) val op (length es))
    \<lparr>cs_f = index_init\<lparr>max_cursor := length es\<rparr>, cs_cursor = length es div 2, cs_prev = 0,
     step_up = False, step_down = False, is_equal = False\<rparr>"
  have post: "cpost es val op s" unfolding s_def by (rule cursor_loop_post[OF wf ne refl])
  let ?r = "retrieveCursor (enc_index es) val op"
  show thesis
  proof (cases "is_equal s")
    case False
    then have "?r = cs_f s" using ne by (simp add: retrieveCursor_def indexDataSize_def s_def Let_def)
    then show thesis using post False by (intro miss) (simp_all add: cpost_def)
  next
    case True
    then have h: "hit_post es val (cs_f s)" "max_cursor (cs_f s) = length es" "\<not> found_ultima (cs_f s)"
      using post by (simp_all add: cpost_def)
    have "cursor (cs_f s) + 1 < 2 ^ 64" using h wf by (simp add: hit_post_def wf_index_def)
    then have "sz_add (cursor (cs_f s)) 1 = cursor (cs_f s) + 1" by (simp add: sz_add_eq)
    then show thesis using True ne
      by (intro hit[OF h]) (simp add: retrieveCursor_def indexDataSize_def s_def[symmetric] Let_def)
  qed
qed

lemma holds_val_iff: "holds_entry e f \<Longrightarrow> idx_i f = val \<longleftrightarrow> key e = sint val"
  by (auto simp: holds_entry_def key_def intro: signed_word_eqI)

lemma retrieveCursor_lt:
  fixes val :: int64
  assumes wf: "wf_index es" and ne: "es \<noteq> []"
  defines "f \<equiv> retrieveCursor (enc_index es) val ts_lt" and "t \<equiv> tgt es (sint val)"
  shows "0 < t \<Longrightarrow> found f \<and> cursor f = t - 1 \<and> (sint val \<in> key ` set es \<longrightarrow> holds_entry (es ! (t - 1)) f)"
    and "t = 0 \<Longrightarrow> \<not> found f \<and> (if sint val \<in> key ` set es then found_ultima f \<and> cursor f = 0
           else \<not> found_ultima f \<and> is_lower f)"
proof -
  have "(0 < t \<longrightarrow> found f \<and> cursor f = t - 1 \<and> (sint val \<in> key ` set es \<longrightarrow> holds_entry (es ! (t - 1)) f)) \<and>
    (t = 0 \<longrightarrow> \<not> found f \<and> (if sint val \<in> key ` set es then found_ultima f \<and> cursor f = 0
           else \<not> found_ultima f \<and> is_lower f))"
  proof (cases rule: retrieveCursor_cases[OF wf ne, of val ts_lt])
    case 1
    then show ?thesis by (simp add: miss_post_def f_def t_def Let_def)
  next
    case (2 g)
    note h = 2(1)[unfolded hit_post_def]
    let ?d = "equal_down (enc_index es) val ts_lt (cursor g) g"
    have f: "f = (if idx_i ?d = val then ?d\<lparr>found_ultima := True, found := False\<rparr> else ?d)"
      using 2(4) by (simp add: f_def Let_def)
    have d: "if t = 0 then cursor ?d = t \<and> holds_entry (es ! t) ?d
       else cursor ?d = t - 1 \<and> holds_entry (es ! (t - 1)) ?d"
      using equal_down_first[OF wf, of ts_lt "cursor g" val g] h by (auto simp: t_def Let_def split: if_splits)
    have mem: "sint val \<in> key ` set es" using h by (metis imageI nth_mem)
    have tle: "t \<le> cursor g"
      using tgt_iff[of es "cursor g" "sint val"] h wf by (simp add: t_def wf_index_def)
    show ?thesis
    proof (cases "t = 0")
      case True
      have "\<not> key (es ! 0) < sint val"
        using tgt_iff[of es 0 "sint val"] wf ne True by (simp add: t_def wf_index_def)
      moreover have "key (es ! 0) \<le> key (es ! cursor g)"
        using h key_mono[OF wf, of 0 "cursor g"] by simp
      ultimately have "idx_i ?d = val" using d True h holds_val_iff[of "es ! 0" ?d val] by simp
      then show ?thesis using True d mem by (simp add: f)
    next
      case False
      then have "t - 1 < length es" using tle h by linarith
      then have "key (es ! (t - 1)) < sint val"
        using tgt_iff[of es "t - 1" "sint val"] wf False by (simp add: t_def wf_index_def)
      then have "idx_i ?d \<noteq> val" using d False holds_val_iff[of "es ! (t - 1)" ?d val] by simp
      then show ?thesis using False d h by (simp add: f)
    qed
  qed
  then show "0 < t \<Longrightarrow> found f \<and> cursor f = t - 1 \<and> (sint val \<in> key ` set es \<longrightarrow> holds_entry (es ! (t - 1)) f)"
    and "t = 0 \<Longrightarrow> \<not> found f \<and> (if sint val \<in> key ` set es then found_ultima f \<and> cursor f = 0
           else \<not> found_ultima f \<and> is_lower f)" by simp_all
qed

lemma retrieveCursor_compare:
  fixes val :: int64
  assumes wf: "wf_index es"
  defines "f \<equiv> retrieveCursor (enc_index es) val ts_compare"
  shows "found f \<longleftrightarrow> sint val \<in> key ` set es" "found f \<Longrightarrow> hit_post es val f"
    "found f \<Longrightarrow> max_cursor f = length es"
proof -
  have "(found f \<longleftrightarrow> sint val \<in> key ` set es) \<and>
    (found f \<longrightarrow> hit_post es val f \<and> max_cursor f = length es)"
  proof (cases "es = []")
    case True
    then show ?thesis by (simp add: f_def index_init_def)
  next
    case False
    show ?thesis
    proof (cases rule: retrieveCursor_cases[OF wf False, of val ts_compare])
      case 1
      then show ?thesis by (simp add: miss_post_def f_def Let_def)
    next
      case (2 g)
      then have "f = g" by (simp add: f_def)
      moreover have "sint val \<in> key ` set es"
        using 2(1) by (metis hit_post_def imageI nth_mem)
      ultimately show ?thesis using 2 by (simp add: hit_post_def)
    qed
  qed
  then show "found f \<longleftrightarrow> sint val \<in> key ` set es" "found f \<Longrightarrow> hit_post es val f"
    "found f \<Longrightarrow> max_cursor f = length es" by simp_all
qed

section \<open>Insertion keeps the index sorted\<close>

definition entry_of :: "search_index \<Rightarrow> entry" where
  "entry_of idx = (idx_i idx, b_offset (dd idx), b_size (dd idx))"

definition insert_pos :: "entry list \<Rightarrow> int \<Rightarrow> nat" where
  "insert_pos es v = (if tgt es v = 0 \<and> v \<in> key ` set es then 1 else tgt es v)"

lemma index_entry_enc: "index_entry idx = enc_entry (entry_of idx)"
  by (simp add: index_entry_def enc_entry_def entry_of_def)

lemma take_enc_index: "take (16 * p) (enc_index es) = enc_index (take p es)"
proof (cases "p \<le> length es")
  case True
  have "take (16 * p) (enc_index (take p es @ drop p es)) = enc_index (take p es)"
    using True by (simp only: enc_index_simps) simp
  then show ?thesis by simp
qed simp

lemma drop_enc_index': "drop (16 * p) (enc_index es) = enc_index (drop p es)"
  using drop_concat_blocks[of es enc_entry 16 p] by (simp add: enc_index_def)

lemma insert_pos_le: "insert_pos es v \<le> length es"
  using tgt_le[of es v] by (auto simp: insert_pos_def Suc_le_eq)

lemma addToIndex_at:
  fixes idx :: search_index
  assumes "wf_index es"
  defines "p \<equiv> insert_pos es (key (entry_of idx))"
  shows "addToIndex (enc_index es) idx = Inr (enc_index (take p es @ entry_of idx # drop p es))"
proof -
  let ?f = "retrieveCursor (enc_index es) (idx_i idx) ts_lt" and ?v = "sint (idx_i idx)"
  have k: "key (entry_of idx) = ?v" by (simp add: key_def entry_of_def)
  have n: "length es < 2 ^ 60" using assms by (simp add: wf_index_def)
  have p: "p \<le> length es" unfolding p_def by (rule insert_pos_le)
  have "(if found ?f \<or> found_ultima ?f then sz_mul (sz_add (cursor ?f) 1) indexDataSize
       else if is_lower ?f then 0 else length (enc_index es)) = 16 * p"
  proof (cases "es = []")
    case True
    then show ?thesis by (simp add: index_init_def p_def insert_pos_def tgt_def)
  next
    case False
    show ?thesis
    proof (cases "tgt es ?v = 0")
      case True
      then show ?thesis using retrieveCursor_lt(2)[OF assms(1) False True]
        by (auto simp: p_def k insert_pos_def indexDataSize_def sz_add_def sz_mul_def)
    next
      case t: False
      then have f: "found ?f" "cursor ?f = tgt es ?v - 1"
        using retrieveCursor_lt(1)[OF assms(1) False] by auto
      have "sz_add (cursor ?f) 1 = tgt es ?v" "sz_mul (tgt es ?v) 16 = tgt es ?v * 16"
        using f t n tgt_le[of es ?v] by (simp_all add: sz_add_eq sz_mul_eq)
      then show ?thesis using f t by (simp add: p_def k insert_pos_def indexDataSize_def)
    qed
  qed
  then show ?thesis
    using p by (simp add: addToIndex_def str_insert_def Let_def take_enc_index drop_enc_index' index_entry_enc)
qed

lemma sorted_key_insert:
  fixes e :: entry
  assumes wf: "wf_index es"
  defines "p \<equiv> insert_pos es (key e)"
  shows "sorted (map key (take p es @ e # drop p es))"
proof -
  have srt: "sorted (map key es)" using wf by (simp add: wf_index_def)
  have p: "p \<le> length es" unfolding p_def by (rule insert_pos_le)
  have lo: "key (es ! i) \<le> key e" if "i < p" for i
  proof (cases "i < tgt es (key e)")
    case True
    then show ?thesis using tgt_iff[OF srt, of i "key e"] that p by simp
  next
    case False
    then have i: "i = 0" "tgt es (key e) = 0" "key e \<in> key ` set es"
      using that by (auto simp: p_def insert_pos_def split: if_splits)
    then obtain j where "j < length es" "key (es ! j) = key e" by (auto simp: in_set_conv_nth)
    then show ?thesis using key_mono[OF wf, of 0 j] i by simp
  qed
  have hi: "key e \<le> key (es ! i)" if "p \<le> i" "i < length es" for i
    using tgt_iff[OF srt that(2), of "key e"] that by (auto simp: p_def insert_pos_def split: if_splits)
  have "key x \<le> key e" if x: "x \<in> set (take p es)" for x
  proof -
    obtain i where "i < length (take p es)" "x = take p es ! i" using x by (metis in_set_conv_nth)
    then show ?thesis using lo[of i] p by simp
  qed
  moreover have "key e \<le> key x" if x: "x \<in> set (drop p es)" for x
  proof -
    obtain i where "i < length (drop p es)" "x = drop p es ! i" using x by (metis in_set_conv_nth)
    then show ?thesis using hi[of "p + i"] by simp
  qed
  moreover have "sorted (map key (take p es))" "sorted (map key (drop p es))"
    using srt by (simp_all add: take_map[symmetric] drop_map[symmetric] sorted_wrt_take sorted_wrt_drop)
  ultimately show ?thesis
    by (simp add: sorted_append ball_Un split_paired_all[symmetric] del: split_paired_All) (meson order_trans)
qed

lemma addToIndex_wf:
  assumes "wf_index es" "length es + 1 < 2 ^ 60"
  obtains es' where "addToIndex (enc_index es) idx = Inr (enc_index es')" "wf_index es'"
    "mset es' = add_mset (entry_of idx) (mset es)"
proof -
  let ?p = "insert_pos es (key (entry_of idx))"
  let ?es = "take ?p es @ entry_of idx # drop ?p es"
  have "mset ?es = add_mset (entry_of idx) (mset (take ?p es @ drop ?p es))"
    by (simp only: mset_append mset.simps) simp
  then have "mset ?es = add_mset (entry_of idx) (mset es)" by simp
  moreover from this have "length ?es = length es + 1" by (metis size_add_mset size_mset Suc_eq_plus1)
  ultimately show thesis
    using assms addToIndex_at[OF assms(1), of idx] sorted_key_insert[OF assms(1), of "entry_of idx"]
    by (intro that[of ?es]) (simp_all add: wf_index_def)
qed

text \<open>Filling an index one entry after the other, as the build of a database does.\<close>

definition addAllToIndex :: "bytes \<Rightarrow> search_index list \<Rightarrow> bytes res" where
  "addAllToIndex index idxs = fold (\<lambda>idx r. bind_res r (\<lambda>d. addToIndex d idx)) idxs (Inr index)"

lemma addAllToIndex_wf:
  assumes "wf_index es" "length es + length idxs < 2 ^ 60"
  obtains es' where "addAllToIndex (enc_index es) idxs = Inr (enc_index es')" "wf_index es'"
    "mset es' = mset es + mset (map entry_of idxs)"
  using assms
proof (induction idxs arbitrary: es thesis)
  case Nil
  then show ?case by (simp add: addAllToIndex_def)
next
  case (Cons idx idxs)
  obtain es1 where es1: "addToIndex (enc_index es) idx = Inr (enc_index es1)" "wf_index es1"
    "mset es1 = add_mset (entry_of idx) (mset es)"
    using addToIndex_wf[of es idx] Cons.prems(2,3) by auto
  have "length es1 = length es + 1" using es1(3) by (metis size_add_mset size_mset Suc_eq_plus1)
  then obtain es' where "addAllToIndex (enc_index es1) idxs = Inr (enc_index es')" "wf_index es'"
    "mset es' = mset es1 + mset (map entry_of idxs)"
    using Cons.IH[of es1] es1(2) Cons.prems(3) by auto
  then show ?case using Cons.prems(1)[of es'] es1 by (simp add: addAllToIndex_def)
qed

lemma fetchAllIndexedData_entries:
  assumes "length es < 2 ^ 60"
  shows "map entry_of (fetchAllIndexedData (enc_index es)) = es"
proof (rule nth_equalityI)
  show len: "length (map entry_of (fetchAllIndexedData (enc_index es))) = length es"
    by (simp add: fetchAllIndexedData_def indexDataSize_def)
  fix i assume "i < length (map entry_of (fetchAllIndexedData (enc_index es)))"
  then have i: "i < length es" using len by simp
  then show "map entry_of (fetchAllIndexedData (enc_index es)) ! i = es ! i"
    using extractIndex_entry[OF i assms]
    by (simp add: fetchAllIndexedData_def indexDataSize_def entry_of_def)
qed

section \<open>Equality and range searches\<close>

text \<open>\<open>f_add\<close> on abstract entries.\<close>

definition add_e :: "offsets option \<Rightarrow> entry \<Rightarrow> offsets \<Rightarrow> offsets" where
  "add_e readed e ret = f_add readed (load e index_init) ret"

definition wanted :: "offsets option \<Rightarrow> uint32 \<Rightarrow> bool" where
  "wanted readed off \<longleftrightarrow> (case readed of None \<Rightarrow> True | Some r \<Rightarrow> off \<in> dom r)"

lemma f_add_holds: "holds_entry e f \<Longrightarrow> f_add readed f ret = add_e readed e ret"
  by (simp add: holds_entry_def add_e_def f_add_def split: option.split)

lemma dom_add_e: "dom (add_e readed e ret) = dom ret \<union> (if wanted readed (fst (snd e)) then {fst (snd e)} else {})"
  by (auto simp: add_e_def f_add_def wanted_def split: option.splits if_splits)

lemma add_e_val: "add_e readed e ret off = Some z \<Longrightarrow> ret off = Some z \<or> snd e = (off, z)"
  by (auto simp: add_e_def f_add_def prod_eq_iff split: option.splits if_splits)

lemma dom_fold_add_e:
  "dom (fold (add_e readed) L ret) = dom ret \<union> {off \<in> fst ` snd ` set L. wanted readed off}"
  by (induction L arbitrary: ret) (auto simp: dom_add_e)

lemma fold_add_e_val:
  "fold (add_e readed) L ret off = Some z \<Longrightarrow> ret off = Some z \<or> (\<exists>e\<in>set L. snd e = (off, z))"
  by (induction L arbitrary: ret) (auto dest: add_e_val)

lemma compare_up_fold:
  assumes n: "length es < 2 ^ 60"
  shows "max_cursor f = length es \<Longrightarrow>
    snd (compare_up (enc_index es) s readed f ret) =
      fold (add_e readed) (takeWhile (\<lambda>e. key e = sint s) (drop (cursor f) es)) ret"
proof (induction "length es - cursor f" arbitrary: f ret)
  case 0
  then show ?case by (simp add: compare_up.simps)
next
  case (Suc m)
  let ?c = "cursor f"
  have c: "?c < length es" using Suc.hyps(2) by simp
  have d: "drop ?c es = es ! ?c # drop (Suc ?c) es" using c by (simp add: Cons_nth_drop_Suc)
  have eq: "fst (es ! ?c) = s \<longleftrightarrow> key (es ! ?c) = sint s" by (auto simp: key_def intro: signed_word_eqI)
  show ?case
  proof (cases "key (es ! ?c) = sint s")
    case True
    then have "compare_up (enc_index es) s readed f ret =
        compare_up (enc_index es) s readed ((load (es ! ?c) f)\<lparr>cursor := ?c + 1\<rparr>) (add_e readed (es ! ?c) ret)"
      using c Suc.prems eq f_add_holds[of "es ! ?c" "load (es ! ?c) f"]
      by (subst compare_up.simps) (simp add: extractIndex_entry[OF c n] Let_def)
    then show ?thesis
      using Suc.hyps(1)[of "(load (es ! ?c) f)\<lparr>cursor := ?c + 1\<rparr>" "add_e readed (es ! ?c) ret"]
        Suc.hyps(2) Suc.prems True d by simp
  next
    case False
    then show ?thesis
      using c Suc.prems eq d by (subst compare_up.simps) (simp add: extractIndex_entry[OF c n] Let_def)
  qed
qed

lemma compare_down_fold:
  assumes n: "length es < 2 ^ 60"
  shows "c \<le> length es \<Longrightarrow> compare_down (enc_index es) s readed c f ret =
      fold (add_e readed) (takeWhile (\<lambda>e. key e = sint s) (rev (take c es))) ret"
proof (induction c arbitrary: f ret)
  case (Suc c)
  then have c: "c < length es" by simp
  have eq: "fst (es ! c) = s \<longleftrightarrow> key (es ! c) = sint s" by (auto simp: key_def intro: signed_word_eqI)
  show ?case
    using Suc c eq f_add_holds[of "es ! c" "load (es ! c) f"]
    by (simp add: extractIndex_entry[OF c n] Let_def take_Suc_conv_app_nth)
qed simp

text \<open>In a sorted list the equal keys are next to each other.\<close>

lemma takeWhile_eq_filter_up:
  "sorted (map key xs) \<Longrightarrow> (\<And>x. x \<in> set xs \<Longrightarrow> v \<le> key x) \<Longrightarrow>
     takeWhile (\<lambda>e. key e = v) xs = filter (\<lambda>e. key e = v) xs"
proof (induction xs)
  case (Cons x xs)
  show ?case
  proof (cases "key x = v")
    case False
    then have "\<forall>y\<in>set xs. key y \<noteq> v" using Cons.prems(1) Cons.prems(2)[of x] by fastforce
    then show ?thesis using False by (simp add: filter_False)
  qed (use Cons in simp)
qed simp

lemma takeWhile_eq_filter_down:
  "sorted (map key xs) \<Longrightarrow> (\<And>x. x \<in> set xs \<Longrightarrow> key x \<le> v) \<Longrightarrow>
     takeWhile (\<lambda>e. key e = v) (rev xs) = filter (\<lambda>e. key e = v) (rev xs)"
proof (induction xs rule: rev_induct)
  case (snoc x xs)
  show ?case
  proof (cases "key x = v")
    case True
    then show ?thesis using snoc by (simp add: sorted_append)
  next
    case False
    then have "\<forall>y\<in>set xs. key y \<noteq> v"
      using snoc.prems(1) snoc.prems(2)[of x] by (fastforce simp: sorted_append)
    then show ?thesis using False by (simp add: filter_False rev_filter[symmetric])
  qed
qed simp

lemma compare_one_fold:
  fixes it :: val_search
  assumes wf: "wf_index es"
  defines "v \<equiv> sint (snd (stoi_long (indexed it) 0))"
  obtains L where "compare_one (enc_index es) readed it ret = fold (add_e readed) L ret"
    "set L = {e \<in> set es. key e = v}"
proof -
  let ?s = "snd (stoi_long (indexed it) 0)"
  let ?f = "retrieveCursor (enc_index es) ?s ts_compare"
  note rc = retrieveCursor_compare[OF wf, of ?s]
  have n: "length es < 2 ^ 60" and srt: "sorted (map key es)" using wf by (simp_all add: wf_index_def)
  show thesis
  proof (cases "found ?f")
    case False
    then have "v \<notin> key ` set es" using rc(1) by (simp add: v_def)
    then have "{e \<in> set es. key e = v} = {}" by blast
    then show thesis using False by (intro that[of "[]"]) (simp_all add: compare_one_def Let_def)
  next
    case True
    let ?c = "cursor ?f"
    have c: "?c < length es" "key (es ! ?c) = v" "holds_entry (es ! ?c) ?f"
      using rc(2)[OF True] by (simp_all add: hit_post_def v_def)
    let ?up = "takeWhile (\<lambda>e. key e = v) (drop (Suc ?c) es)"
    let ?dn = "takeWhile (\<lambda>e. key e = v) (rev (take ?c es))"
    have "v \<le> key x" if x: "x \<in> set (drop (Suc ?c) es)" for x
    proof -
      obtain i where "i < length (drop (Suc ?c) es)" "x = drop (Suc ?c) es ! i"
        using x by (metis in_set_conv_nth)
      then show ?thesis using key_mono[OF wf, of ?c "Suc ?c + i"] c by simp
    qed
    then have up: "?up = filter (\<lambda>e. key e = v) (drop (Suc ?c) es)"
      using srt by (intro takeWhile_eq_filter_up) (simp_all add: drop_map[symmetric] sorted_wrt_drop)
    have "key x \<le> v" if x: "x \<in> set (take ?c es)" for x
    proof -
      obtain i where "i < length (take ?c es)" "x = take ?c es ! i" using x by (metis in_set_conv_nth)
      then show ?thesis using key_mono[OF wf, of i ?c] c by simp
    qed
    then have dn: "?dn = filter (\<lambda>e. key e = v) (rev (take ?c es))"
      using srt by (intro takeWhile_eq_filter_down) (simp_all add: take_map[symmetric] sorted_wrt_take)
    have "set es = set (take ?c es @ es ! ?c # drop (Suc ?c) es)" using c by (simp only: id_take_nth_drop[symmetric])
    then have st: "set (es ! ?c # ?up @ ?dn) = {e \<in> set es. key e = v}"
      using c(2) unfolding up dn by auto
    have "sz_add ?c 1 = ?c + 1" using c n by (simp add: sz_add_eq)
    moreover have "snd (compare_up (enc_index es) ?s readed (?f\<lparr>cursor := ?c + 1\<rparr>) (add_e readed (es ! ?c) ret))
        = fold (add_e readed) ?up (add_e readed (es ! ?c) ret)"
      using rc(3)[OF True] by (subst compare_up_fold[OF n]) (simp_all add: v_def)
    ultimately have "compare_one (enc_index es) readed it ret = fold (add_e readed) (es ! ?c # ?up @ ?dn) ret"
      using True f_add_holds[OF c(3)] compare_down_fold[OF n, of ?c] c(1)
      by (simp add: compare_one_def Let_def case_prod_beta v_def)
    then show thesis using st by (rule that)
  qed
qed

lemma tgt_succ_absent: "v \<notin> key ` set es \<Longrightarrow> tgt es (v + 1) = tgt es v"
proof -
  assume "v \<notin> key ` set es"
  then have "\<forall>e\<in>set es. (key e < v + 1) = (key e < v)" by force
  then show ?thesis unfolding tgt_def by (metis (mono_tags, lifting) filter_cong)
qed

lemma tgt_mono: "v \<le> w \<Longrightarrow> tgt es v \<le> tgt es w"
  unfolding tgt_def by (induction es) auto

text \<open>A hit lies between the first and the last equal entry.\<close>

lemma hit_bounds:
  assumes "wf_index es" "c < length es" "key (es ! c) = v"
  shows "tgt es v \<le> c" "c < tgt es (v + 1)" "key (es ! tgt es v) = v"
proof -
  have srt: "sorted (map key es)" using assms by (simp add: wf_index_def)
  show le: "tgt es v \<le> c" "c < tgt es (v + 1)"
    using tgt_iff[OF srt assms(2), of v] tgt_iff[OF srt assms(2), of "v + 1"] assms(3) by simp_all
  then have "tgt es v < length es" using assms(2) by simp
  then show "key (es ! tgt es v) = v"
    using tgt_iff[OF srt, of "tgt es v" v] key_mono[OF assms(1) le(1) assms(2)] assms(3) by simp
qed

lemma retrieveCursor_gte:
  fixes val :: int64
  assumes wf: "wf_index es" and ne: "es \<noteq> []"
  defines "f \<equiv> retrieveCursor (enc_index es) val ts_gte" and "t \<equiv> tgt es (sint val)"
  shows "(found f \<longleftrightarrow> t < length es) \<and> (found f \<longrightarrow> cursor f = t) \<and> max_cursor f = length es
    \<and> (sint val \<in> key ` set es \<longrightarrow> found f \<and> holds_entry (es ! t) f)"
proof (cases rule: retrieveCursor_cases[OF wf ne, of val ts_gte])
  case 1
  then show ?thesis by (simp add: miss_post_def f_def t_def Let_def)
next
  case (2 g)
  note h = 2(1)[unfolded hit_post_def]
  let ?d = "equal_down (enc_index es) val ts_gte (cursor g) g"
  have f: "f = ?d" using 2(4) by (simp add: f_def Let_def)
  have d: "cursor ?d = t \<and> holds_entry (es ! t) ?d"
    using equal_down_first[OF wf, of ts_gte "cursor g" val g] h by (simp add: t_def Let_def)
  have "t < length es" using hit_bounds(1)[OF wf, of "cursor g" "sint val"] h by (simp add: t_def)
  then show ?thesis using f d h 2(2) by simp
qed

lemma retrieveCursor_up:
  fixes val :: int64
  assumes wf: "wf_index es" and g: "hit_post es val g" "max_cursor g = length es"
    and op: "op = ts_lte \<or> op = ts_gt"
  defines "u \<equiv> tgt es (sint val + 1)"
    and "d \<equiv> (if cursor g + 1 < length es then equal_up (enc_index es) val op (g\<lparr>cursor := cursor g + 1\<rparr>) else g)"
  shows "if u < length es \<and> op = ts_gt then cursor d = u \<and> holds_entry (es ! u) d
    else holds_entry (es ! (u - 1)) d \<and> (cursor d = u - 1 \<or> u = length es \<and> cursor d = u)"
proof -
  note h = g(1)[unfolded hit_post_def]
  have b: "cursor g < u" "u \<le> length es"
    using hit_bounds(2)[OF wf, of "cursor g" "sint val"] h tgt_le by (simp_all add: u_def)
  show ?thesis
  proof (cases "cursor g + 1 < length es")
    case True
    then show ?thesis
      using equal_up_last[OF wf op, of "g\<lparr>cursor := cursor g + 1\<rparr>" val] h g(2) op b
      by (auto simp: d_def u_def Let_def split: if_splits)
  next
    case False
    then have "u = length es" "cursor g = u - 1" using b h by auto
    then show ?thesis using False h by (simp add: d_def)
  qed
qed

lemma retrieveCursor_gt:
  fixes val :: int64
  assumes wf: "wf_index es" and ne: "es \<noteq> []"
  defines "f \<equiv> retrieveCursor (enc_index es) val ts_gt" and "u \<equiv> tgt es (sint val + 1)"
  shows "(found f \<longleftrightarrow> u < length es) \<and> (found f \<longrightarrow> cursor f = u) \<and> max_cursor f = length es
    \<and> (sint val \<in> key ` set es \<and> found f \<longrightarrow> holds_entry (es ! u) f)"
proof (cases rule: retrieveCursor_cases[OF wf ne, of val ts_gt])
  case 1
  then show ?thesis by (simp add: miss_post_def f_def u_def Let_def tgt_succ_absent)
next
  case (2 g)
  note h = 2(1)[unfolded hit_post_def]
  let ?d = "if cursor g + 1 < length es then equal_up (enc_index es) val ts_gt (g\<lparr>cursor := cursor g + 1\<rparr>) else g"
  have f: "f = (if idx_i ?d = val then ?d\<lparr>found_ultima := True, found := False\<rparr> else ?d)"
    using 2(2,4) by (simp add: f_def Let_def)
  note up = retrieveCursor_up[OF wf 2(1,2), of ts_gt, folded u_def]
  have b: "cursor g < u" "u \<le> length es"
    using hit_bounds(2)[OF wf, of "cursor g" "sint val"] h tgt_le by (simp_all add: u_def)
  have d: "found ?d" "max_cursor ?d = length es" using h 2(2) by simp_all
  show ?thesis
  proof (cases "u < length es")
    case True
    then have "\<not> key (es ! u) < sint val + 1"
      using tgt_iff[of es u "sint val + 1"] wf by (simp add: u_def wf_index_def)
    then have "idx_i ?d \<noteq> val" using up True holds_val_iff[of "es ! u" ?d val] by auto
    then show ?thesis using up True d by (simp add: f split: if_splits)
  next
    case False
    then have "key (es ! (u - 1)) < sint val + 1"
      using tgt_iff[of es "u - 1" "sint val + 1"] wf b by (simp add: u_def wf_index_def)
    moreover have "key (es ! cursor g) \<le> key (es ! (u - 1))" using b by (intro key_mono[OF wf]) auto
    ultimately have "key (es ! (u - 1)) = sint val" using h by simp
    then have "idx_i ?d = val" using up False holds_val_iff[of "es ! (u - 1)" ?d val] by auto
    then show ?thesis using False d by (simp add: f)
  qed
qed

lemma retrieveCursor_lte:
  fixes val :: int64
  assumes wf: "wf_index es" and ne: "es \<noteq> []"
  defines "f \<equiv> retrieveCursor (enc_index es) val ts_lte" and "u \<equiv> tgt es (sint val + 1)"
  shows "(found f \<longleftrightarrow> 0 < u) \<and> (found f \<longrightarrow> cursor f = u - 1 \<or> u = length es \<and> cursor f = u)
    \<and> (sint val \<in> key ` set es \<longrightarrow> found f \<and> holds_entry (es ! (u - 1)) f)"
proof (cases rule: retrieveCursor_cases[OF wf ne, of val ts_lte])
  case 1
  then show ?thesis by (simp add: miss_post_def f_def u_def Let_def tgt_succ_absent)
next
  case (2 g)
  note h = 2(1)[unfolded hit_post_def]
  let ?d = "if cursor g + 1 < length es then equal_up (enc_index es) val ts_lte (g\<lparr>cursor := cursor g + 1\<rparr>) else g"
  have f: "f = ?d" using 2(2,4) by (simp add: f_def Let_def)
  note up = retrieveCursor_up[OF wf 2(1,2), of ts_lte, folded u_def]
  have "cursor g < u" using hit_bounds(2)[OF wf, of "cursor g" "sint val"] h by (simp add: u_def)
  then show ?thesis using up h by (auto simp: f)
qed

lemma add_up_fold:
  assumes n: "length es < 2 ^ 60"
  shows "max_cursor f = length es \<Longrightarrow>
    add_up (enc_index es) readed f ret = fold (add_e readed) (drop (cursor f) es) ret"
proof (induction "length es - cursor f" arbitrary: f ret)
  case 0
  then show ?case by (simp add: add_up.simps)
next
  case (Suc m)
  let ?c = "cursor f"
  have c: "?c < length es" using Suc.hyps(2) by simp
  have d: "drop ?c es = es ! ?c # drop (Suc ?c) es" using c by (simp add: Cons_nth_drop_Suc)
  have "add_up (enc_index es) readed f ret =
      add_up (enc_index es) readed ((load (es ! ?c) f)\<lparr>cursor := ?c + 1\<rparr>) (add_e readed (es ! ?c) ret)"
    using c Suc.prems f_add_holds[of "es ! ?c" "load (es ! ?c) f"]
    by (subst add_up.simps) (simp add: extractIndex_entry[OF c n] Let_def)
  then show ?case
    using Suc.hyps(1)[of "(load (es ! ?c) f)\<lparr>cursor := ?c + 1\<rparr>" "add_e readed (es ! ?c) ret"]
      Suc.hyps(2) Suc.prems d by simp
qed

lemma add_down_fold:
  assumes n: "length es < 2 ^ 60"
  shows "c \<le> length es \<Longrightarrow>
    add_down (enc_index es) readed c f ret = fold (add_e readed) (rev (take c es)) ret"
proof (induction c arbitrary: f ret)
  case (Suc c)
  then have c: "c < length es" by simp
  show ?case
    using Suc c f_add_holds[of "es ! c" "(load (es ! c) f)\<lparr>cursor := c\<rparr>"]
    by (simp add: extractIndex_entry[OF c n] Let_def take_Suc_conv_app_nth)
qed simp

lemma set_drop_tgt:
  assumes srt: "sorted (map key es)"
  shows "set (drop (tgt es v) es) = {e \<in> set es. v \<le> key e}"
    and "set (take (tgt es v) es) = {e \<in> set es. key e < v}"
proof -
  have t: "takeWhile (\<lambda>e. key e < v) es = filter (\<lambda>e. key e < v) es"
    using srt
  proof (induction es)
    case (Cons e es)
    have "filter (\<lambda>e. key e < v) es = []" if "\<not> key e < v"
      using that Cons.prems by (intro filter_False) fastforce
    then show ?case using Cons by simp
  qed simp
  then have len: "length (takeWhile (\<lambda>e. key e < v) es) = tgt es v" by (simp add: tgt_def)
  have tk: "take (tgt es v) es = filter (\<lambda>e. key e < v) es"
    using t len by (metis takeWhile_eq_take)
  then show "set (take (tgt es v) es) = {e \<in> set es. key e < v}" by (simp only: set_filter)
  have "v \<le> key x" if x: "x \<in> set (drop (tgt es v) es)" for x
  proof -
    obtain i where "i < length (drop (tgt es v) es)" "x = drop (tgt es v) es ! i"
      using x by (metis in_set_conv_nth)
    then show ?thesis using tgt_iff[OF srt, of "tgt es v + i" v] by (simp add: less_diff_conv add.commute)
  qed
  moreover have "set es = set (take (tgt es v) es) \<union> set (drop (tgt es v) es)"
    by (metis append_take_drop_id set_append)
  ultimately show "set (drop (tgt es v) es) = {e \<in> set es. v \<le> key e}"
    unfolding tk by (auto simp: not_le[symmetric])
qed

text \<open>What an open range search returns, when the bound occurs in the index.\<close>

definition bound_ok :: "type_operation \<Rightarrow> int \<Rightarrow> int \<Rightarrow> bool" where
  "bound_ok sop b k \<longleftrightarrow> (case sop of
     op_gt \<Rightarrow> b < k | op_gte \<Rightarrow> b \<le> k | op_lt \<Rightarrow> k < b | op_lte \<Rightarrow> k \<le> b | _ \<Rightarrow> False)"

lemma open_range_fold:
  assumes wf: "wf_index es"
    and sop: "s_op srch = op_gt \<or> s_op srch = op_gte \<or> s_op srch = op_lt \<or> s_op srch = op_lte"
    and b: "b = (if s_op srch = op_gt \<or> s_op srch = op_gte then smin srch else smax srch)"
    and present: "sint b \<in> key ` set es"
  obtains L where "fetchIndexedData srch (enc_index es) readed = fold (add_e readed) L Map.empty"
    "set L = {e \<in> set es. bound_ok (s_op srch) (sint b) (key e)}"
proof -
  have n: "length es < 2 ^ 60" and srt: "sorted (map key es)" using wf by (simp_all add: wf_index_def)
  have ne: "es \<noteq> []" using present by auto
  let ?t = "tgt es (sint b)" and ?u = "tgt es (sint b + 1)"
  note sets = set_drop_tgt[OF srt]
  have un: "?u \<le> length es" and tn: "?t \<le> length es" by (rule tgt_le)+
  consider (gt) "s_op srch = op_gt" | (gte) "s_op srch = op_gte" | (lt) "s_op srch = op_lt"
    | (lte) "s_op srch = op_lte" using sop by blast
  then show thesis
  proof cases
    case gt
    let ?f = "retrieveCursor (enc_index es) b ts_gt"
    note r = retrieveCursor_gt[OF wf ne, of b]
    have "fetchIndexedData srch (enc_index es) readed = fold (add_e readed) (drop ?u es) Map.empty"
    proof (cases "?u < length es")
      case True
      then have "sz_add ?u 1 = Suc ?u" using n by (simp add: sz_add_eq)
      then show ?thesis
        using True gt r present b Cons_nth_drop_Suc[OF True, symmetric] f_add_holds[of "es ! ?u" ?f]
          add_up_fold[OF n, of "?f\<lparr>cursor := Suc ?u\<rparr>" readed]
        by (simp add: fetchIndexedData_def Let_def)
    next
      case False
      then show ?thesis using gt r b by (simp add: fetchIndexedData_def)
    qed
    then show thesis by (rule that) (simp add: sets gt bound_ok_def add1_zle_eq)
  next
    case gte
    let ?f = "retrieveCursor (enc_index es) b ts_gte"
    note r = retrieveCursor_gte[OF wf ne, of b]
    have t: "?t < length es" using r present by blast
    then have "sz_add ?t 1 = Suc ?t" using n by (simp add: sz_add_eq)
    then have "fetchIndexedData srch (enc_index es) readed = fold (add_e readed) (drop ?t es) Map.empty"
      using t gte r present b Cons_nth_drop_Suc[OF t, symmetric] f_add_holds[of "es ! ?t" ?f]
        add_up_fold[OF n, of "?f\<lparr>cursor := Suc ?t\<rparr>" readed]
      by (simp add: fetchIndexedData_def Let_def)
    then show thesis by (rule that) (simp add: sets gte bound_ok_def add1_zle_eq)
  next
    case lt
    let ?f = "retrieveCursor (enc_index es) b ts_lt"
    note r = retrieveCursor_lt[OF wf ne, of b]
    have "fetchIndexedData srch (enc_index es) readed = fold (add_e readed) (rev (take ?t es)) Map.empty"
    proof (cases "?t = 0")
      case False
      then have "take ?t es = take (?t - 1) es @ [es ! (?t - 1)]"
        using tn take_Suc_conv_app_nth[of "?t - 1" es] by simp
      then show ?thesis
        using False lt r(1) present b f_add_holds[of "es ! (?t - 1)" ?f]
          add_down_fold[OF n, of "?t - 1" readed ?f] tn
        by (simp add: fetchIndexedData_def Let_def)
    next
      case True
      then show ?thesis using lt r(2) b by (simp add: fetchIndexedData_def)
    qed
    then show thesis by (rule that) (simp add: sets lt bound_ok_def)
  next
    case lte
    let ?f = "retrieveCursor (enc_index es) b ts_lte"
    note r = retrieveCursor_lte[OF wf ne, of b]
    have c: "cursor ?f \<le> length es" "0 < ?u" using r present un by auto
    have "fetchIndexedData srch (enc_index es) readed =
        fold (add_e readed) (es ! (?u - 1) # rev (take (cursor ?f) es)) Map.empty"
      using lte r present b c(2) f_add_holds[of "es ! (?u - 1)" ?f] add_down_fold[OF n c(1)]
      by (simp add: fetchIndexedData_def Let_def)
    moreover have "set (es ! (?u - 1) # rev (take (cursor ?f) es)) = set (take ?u es)"
    proof (cases "cursor ?f = ?u - 1")
      case True
      then show ?thesis using take_Suc_conv_app_nth[of "?u - 1" es] c un by simp
    next
      case False
      then have "cursor ?f = ?u" using r present by blast
      moreover have "es ! (?u - 1) \<in> set (take ?u es)"
        using c un by (metis (no_types) diff_less in_set_conv_nth length_take less_numeral_extra(1) min.absorb2 nth_take)
      ultimately show ?thesis by (simp add: insert_absorb)
    qed
    moreover have "set (take ?u es) = {e \<in> set es. bound_ok (s_op srch) (sint b) (key e)}"
      by (simp add: sets lte bound_ok_def zless_add1_eq order_le_less)
    ultimately show thesis by (intro that) (assumption, simp only:)
  qed
qed

lemma compare_all_fold:
  assumes wf: "wf_index es"
  obtains L where "fold (compare_one (enc_index es) readed) its ret = fold (add_e readed) L ret"
    "set L = {e \<in> set es. key e \<in> {sint (snd (stoi_long (indexed it) 0)) | it. it \<in> set its}}"
proof (induction its arbitrary: ret thesis)
  case Nil
  show ?case by (rule Nil[of "[]"]) simp_all
next
  case (Cons it its)
  obtain L1 where L1: "compare_one (enc_index es) readed it ret = fold (add_e readed) L1 ret"
    "set L1 = {e \<in> set es. key e = sint (snd (stoi_long (indexed it) 0))}"
    by (rule compare_one_fold[OF wf])
  obtain L2 where L2: "fold (compare_one (enc_index es) readed) its (fold (add_e readed) L1 ret)
      = fold (add_e readed) L2 (fold (add_e readed) L1 ret)"
    "set L2 = {e \<in> set es. key e \<in> {sint (snd (stoi_long (indexed it) 0)) | it. it \<in> set its}}"
    by (rule Cons.IH)
  show ?case
  proof (rule Cons.prems[of "L1 @ L2"])
    show "fold (compare_one (enc_index es) readed) (it # its) ret = fold (add_e readed) (L1 @ L2) ret"
      using L1(1) L2(1) by simp
    show "set (L1 @ L2) = {e \<in> set es. key e \<in> {sint (snd (stoi_long (indexed i) 0)) | i. i \<in> set (it # its)}}"
      unfolding set_append L1(2) L2(2) by auto
  qed
qed

text \<open>A result collected from the entries with a property.\<close>

lemma collected:
  assumes "r = fold (add_e readed) L Map.empty" "set L = {e \<in> set es. P (key e)}"
  shows "dom r = {off. wanted readed off \<and> (\<exists>k sz. (k, off, sz) \<in> set es \<and> P (sint k))}
    \<and> (\<forall>off sz. r off = Some sz \<longrightarrow> (\<exists>k. (k, off, sz) \<in> set es \<and> P (sint k)))"
proof -
  have "fst ` snd ` set L = {off. \<exists>k sz. (k, off, sz) \<in> set es \<and> P (sint k)}"
    unfolding assms(2) by (force simp: key_def)
  then have "dom r = {off. wanted readed off \<and> (\<exists>k sz. (k, off, sz) \<in> set es \<and> P (sint k))}"
    using dom_fold_add_e[of readed L Map.empty] by (auto simp: assms(1))
  moreover have "\<exists>k. (k, off, sz) \<in> set es \<and> P (sint k)" if "r off = Some sz" for off sz
    using fold_add_e_val[of readed L Map.empty off sz] that assms by (auto simp: key_def)
  ultimately show ?thesis by blast
qed

section \<open>Properties\<close>

text \<open>C15. An index filled from nothing by \<open>addToIndex\<close>, one entry after the other, never
  fails, is sorted by signed key at the end, and \<open>fetchAllIndexedData\<close> reads back exactly
  the entries that went in, each as often as it was added.\<close>

theorem index_build_sorted:
  assumes "length idxs < 2 ^ 60"
  shows "\<exists>d. addAllToIndex [] idxs = Inr d
    \<and> sorted (map (\<lambda>f. sint (idx_i f)) (fetchAllIndexedData d))
    \<and> mset (map entry_of (fetchAllIndexedData d)) = mset (map entry_of idxs)"
proof -
  have "wf_index []" by (simp add: wf_index_def)
  then obtain es where es: "addAllToIndex (enc_index []) idxs = Inr (enc_index es)" "wf_index es"
    "mset es = mset (map entry_of idxs)"
    using addAllToIndex_wf[of "[]" idxs] assms by auto
  have all: "map entry_of (fetchAllIndexedData (enc_index es)) = es"
    using es(2) by (intro fetchAllIndexedData_entries) (simp add: wf_index_def)
  have "map (\<lambda>f. sint (idx_i f)) (fetchAllIndexedData (enc_index es)) =
      map key (map entry_of (fetchAllIndexedData (enc_index es)))"
    by (simp add: key_def entry_of_def)
  then have "sorted (map (\<lambda>f. sint (idx_i f)) (fetchAllIndexedData (enc_index es)))"
    using es(2) by (simp only: all wf_index_def)
  moreover have "mset (map entry_of (fetchAllIndexedData (enc_index es))) = mset (map entry_of idxs)"
    using es(3) by (simp only: all)
  ultimately show ?thesis using es(1) by (intro exI[of _ "enc_index es"]) simp
qed

theorem index_build_sorted_witness:
  "\<exists>d. addAllToIndex [] [index_init\<lparr>idx_i := 7\<rparr>, index_init\<lparr>idx_i := - 3\<rparr>] = Inr d
    \<and> sorted (map (\<lambda>f. sint (idx_i f)) (fetchAllIndexedData d))
    \<and> mset (map entry_of (fetchAllIndexedData d)) =
        mset (map entry_of [index_init\<lparr>idx_i := 7\<rparr>, index_init\<lparr>idx_i := - 3\<rparr>])"
  by (rule index_build_sorted) simp

text \<open>C16. \<open>retrieveCursor\<close> on a sorted index finds the right place for every kind of search
  within the 10000 turns of its loop: with \<open>t\<close> keys below the value and \<open>u\<close> keys not above it,
  \<open>lt\<close> stops at \<open>t - 1\<close>, \<open>gte\<close> at \<open>t\<close>, \<open>gt\<close> at \<open>u\<close>, \<open>lte\<close> at \<open>u - 1\<close> (or at the end, when no
  larger key follows), each reporting whether such an entry exists, and \<open>compare\<close> reports
  whether the value occurs and stops at one of its entries.\<close>

theorem retrieveCursor_positions:
  fixes val :: int64
  assumes "wf_index es" "es \<noteq> []"
  defines "t \<equiv> tgt es (sint val)" and "u \<equiv> tgt es (sint val + 1)"
    and "r \<equiv> retrieveCursor (enc_index es) val"
  shows "(found (r ts_lt) \<longleftrightarrow> 0 < t) \<and> (0 < t \<longrightarrow> cursor (r ts_lt) = t - 1)
    \<and> (found (r ts_gte) \<longleftrightarrow> t < length es) \<and> (t < length es \<longrightarrow> cursor (r ts_gte) = t)
    \<and> (found (r ts_gt) \<longleftrightarrow> u < length es) \<and> (u < length es \<longrightarrow> cursor (r ts_gt) = u)
    \<and> (found (r ts_lte) \<longleftrightarrow> 0 < u)
    \<and> (0 < u \<longrightarrow> cursor (r ts_lte) = u - 1 \<or> u = length es \<and> cursor (r ts_lte) = u)
    \<and> (found (r ts_compare) \<longleftrightarrow> sint val \<in> key ` set es)
    \<and> (found (r ts_compare) \<longrightarrow>
         cursor (r ts_compare) < length es \<and> key (es ! cursor (r ts_compare)) = sint val)"
proof -
  have "(found (r ts_lt) \<longleftrightarrow> 0 < t) \<and> (0 < t \<longrightarrow> cursor (r ts_lt) = t - 1)"
    using retrieveCursor_lt[OF assms(1,2), of val] unfolding r_def t_def by (cases "tgt es (sint val) = 0") auto
  moreover have "(found (r ts_gte) \<longleftrightarrow> t < length es) \<and> (t < length es \<longrightarrow> cursor (r ts_gte) = t)"
    using retrieveCursor_gte[OF assms(1,2), of val] unfolding r_def t_def by blast
  moreover have "(found (r ts_gt) \<longleftrightarrow> u < length es) \<and> (u < length es \<longrightarrow> cursor (r ts_gt) = u)"
    using retrieveCursor_gt[OF assms(1,2), of val] unfolding r_def u_def by blast
  moreover have "(found (r ts_lte) \<longleftrightarrow> 0 < u)
    \<and> (0 < u \<longrightarrow> cursor (r ts_lte) = u - 1 \<or> u = length es \<and> cursor (r ts_lte) = u)"
    using retrieveCursor_lte[OF assms(1,2), of val] unfolding r_def u_def by blast
  moreover have "(found (r ts_compare) \<longleftrightarrow> sint val \<in> key ` set es)
    \<and> (found (r ts_compare) \<longrightarrow>
         cursor (r ts_compare) < length es \<and> key (es ! cursor (r ts_compare)) = sint val)"
    using retrieveCursor_compare(1,2)[OF assms(1), of val] unfolding r_def by (simp add: hit_post_def)
  ultimately show ?thesis by (elim conjE) (intro conjI; assumption)
qed

theorem retrieveCursor_positions_witness:
  "found (retrieveCursor (enc_index [(1, 10, 5), (1, 20, 5), (4, 30, 5)]) 2 ts_lt)
    \<and> cursor (retrieveCursor (enc_index [(1, 10, 5), (1, 20, 5), (4, 30, 5)]) 2 ts_lt) = 1"
  using retrieveCursor_positions[of "[(1, 10, 5), (1, 20, 5), (4, 30, 5)]" 2]
  by (simp add: wf_index_def key_def tgt_def)

text \<open>C17. An equality search returns exactly the documents whose key is one of the searched
  values (restricted to the earlier result, when there is one), each with a size stored for it.\<close>

theorem fetch_compare_exact:
  fixes readed :: "offsets option"
  assumes "wf_index es" "s_op srch = op_compare"
  defines "ks \<equiv> {sint (snd (stoi_long (indexed it) 0)) | it. it \<in> set (vals srch)}"
    and "r \<equiv> fetchIndexedData srch (enc_index es) readed"
  shows "dom r = {off. wanted readed off \<and> (\<exists>k sz. (k, off, sz) \<in> set es \<and> sint k \<in> ks)}
    \<and> (\<forall>off sz. r off = Some sz \<longrightarrow> (\<exists>k. (k, off, sz) \<in> set es \<and> sint k \<in> ks))"
proof -
  obtain L where "fold (compare_one (enc_index es) readed) (vals srch) Map.empty = fold (add_e readed) L Map.empty"
    "set L = {e \<in> set es. key e \<in> ks}"
    unfolding ks_def by (rule compare_all_fold[OF assms(1)])
  then show ?thesis
    using assms(2) by (intro collected[where L = L]) (simp_all add: r_def fetchIndexedData_def)
qed

theorem fetch_compare_exact_witness:
  "dom (fetchIndexedData (b_search_init\<lparr>vals := [\<lparr>indexed = to_string 4, vs_base = []\<rparr>]\<rparr>)
     (enc_index [(1, 10, 5), (4, 30, 6)]) None) = {30}"
proof -
  have "stoi_long (to_string 4) 0 = (True, 4)" using stoi_long_to_string[of 4 0] by simp
  then show ?thesis
    using fetch_compare_exact[of "[(1, 10, 5), (4, 30, 6)]"
        "b_search_init\<lparr>vals := [\<lparr>indexed = to_string 4, vs_base = []\<rparr>]\<rparr>" None]
    by (auto simp: wf_index_def key_def b_search_init_def wanted_def)
qed

text \<open>C18. A search with one bound (\<open>gt\<close>, \<open>gte\<close>, \<open>lt\<close>, \<open>lte\<close>) returns exactly the documents
  on its side of the bound, when the bound is a key of the index.\<close>

theorem fetch_open_range_exact:
  fixes readed :: "offsets option"
  assumes "wf_index es"
    and "s_op srch = op_gt \<or> s_op srch = op_gte \<or> s_op srch = op_lt \<or> s_op srch = op_lte"
    and "b = (if s_op srch = op_gt \<or> s_op srch = op_gte then smin srch else smax srch)"
    and "sint b \<in> key ` set es"
  defines "r \<equiv> fetchIndexedData srch (enc_index es) readed"
  shows "dom r = {off. wanted readed off \<and> (\<exists>k sz. (k, off, sz) \<in> set es \<and> bound_ok (s_op srch) (sint b) (sint k))}
    \<and> (\<forall>off sz. r off = Some sz \<longrightarrow> (\<exists>k. (k, off, sz) \<in> set es \<and> bound_ok (s_op srch) (sint b) (sint k)))"
proof -
  obtain L where "r = fold (add_e readed) L Map.empty"
    "set L = {e \<in> set es. bound_ok (s_op srch) (sint b) (key e)}"
    unfolding r_def by (rule open_range_fold[OF assms(1-4)])
  then show ?thesis by (rule collected)
qed

theorem fetch_open_range_exact_witness:
  "dom (fetchIndexedData (b_search_init\<lparr>s_op := op_gte, smin := 4\<rparr>)
     (enc_index [(1, 10, 5), (4, 30, 6)]) None) = {30}"
  using fetch_open_range_exact[of "[(1, 10, 5), (4, 30, 6)]"
      "b_search_init\<lparr>s_op := op_gte, smin := 4\<rparr>" 4 None]
  by (auto simp: wf_index_def key_def wanted_def bound_ok_def)

text \<open>
  The hypothesis on the bound cannot be dropped: after a step down \<open>retrieveCursor\<close> moves
  the cursor to the next entry without reading it, so the search returns the neighbour on the
  wrong side and misses the first right one.
\<close>

lemma run_for_numeral:
  "run_for (numeral k) body s =
     (case body s of Break s' \<Rightarrow> s' | Continue s' \<Rightarrow> run_for (pred_numeral k) body s')"
  by (simp add: numeral_eq_Suc)

lemma fetch_gte_absent_key_wrong:
  "fetchIndexedData (b_search_init\<lparr>s_op := op_gte, smin := 2\<rparr>)
     (enc_index [(1, 10, 5), (3, 30, 6)]) None = [10 \<mapsto> 5]"
proof -
  define es :: "entry list" where "es = [(1, 10, 5), (3, 30, 6)]"
  have wf: "wf_index es" and es: "length es = 2" "es ! 0 = (1, 10, 5)" "es ! Suc 0 = (3, 30, 6)" "es \<noteq> []"
    by (simp_all add: es_def wf_index_def key_def)
  note st = cursor_step_entry[OF wf, of _ 2 ts_gte, unfolded es(1)]
  have "retrieveCursor (enc_index es) 2 ts_gte =
      load (1, 10, 5) (index_init\<lparr>max_cursor := 2, cursor := 1, found := True\<rparr>)"
    by (simp add: retrieveCursor_def indexDataSize_def run_for_numeral st es
        key_def Let_def sz_add_def load_def index_init_def)
  then show ?thesis unfolding es_def[symmetric]
    by (simp add: fetchIndexedData_def b_search_init_def add_up.simps sz_add_def f_add_def load_def
        index_init_def b_base_init_def Let_def)
qed

end
