(* ===== verification/Map_Time.thy ===== *)
theory Map_Time
  imports Bitbase Cpp_Std "HOL-Library.AList"
begin

text \<open>
  \<open>libs/map_time.h\<close>: a map whose entries expire.  Time points are integers in
  nanoseconds; a call that reads a clock gets the reading as an argument.  The
  \<open>unordered_map\<close> is an association list with distinct keys, whose order stands for the
  unspecified iteration order; the \<open>multimap\<close> of expiry times is a list sorted by time.
\<close>

section \<open>Definitions\<close>

type_synonym time = int

record 'v timed_val =
  tv_val :: 'v
  valid_until :: time

record ('k, 'v) map_time =
  mt_map :: "('k \<times> 'v timed_val) list"
  mt_times :: "(time \<times> 'k) list"

definition mt_empty :: "('k, 'v) map_time" where
  "mt_empty = \<lparr>mt_map = [], mt_times = []\<rparr>"

definition seconds :: "int32 \<Rightarrow> time" where
  "seconds s = sint s * 1000000000"

text \<open>\<open>multimap::insert\<close>: behind the elements with an equal key.\<close>

fun times_insert :: "time \<times> 'k \<Rightarrow> (time \<times> 'k) list \<Rightarrow> (time \<times> 'k) list" where
  "times_insert x [] = [x]"
| "times_insert x (y # ys) = (if fst x < fst y then x # y # ys else y # times_insert x ys)"

definition mt_insert :: "time \<Rightarrow> 'k \<Rightarrow> 'v \<Rightarrow> int32 \<Rightarrow> ('k, 'v) map_time \<Rightarrow> ('k, 'v) map_time" where
  "mt_insert now k v ttl_sec m =
     (let tv = \<lparr>tv_val = v, valid_until = now + seconds ttl_sec\<rparr> in
      m\<lparr>mt_map := AList.update k tv (mt_map m),
        mt_times := times_insert (valid_until tv, k) (mt_times m)\<rparr>)"

definition mt_erase :: "'k \<Rightarrow> ('k, 'v) map_time \<Rightarrow> ('k, 'v) map_time" where
  "mt_erase k m = m\<lparr>mt_map := AList.delete k (mt_map m)\<rparr>"

definition mt_get :: "time \<Rightarrow> 'k \<Rightarrow> ('k, 'v) map_time \<Rightarrow> 'v option" where
  "mt_get now k m =
     (case map_of (mt_map m) k of
        None \<Rightarrow> None
      | Some tv \<Rightarrow> if valid_until tv \<ge> now then Some (tv_val tv) else None)"

definition mt_remove_if :: "'k \<Rightarrow> ('v \<Rightarrow> bool) \<Rightarrow> ('k, 'v) map_time \<Rightarrow> ('k, 'v) map_time" where
  "mt_remove_if k pred m =
     (case map_of (mt_map m) k of
        None \<Rightarrow> m
      | Some tv \<Rightarrow> if pred (tv_val tv) then m\<lparr>mt_map := AList.delete k (mt_map m)\<rparr> else m)"

definition mt_clear :: "('k, 'v) map_time \<Rightarrow> ('k, 'v) map_time" where
  "mt_clear m = m\<lparr>mt_map := [], mt_times := []\<rparr>"

text \<open>
  The loop of \<open>clear_ttl\<close> over the expiry times: it stops at the first one that is not
  over, and returns the map and the times that stay.
\<close>

fun clear_ttl_loop ::
  "time \<Rightarrow> (time \<times> 'k) list \<Rightarrow> ('k \<times> 'v timed_val) list \<Rightarrow> ('k \<times> 'v timed_val) list \<times> (time \<times> 'k) list" where
  "clear_ttl_loop n [] mp = (mp, [])"
| "clear_ttl_loop n (it # ts) mp =
     (if fst it < n then
        (case map_of mp (snd it) of
           None \<Rightarrow> clear_ttl_loop n ts mp
         | Some tv \<Rightarrow>
             if valid_until tv < n then clear_ttl_loop n ts (AList.delete (snd it) mp)
             else clear_ttl_loop n ts mp)
      else (mp, it # ts))"

definition clear_ttl :: "time \<Rightarrow> ('k, 'v) map_time \<Rightarrow> ('k, 'v) map_time" where
  "clear_ttl n m =
     (if mt_times m = [] then m
      else (let (mp, ts) = clear_ttl_loop n (mt_times m) (mt_map m)
            in m\<lparr>mt_map := mp, mt_times := ts\<rparr>))"

record mt_stat =
  count_elements :: nat
  count_times :: nat

definition get_stat :: "('k, 'v) map_time \<Rightarrow> mt_stat" where
  "get_stat m = \<lparr>count_elements = length (mt_map m), count_times = length (mt_times m)\<rparr>"

definition get_all :: "('k, 'v) map_time \<Rightarrow> ('k \<times> 'v timed_val) list" where
  "get_all m = mt_map m"

subsection \<open>Clocks\<close>

record clocks =
  steady_now :: time
  system_now :: time

text \<open>\<open>duration_cast\<close> to seconds truncates towards zero.\<close>

definition to_time_t :: "time \<Rightarrow> int" where
  "to_time_t t = (if 0 \<le> t then t div 1000000000 else - ((- t) div 1000000000))"

definition steady_clock_to_time_t :: "clocks \<Rightarrow> time \<Rightarrow> int" where
  "steady_clock_to_time_t c t = to_time_t (system_now c + (t - steady_now c))"

definition time_t_to_steady_clock :: "clocks \<Rightarrow> int \<Rightarrow> time" where
  "time_t_to_steady_clock c t = steady_now c + (t * 1000000000 - system_now c)"

subsection \<open>Saving and loading\<close>

definition serialize :: "('k \<times> 'v timed_val \<Rightarrow> bytes) \<Rightarrow> ('k, 'v) map_time \<Rightarrow> bytes" where
  "serialize serialize_function m = fold (\<lambda>it ret. ret @ serialize_function it) (mt_map m) []"

text \<open>\<open>unordered_map::insert\<close> keeps the entry that is there.\<close>

definition mt_load :: "'k \<times> 'v timed_val \<Rightarrow> ('k, 'v) map_time \<Rightarrow> ('k, 'v) map_time" where
  "mt_load item m =
     m\<lparr>mt_map := (if map_of (mt_map m) (fst item) = None then mt_map m @ [item] else mt_map m),
       mt_times := times_insert (valid_until (snd item), fst item) (mt_times m)\<rparr>"

text \<open>
  The \<open>while (true)\<close> of \<open>deserialize\<close>; a call that does not return is \<^const>\<open>None\<close>.
\<close>

partial_function (option) deserialize_loop ::
  "(bytes \<Rightarrow> ('k \<times> 'v timed_val) option) \<Rightarrow> bytes \<Rightarrow> nat \<Rightarrow> ('k, 'v) map_time \<Rightarrow> ('k, 'v) map_time option" where
  "deserialize_loop des data start m =
     (if length data \<ge> start + 4 then
        (let block_size = (chars_to_numeric (take 4 (drop start data)) :: int32);
             start = start + 4
         in if length data \<ge> sz_add start (size_of_int32 block_size) then
              deserialize_loop des data (sz_add start (size_of_int32 block_size))
                (case des (take (size_of_int32 block_size) (drop start data)) of
                   None \<Rightarrow> m | Some item \<Rightarrow> mt_load item m)
            else Some m)
      else Some m)"

definition deserialize ::
  "(bytes \<Rightarrow> ('k \<times> 'v timed_val) option) \<Rightarrow> bytes \<Rightarrow> ('k, 'v) map_time \<Rightarrow> ('k, 'v) map_time option" where
  "deserialize des data m = (if length data > 4 then deserialize_loop des data 0 m else Some m)"

section \<open>The time-limited map as an interface\<close>

datatype ('k, 'v, 'l) cmd = Put 'k 'v 'l | Del 'k

text \<open>
  What a client relies on: a value put at time \<open>t\<close> with a lifetime is found until the
  lifetime is over, a deleted key is not found, and other keys are not touched.
\<close>

locale ttl_map =
  fixes look :: "time \<Rightarrow> 'k \<Rightarrow> 's \<Rightarrow> 'v option"
    and put :: "time \<Rightarrow> 'k \<Rightarrow> 'v \<Rightarrow> 'l \<Rightarrow> 's \<Rightarrow> 's"
    and del :: "'k \<Rightarrow> 's \<Rightarrow> 's"
    and lasts :: "'l \<Rightarrow> time"
  assumes look_put: "look now k' (put t k v life s) =
      (if k' = k then (if now \<le> t + lasts life then Some v else None) else look now k' s)"
    and look_del: "look now k' (del k s) = (if k' = k then None else look now k' s)"
begin

definition exec :: "time \<times> ('k, 'v, 'l) cmd \<Rightarrow> 's \<Rightarrow> 's" where
  "exec c s = (case c of (t, Put k v life) \<Rightarrow> put t k v life s | (t, Del k) \<Rightarrow> del k s)"

definition hits :: "'k \<Rightarrow> time \<times> ('k, 'v, 'l) cmd \<Rightarrow> bool" where
  "hits k c \<longleftrightarrow> (case snd c of Put k' v life \<Rightarrow> k' = k | Del k' \<Rightarrow> k' = k)"

definition outcome :: "time \<Rightarrow> time \<times> ('k, 'v, 'l) cmd \<Rightarrow> 'v option" where
  "outcome now c = (case c of
     (t, Put k v life) \<Rightarrow> (if now \<le> t + lasts life then Some v else None) | (t, Del k) \<Rightarrow> None)"

lemma look_exec: "look now k (exec c s) = (if hits k c then outcome now c else look now k s)"
  by (auto simp: exec_def hits_def outcome_def look_put look_del split: prod.splits cmd.splits)

text \<open>The last command on a key decides.\<close>

lemma look_run:
  "look now k (fold exec cs s) =
     (if filter (hits k) cs = [] then look now k s else outcome now (last (filter (hits k) cs)))"
  by (induction cs arbitrary: s) (auto simp: look_exec)

end

lemma mt_get_insert:
  "mt_get now k' (mt_insert t k v ttl m) =
     (if k' = k then (if now \<le> t + seconds ttl then Some v else None) else mt_get now k' m)"
  by (simp add: mt_get_def mt_insert_def update_conv' Let_def)

lemma mt_get_erase: "mt_get now k' (mt_erase k m) = (if k' = k then None else mt_get now k' m)"
  by (simp add: mt_get_def mt_erase_def delete_conv')

interpretation mt: ttl_map mt_get mt_insert mt_erase seconds
  by unfold_locales (simp_all add: mt_get_insert mt_get_erase)

section \<open>Invariant and expiry\<close>

text \<open>
  Keys are distinct, the expiry times are sorted, and every entry of the map has its
  expiry time among them, so that \<open>clear_ttl\<close> reaches it.
\<close>

definition mt_inv :: "('k, 'v) map_time \<Rightarrow> bool" where
  "mt_inv m \<longleftrightarrow> distinct (map fst (mt_map m)) \<and> sorted (map fst (mt_times m))
     \<and> (\<forall>k tv. map_of (mt_map m) k = Some tv \<longrightarrow> (valid_until tv, k) \<in> set (mt_times m))"

lemma set_times_insert [simp]: "set (times_insert x ts) = insert x (set ts)"
  by (induction ts) auto

lemma sorted_times_insert: "sorted (map fst ts) \<Longrightarrow> sorted (map fst (times_insert x ts))"
  by (induction ts) force+

lemma mt_inv_empty: "mt_inv mt_empty"
  by (simp add: mt_inv_def mt_empty_def)

lemma mt_inv_insert: "mt_inv m \<Longrightarrow> mt_inv (mt_insert now k v ttl m)"
  by (auto simp: mt_inv_def mt_insert_def Let_def update_conv' distinct_update sorted_times_insert
      split: if_splits)

lemma mt_inv_erase: "mt_inv m \<Longrightarrow> mt_inv (mt_erase k m)"
  by (auto simp: mt_inv_def mt_erase_def delete_conv' distinct_delete split: if_splits)

lemma mt_inv_remove_if: "mt_inv m \<Longrightarrow> mt_inv (mt_remove_if k pred m)"
  using mt_inv_erase[of m k] by (simp add: mt_remove_if_def mt_erase_def split: option.split)

lemma mt_inv_clear: "mt_inv (mt_clear m)"
  by (simp add: mt_inv_def mt_clear_def)

lemma mt_inv_load: "mt_inv m \<Longrightarrow> mt_inv (mt_load item m)"
  by (cases item)
    (auto simp: mt_inv_def mt_load_def sorted_times_insert map_of_eq_None_iff map_add_def
      split: if_splits option.splits)

lemma clear_ttl_loop_times: "snd (clear_ttl_loop n ts mp) = dropWhile (\<lambda>it. fst it < n) ts"
  by (induction n ts mp rule: clear_ttl_loop.induct) (simp_all split: option.split)

lemma clear_ttl_loop_map:
  "map_of (fst (clear_ttl_loop n ts mp)) k =
     (case map_of mp k of
        None \<Rightarrow> None
      | Some tv \<Rightarrow> if valid_until tv < n \<and> k \<in> snd ` set (takeWhile (\<lambda>it. fst it < n) ts)
                    then None else Some tv)"
proof (induction n ts mp rule: clear_ttl_loop.induct)
  case (2 n it ts mp)
  then show ?case by (auto simp: delete_conv' split: option.splits if_splits)
qed (simp split: option.split)

lemma clear_ttl_loop_distinct:
  "distinct (map fst mp) \<Longrightarrow> distinct (map fst (fst (clear_ttl_loop n ts mp)))"
  by (induction n ts mp rule: clear_ttl_loop.induct) (auto simp: distinct_delete split: option.splits)

lemma sorted_takeWhile_less:
  "sorted (map fst ts) \<Longrightarrow> x \<in> set ts \<Longrightarrow> fst x < (n :: time) \<Longrightarrow> x \<in> set (takeWhile (\<lambda>it. fst it < n) ts)"
  by (induction ts) force+

text \<open>\<open>clear_ttl\<close> removes exactly the entries whose time is over.\<close>

lemma clear_ttl_map:
  assumes "mt_inv m"
  shows "map_of (mt_map (clear_ttl n m)) k =
     (case map_of (mt_map m) k of None \<Rightarrow> None
      | Some tv \<Rightarrow> if valid_until tv < n then None else Some tv)"
proof (cases "map_of (mt_map m) k")
  case None
  then show ?thesis by (simp add: clear_ttl_def case_prod_beta clear_ttl_loop_map)
next
  case (Some tv)
  then have "(valid_until tv, k) \<in> set (mt_times m)" "sorted (map fst (mt_times m))"
    using assms by (simp_all add: mt_inv_def)
  then have "k \<in> snd ` set (takeWhile (\<lambda>it. fst it < n) (mt_times m))" if "valid_until tv < n"
    using sorted_takeWhile_less[of "mt_times m" "(valid_until tv, k)" n] that by force
  then show ?thesis
    using Some \<open>(valid_until tv, k) \<in> set (mt_times m)\<close>
    by (auto simp: clear_ttl_def case_prod_beta clear_ttl_loop_map)
qed

lemma mt_inv_clear_ttl:
  assumes "mt_inv m"
  shows "mt_inv (clear_ttl n m)"
proof -
  have t: "mt_times (clear_ttl n m) = dropWhile (\<lambda>it. fst it < n) (mt_times m)"
    by (simp add: clear_ttl_def case_prod_beta clear_ttl_loop_times)
  have "sorted (map fst (dropWhile (\<lambda>it. fst it < n) (mt_times m)))"
    using assms by (simp add: mt_inv_def dropWhile_eq_drop drop_map[symmetric] sorted_wrt_drop)
  moreover have "distinct (map fst (mt_map (clear_ttl n m)))"
    using assms by (simp add: clear_ttl_def case_prod_beta clear_ttl_loop_distinct mt_inv_def)
  moreover have "(valid_until tv, k) \<in> set (mt_times (clear_ttl n m))"
    if "map_of (mt_map (clear_ttl n m)) k = Some tv" for k tv
  proof -
    have "map_of (mt_map m) k = Some tv" "\<not> valid_until tv < n"
      using that clear_ttl_map[OF assms, of n k] by (auto split: option.splits if_splits)
    then have "(valid_until tv, k) \<in> set (mt_times m)" "\<not> fst (valid_until tv, k) < n"
      using assms by (simp_all add: mt_inv_def)
    then show ?thesis unfolding t
      by (metis (no_types, lifting) Un_iff set_append set_takeWhileD takeWhile_dropWhile_id)
  qed
  ultimately show ?thesis by (simp add: mt_inv_def t)
qed

section \<open>Loading what was saved\<close>

text \<open>A block as it is stored: the size in four bytes, then the content.\<close>

definition block :: "bytes \<Rightarrow> bytes" where
  "block b = numeric_to_chars (of_nat (length b) :: int32) 4 @ b"

lemma length_block [simp]: "length (block b) = 4 + length b"
  by (simp add: block_def)

definition load_all ::
  "(bytes \<Rightarrow> ('k \<times> 'v timed_val) option) \<Rightarrow> bytes list \<Rightarrow> ('k, 'v) map_time \<Rightarrow> ('k, 'v) map_time" where
  "load_all des bs m = fold (\<lambda>b m. case des b of None \<Rightarrow> m | Some item \<Rightarrow> mt_load item m) bs m"

lemma deserialize_loop_blocks:
  assumes "data = pre @ concat (map block bs)" "start = length pre"
    "\<forall>b\<in>set bs. length b < 2 ^ 31" "length data < 2 ^ 63"
  shows "deserialize_loop des data start m = Some (load_all des bs m)"
  using assms
proof (induction bs arbitrary: pre start m)
  case Nil
  then show ?case by (subst deserialize_loop.simps) (simp add: load_all_def)
next
  case (Cons b bs)
  let ?r = "concat (map block bs)"
  have data: "data = pre @ numeric_to_chars (of_nat (length b) :: int32) 4 @ b @ ?r"
    using Cons.prems(1) block_def[of b] by simp
  have f: "take 4 (drop start data) = numeric_to_chars (of_nat (length b) :: int32) 4"
    "drop (start + 4) data = b @ ?r"
    using Cons.prems(2) by (simp_all add: data)
  have sz: "size_of_int32 (of_nat (length b)) = length b"
    using Cons.prems(3) by (intro size_of_int32_nat) simp
  have len: "start + 4 + length b \<le> length data" using Cons.prems(2) by (simp add: data)
  then have add: "sz_add (start + 4) (length b) = start + 4 + length b"
    using Cons.prems(4) by (simp add: sz_add_eq)
  have "deserialize_loop des data start m =
      deserialize_loop des data (start + 4 + length b)
        (case des b of None \<Rightarrow> m | Some item \<Rightarrow> mt_load item m)"
    using len by (subst deserialize_loop.simps) (simp add: f sz add[simplified] Let_def)
  also have "\<dots> = Some (load_all des bs (case des b of None \<Rightarrow> m | Some item \<Rightarrow> mt_load item m))"
    using Cons.prems by (intro Cons.IH[of "pre @ block b"]) simp_all
  finally show ?case by (simp add: load_all_def)
qed

lemma serialize_blocks:
  assumes "\<And>it. it \<in> set (mt_map m) \<Longrightarrow> ser it = block (body it)"
  shows "serialize ser m = concat (map block (map body (mt_map m)))"
proof -
  have "fold (\<lambda>it ret. ret @ ser it) xs r = r @ concat (map ser xs)" for xs r
    by (induction xs arbitrary: r) simp_all
  moreover have "map ser (mt_map m) = map block (map body (mt_map m))" using assms by simp
  ultimately show ?thesis by (simp only: serialize_def append_Nil)
qed

lemma deserialize_serialize:
  assumes "\<And>it. it \<in> set (mt_map m) \<Longrightarrow> ser it = block (body it) \<and> length (body it) < 2 ^ 31"
    and "length (serialize ser m) < 2 ^ 63"
    and "\<And>it. it \<in> set (mt_map m) \<Longrightarrow> body it \<noteq> []"
  shows "deserialize des (serialize ser m) m' = Some (load_all des (map body (mt_map m)) m')"
proof -
  have s: "serialize ser m = concat (map block (map body (mt_map m)))"
    using assms(1) by (intro serialize_blocks) simp
  show ?thesis
  proof (cases "mt_map m")
    case Nil
    then show ?thesis by (simp add: s deserialize_def load_all_def)
  next
    case (Cons it its)
    then have "length (serialize ser m) > 4" using assms(3)[of it] by (simp add: s)
    then show ?thesis
      using assms deserialize_loop_blocks[of "serialize ser m" "[]" "map body (mt_map m)" 0 des m']
      by (simp add: deserialize_def s)
  qed
qed

text \<open>
  A stored block size of \<open>-4\<close> leads the loop back to where it was: \<open>deserialize\<close> does not
  return on such data.
\<close>

lemma deserialize_loop_stuck:
  fixes m :: "('k, 'v) map_time"
  assumes "take 4 data = numeric_to_chars (- 4 :: int32) 4"
  shows "deserialize_loop des data 0 m = None"
proof -
  have len: "4 \<le> length data"
    using arg_cong[OF assms, of length] by simp
  have blk: "(chars_to_numeric (take 4 data) :: int32) = - 4" by (simp add: assms)
  have bk: "sz_add 4 (size_of_int32 (- 4)) = 0"
    by (simp add: sz_add_def size_of_int32_def)
  have ns: "\<not> (start = 0 \<and> d = data)" if "deserialize_loop ds d start m' = Some r"
    for ds d start r and m' :: "('k, 'v) map_time"
  proof (rule deserialize_loop.raw_induct[where P = "\<lambda>ds d start m' r. \<not> (start = 0 \<and> d = data)", OF _ that])
    fix rec ds d start m' r
    assume IH: "\<And>ds d start m' r. rec ds d start m' = Some r \<Longrightarrow> \<not> (start = 0 \<and> d = data)"
      and eq: "(if start + 4 \<le> length d
            then let block_size = chars_to_numeric (take 4 (drop start d)) :: int32; start = start + 4
                 in if sz_add start (size_of_int32 block_size) \<le> length d
                    then rec ds d (sz_add start (size_of_int32 block_size))
                          (case ds (take (size_of_int32 block_size) (drop start d)) of None \<Rightarrow> m'
                           | Some item \<Rightarrow> mt_load item m')
                    else Some m'
            else Some m') = Some r"
    show "\<not> (start = 0 \<and> d = data)" using eq len blk bk by (auto simp: Let_def dest!: IH)
  qed
  show ?thesis using ns[of des data 0 m] by (cases "deserialize_loop des data 0 m") auto
qed

end
