(* ===== verification/C_Manager.thy ===== *)
theory C_Manager
  imports Map_Time
begin

text \<open>
  \<open>extentions/c_manager.cpp\<close>: the key-value cache.  An update is a packet of records, each
  with time stamp, checksum, lifetime, key and content; an empty content deletes the key.
\<close>

section \<open>Definitions\<close>

record item =
  content :: bytes
  checksum :: int64
  timestamp :: int64

type_synonym cstore = "(string, item) map_time"

subsection \<open>Saved form of one entry\<close>

definition item_body :: "clocks \<Rightarrow> string \<times> item timed_val \<Rightarrow> bytes" where
  "item_body c p =
     numeric_to_chars (of_nat (length (fst p)) :: int32) 4 @ fst p
     @ numeric_to_chars (word_of_int (steady_clock_to_time_t c (valid_until (snd p))) :: int64) 8
     @ numeric_to_chars (timestamp (tv_val (snd p))) 8
     @ numeric_to_chars (checksum (tv_val (snd p))) 8
     @ numeric_to_chars (of_nat (length (content (tv_val (snd p)))) :: int32) 4
     @ content (tv_val (snd p))"

definition serialize_function :: "clocks \<Rightarrow> string \<times> item timed_val \<Rightarrow> bytes" where
  "serialize_function c p =
     (let ret = item_body c p in numeric_to_chars (of_nat (length ret) :: int32) 4 @ ret)"

definition deserialize_function :: "clocks \<Rightarrow> bytes \<Rightarrow> (string \<times> item timed_val) option" where
  "deserialize_function c d =
     (if length d > 4 then
        (let start = 4; key_size = size_of_int32 (chars_to_numeric (take 4 d)) in
         if length d \<ge> sz_add start key_size then
           (let k = take key_size (drop 4 d); start = sz_add start key_size in
            if length d > sz_add start 28 then
              (let valid_to = (chars_to_numeric (take 8 (drop start d)) :: int64);
                   ts = chars_to_numeric (take 8 (drop (start + 8) d));
                   cs = chars_to_numeric (take 8 (drop (start + 16) d));
                   data_size = size_of_int32 (chars_to_numeric (take 4 (drop (start + 24) d)));
                   start = start + 28
               in if length d \<ge> sz_add start data_size then
                    (let tv = \<lparr>tv_val = \<lparr>content = take data_size (drop start d), checksum = cs, timestamp = ts\<rparr>,
                               valid_until = time_t_to_steady_clock c (sint valid_to)\<rparr>
                     in if valid_until tv > steady_now c then Some (k, tv) else None)
                  else None)
            else None)
         else None)
      else None)"

subsection \<open>Operations\<close>

text \<open>
  The \<open>while (true)\<close> of \<open>insert\<close>: \<open>pos\<close> and the sizes are 32-bit integers, converted to
  \<open>size_t\<close> when they are compared with the size of the packet.  \<open>now i\<close> is what the clock
  shows in turn \<open>i\<close>.  The guards keep \<open>pos\<close> inside the packet, so that \<open>substr\<close> never throws.
\<close>

partial_function (option) insert_loop ::
  "(nat \<Rightarrow> time) \<Rightarrow> bytes \<Rightarrow> nat \<Rightarrow> int32 \<Rightarrow> bool \<Rightarrow> cstore \<Rightarrow> (bool \<times> cstore) option" where
  "insert_loop now d i pos ok st =
     (if length d > size_of_int32 (pos + 28) then
        (let ts = chars_to_numeric (take 8 (drop (size_of_int32 pos) d));
             cs = chars_to_numeric (take 8 (drop (size_of_int32 (pos + 8)) d));
             ttl = chars_to_numeric (take 4 (drop (size_of_int32 (pos + 16)) d));
             header_bytes = (chars_to_numeric (take 4 (drop (size_of_int32 (pos + 20)) d)) :: int32);
             content_bytes = (chars_to_numeric (take 4 (drop (size_of_int32 (pos + 24)) d)) :: int32);
             pos = pos + 28
         in if length d \<ge> size_of_int32 (pos + header_bytes) then
              (let k = take (size_of_int32 header_bytes) (drop (size_of_int32 pos) d);
                   pos = pos + header_bytes
               in if length d \<ge> size_of_int32 (pos + content_bytes) then
                    (let cont = take (size_of_int32 content_bytes) (drop (size_of_int32 pos) d);
                         pos = pos + content_bytes
                     in if k \<noteq> [] then
                          insert_loop now d (i + 1) pos True
                            (if cont = [] then mt_erase k st
                             else mt_insert (now i) k \<lparr>content = cont, checksum = cs, timestamp = ts\<rparr> ttl st)
                        else insert_loop now d (i + 1) pos ok st)
                  else insert_loop now d (i + 1) pos ok st)
            else insert_loop now d (i + 1) pos ok st)
      else Some (ok, st))"

definition cdb_insert :: "(nat \<Rightarrow> time) \<Rightarrow> bytes \<Rightarrow> cstore \<Rightarrow> (bool \<times> cstore) option" where
  "cdb_insert now d st = insert_loop now d 0 0 False st"

definition cdb_retrieve :: "time \<Rightarrow> string \<Rightarrow> cstore \<Rightarrow> bytes option" where
  "cdb_retrieve now k st =
     (case mt_get now k st of
        None \<Rightarrow> None
      | Some it \<Rightarrow> Some (numeric_to_chars (timestamp it) 8 @ numeric_to_chars (checksum it) 8 @ content it))"

definition clearAll :: "time \<Rightarrow> cstore \<Rightarrow> cstore" where
  "clearAll now st = clear_ttl now st"

definition removeIf :: "string \<Rightarrow> (int64 \<Rightarrow> int64 \<Rightarrow> bool) \<Rightarrow> cstore \<Rightarrow> cstore" where
  "removeIf k pred st = mt_remove_if k (\<lambda>it. pred (timestamp it) (checksum it)) st"

definition generateKey :: "string \<Rightarrow> bytes" where
  "generateKey k = numeric_to_chars (of_nat (length k) :: int32) 4 @ k"

definition serializeData :: "clocks \<Rightarrow> cstore \<Rightarrow> bytes" where
  "serializeData c st = serialize (serialize_function c) st"

definition deserializeData :: "clocks \<Rightarrow> bytes \<Rightarrow> cstore \<Rightarrow> cstore option" where
  "deserializeData c d st = deserialize (deserialize_function c) d st"

section \<open>Packets\<close>

record crec =
  r_tms :: int64
  r_crc :: int64
  r_ttl :: int32
  r_key :: string
  r_content :: bytes

definition enc_rec :: "crec \<Rightarrow> bytes" where
  "enc_rec r = numeric_to_chars (r_tms r) 8 @ numeric_to_chars (r_crc r) 8 @ numeric_to_chars (r_ttl r) 4
     @ numeric_to_chars (of_nat (length (r_key r)) :: int32) 4
     @ numeric_to_chars (of_nat (length (r_content r)) :: int32) 4 @ r_key r @ r_content r"

definition rec_cmd :: "crec \<Rightarrow> (string, item, int32) cmd" where
  "rec_cmd r = (if r_content r = [] then Del (r_key r)
     else Put (r_key r) \<lparr>content = r_content r, checksum = r_crc r, timestamp = r_tms r\<rparr> (r_ttl r))"

definition timed_cmds :: "(nat \<Rightarrow> time) \<Rightarrow> nat \<Rightarrow> crec list \<Rightarrow> (time \<times> (string, item, int32) cmd) list" where
  "timed_cmds now i rs = map (\<lambda>jr. (now (fst jr), rec_cmd (snd jr))) (List.enumerate i rs)"

lemma length_enc_rec [simp]: "length (enc_rec r) = 28 + length (r_key r) + length (r_content r)"
  by (simp add: enc_rec_def)

lemma insert_loop_record:
  assumes d: "d = pre @ enc_rec r @ post" and pos: "pos = of_nat (length pre)"
    and len: "length d < 2 ^ 31" and k: "r_key r \<noteq> []"
  shows "insert_loop now d i pos ok st =
    insert_loop now d (i + 1) (of_nat (length (pre @ enc_rec r))) True (mt.exec (now i, rec_cmd r) st)"
proof -
  let ?n = "length pre" and ?k = "length (r_key r)" and ?c = "length (r_content r)"
  have sz: "size_of_int32 (pos + of_nat m) = ?n + m" if "?n + m < 2 ^ 31" for m
    using size_of_int32_nat[OF that] by (simp add: pos)
  have n: "?n + 28 + ?k + ?c < 2 ^ 31" using len by (simp add: d)
  have s: "size_of_int32 pos = ?n" "size_of_int32 (pos + 8) = ?n + 8" "size_of_int32 (pos + 16) = ?n + 16"
    "size_of_int32 (pos + 20) = ?n + 20" "size_of_int32 (pos + 24) = ?n + 24" "size_of_int32 (pos + 28) = ?n + 28"
    "size_of_int32 (pos + 28 + of_nat ?k) = ?n + 28 + ?k"
    "size_of_int32 (pos + 28 + of_nat ?k + of_nat ?c) = ?n + 28 + ?k + ?c"
    using sz[of 0] sz[of 8] sz[of 16] sz[of 20] sz[of 24] sz[of 28] sz[of "28 + ?k"] sz[of "28 + ?k + ?c"] n
    by (simp_all add: add.assoc)
  have l: "size_of_int32 (of_nat ?k) = ?k" "size_of_int32 (of_nat ?c) = ?c"
    using n by (simp_all add: size_of_int32_nat)
  have f: "take 8 (drop ?n d) = numeric_to_chars (r_tms r) 8"
    "take 8 (drop (?n + 8) d) = numeric_to_chars (r_crc r) 8"
    "take 4 (drop (?n + 16) d) = numeric_to_chars (r_ttl r) 4"
    "take 4 (drop (?n + 20) d) = numeric_to_chars (of_nat ?k :: int32) 4"
    "take 4 (drop (?n + 24) d) = numeric_to_chars (of_nat ?c :: int32) 4"
    "take ?k (drop (?n + 28) d) = r_key r"
    "take ?c (drop (?n + 28 + ?k) d) = r_content r"
    by (simp_all add: d enc_rec_def)
  have g: "length d > ?n + 28" "length d \<ge> ?n + 28 + ?k" "length d \<ge> ?n + 28 + ?k + ?c"
    using k by (simp_all add: d)
  have c: "(chars_to_numeric (numeric_to_chars (of_nat ?k :: int32) 4) :: int32) = of_nat ?k"
    "(chars_to_numeric (numeric_to_chars (of_nat ?c :: int32) 4) :: int32) = of_nat ?c"
    "chars_to_numeric (numeric_to_chars (r_tms r) 8) = r_tms r"
    "chars_to_numeric (numeric_to_chars (r_crc r) 8) = r_crc r"
    "chars_to_numeric (numeric_to_chars (r_ttl r) 4) = r_ttl r"
    by simp_all
  have p: "pos + 28 + of_nat ?k + of_nat ?c = of_nat (length (pre @ enc_rec r))"
    by (simp add: pos)
  have e: "mt.exec (now i, rec_cmd r) st =
      (if r_content r = [] then mt_erase (r_key r) st
       else mt_insert (now i) (r_key r) \<lparr>content = r_content r, checksum = r_crc r, timestamp = r_tms r\<rparr> (r_ttl r) st)"
    by (simp add: mt.exec_def rec_cmd_def)
  show ?thesis
    unfolding e p[symmetric] by (subst insert_loop.simps) (simp only: Let_def s f c l g k if_True simp_thms)
qed

lemma insert_loop_end:
  assumes "length d + 28 < 2 ^ 31"
  shows "insert_loop now d i (of_nat (length d)) ok st = Some (ok, st)"
  using size_of_int32_nat[OF assms] by (subst insert_loop.simps) simp

lemma insert_loop_stream:
  assumes "d = pre @ concat (map enc_rec rs)" "length d + 28 < 2 ^ 31" "\<forall>r\<in>set rs. r_key r \<noteq> []"
  shows "insert_loop now d i (of_nat (length pre)) ok st =
    Some (ok \<or> rs \<noteq> [], fold mt.exec (timed_cmds now i rs) st)"
  using assms
proof (induction rs arbitrary: pre i ok st)
  case Nil
  then show ?case using insert_loop_end[of d] by (simp add: timed_cmds_def)
next
  case (Cons r rs)
  have "insert_loop now d i (of_nat (length pre)) ok st =
      insert_loop now d (i + 1) (of_nat (length (pre @ enc_rec r))) True (mt.exec (now i, rec_cmd r) st)"
    using Cons.prems by (intro insert_loop_record[where post = "concat (map enc_rec rs)"]) simp_all
  also have "\<dots> = Some (True \<or> rs \<noteq> [], fold mt.exec (timed_cmds now (i + 1) rs) (mt.exec (now i, rec_cmd r) st))"
    using Cons.prems by (intro Cons.IH) simp_all
  finally show ?case by (simp add: timed_cmds_def enumerate_Suc_eq)
qed

lemma cdb_insert_stream:
  assumes "length (concat (map enc_rec rs)) + 28 < 2 ^ 31" "\<forall>r\<in>set rs. r_key r \<noteq> []"
  shows "cdb_insert now (concat (map enc_rec rs)) st =
    Some (rs \<noteq> [], fold mt.exec (timed_cmds now 0 rs) st)"
  using insert_loop_stream[of "concat (map enc_rec rs)" "[]" rs now 0 False st] assms
  by (simp add: cdb_insert_def)

text \<open>
  A record with a key size of \<open>-28\<close> and no content leads \<open>pos\<close> back to the start of the packet.
\<close>

lemma insert_loop_stuck:
  assumes len: "28 < length d" "length d < 2 ^ 31"
    and h: "take 4 (drop 20 d) = numeric_to_chars (- 28 :: int32) 4"
    and z: "take 4 (drop 24 d) = numeric_to_chars (0 :: int32) 4"
  shows "insert_loop now d i 0 ok st = None"
proof -
  have s: "size_of_int32 28 = 28" "size_of_int32 20 = 20" "size_of_int32 24 = 24" "size_of_int32 0 = 0"
    using size_of_int32_nat[of 28] size_of_int32_nat[of 20] size_of_int32_nat[of 24] size_of_int32_nat[of 0]
    by simp_all
  have "28 \<le> size_of_int32 (- 28)" by (simp add: size_of_int32_def)
  then have k: "take (size_of_int32 (- 28)) (drop 28 d) \<noteq> []" using len by simp
  have ns: "\<not> (pos = 0 \<and> d' = d)" if "insert_loop now d' i pos ok st = Some r" for now d' i pos ok st r
  proof (rule insert_loop.raw_induct[where P = "\<lambda>now d' i pos ok st r. \<not> (pos = 0 \<and> d' = d)", OF _ that])
    fix rec now d' i pos ok st r
    assume IH: "\<And>now d' i pos ok st r. rec now d' i pos ok st = Some r \<Longrightarrow> \<not> (pos = 0 \<and> d' = d)"
      and eq: "(if length d' > size_of_int32 (pos + 28) then
        (let ts = chars_to_numeric (take 8 (drop (size_of_int32 pos) d'));
             cs = chars_to_numeric (take 8 (drop (size_of_int32 (pos + 8)) d'));
             ttl = chars_to_numeric (take 4 (drop (size_of_int32 (pos + 16)) d'));
             header_bytes = (chars_to_numeric (take 4 (drop (size_of_int32 (pos + 20)) d')) :: int32);
             content_bytes = (chars_to_numeric (take 4 (drop (size_of_int32 (pos + 24)) d')) :: int32);
             pos = pos + 28
         in if length d' \<ge> size_of_int32 (pos + header_bytes) then
              (let k = take (size_of_int32 header_bytes) (drop (size_of_int32 pos) d');
                   pos = pos + header_bytes
               in if length d' \<ge> size_of_int32 (pos + content_bytes) then
                    (let cont = take (size_of_int32 content_bytes) (drop (size_of_int32 pos) d');
                         pos = pos + content_bytes
                     in if k \<noteq> [] then
                          rec now d' (i + 1) pos True
                            (if cont = [] then mt_erase k st
                             else mt_insert (now i) k \<lparr>content = cont, checksum = cs, timestamp = ts\<rparr> ttl st)
                        else rec now d' (i + 1) pos ok st)
                  else rec now d' (i + 1) pos ok st)
            else rec now d' (i + 1) pos ok st)
      else Some (ok, st)) = Some r"
    show "\<not> (pos = 0 \<and> d' = d)"
      using eq len k by (auto simp: Let_def s h z dest!: IH)
  qed
  show ?thesis using ns[of now d i 0 ok st] by (cases "insert_loop now d i 0 ok st") auto
qed

section \<open>Saving and loading the cache\<close>

definition item_ok :: "clocks \<Rightarrow> string \<times> item timed_val \<Rightarrow> bool" where
  "item_ok c p \<longleftrightarrow> content (tv_val (snd p)) \<noteq> [] \<and> length (item_body c p) < 2 ^ 31
     \<and> - (2 ^ 63) \<le> steady_clock_to_time_t c (valid_until (snd p))
     \<and> steady_clock_to_time_t c (valid_until (snd p)) < 2 ^ 63"

text \<open>The expiry of an entry after it went through a file: whole seconds of wall-clock time.\<close>

definition restored :: "clocks \<Rightarrow> clocks \<Rightarrow> item timed_val \<Rightarrow> item timed_val option" where
  "restored c c' tv =
     (let t = steady_clock_to_time_t c (valid_until tv) in
      if system_now c' < t * 1000000000
      then Some (tv\<lparr>valid_until := time_t_to_steady_clock c' t\<rparr>) else None)"

lemma length_item_body:
  "length (item_body c p) = 32 + length (fst p) + length (content (tv_val (snd p)))"
  by (simp add: item_body_def)

lemma deserialize_item_body:
  assumes "item_ok c p"
  shows "deserialize_function c' (item_body c p) = map_option (Pair (fst p)) (restored c c' (snd p))"
proof -
  let ?d = "item_body c p" and ?k = "length (fst p)" and ?v = "tv_val (snd p)"
  let ?t = "steady_clock_to_time_t c (valid_until (snd p))"
  have len: "32 + ?k + length (content ?v) < 2 ^ 31" "content ?v \<noteq> []"
    using assms by (simp_all add: item_ok_def length_item_body)
  have z: "size_of_int32 (of_nat ?k) = ?k" "size_of_int32 (of_nat (length (content ?v))) = length (content ?v)"
    using len by (simp_all add: size_of_int32_nat)
  have a: "sz_add 4 ?k = 4 + ?k" "sz_add (4 + ?k) 28 = 32 + ?k"
    "sz_add (4 + ?k + 28) (length (content ?v)) = 32 + ?k + length (content ?v)"
    using len by (simp_all add: sz_add_def)
  have f: "take 4 ?d = numeric_to_chars (of_nat ?k :: int32) 4" "take ?k (drop 4 ?d) = fst p"
    "take 8 (drop (4 + ?k) ?d) = numeric_to_chars (word_of_int ?t :: int64) 8"
    "take 8 (drop (4 + ?k + 8) ?d) = numeric_to_chars (timestamp ?v) 8"
    "take 8 (drop (4 + ?k + 16) ?d) = numeric_to_chars (checksum ?v) 8"
    "take 4 (drop (4 + ?k + 24) ?d) = numeric_to_chars (of_nat (length (content ?v)) :: int32) 4"
    "take (length (content ?v)) (drop (4 + ?k + 28) ?d) = content ?v"
    by (simp_all add: item_body_def)
  have c: "(chars_to_numeric (numeric_to_chars (of_nat ?k :: int32) 4) :: int32) = of_nat ?k"
    "(chars_to_numeric (numeric_to_chars (of_nat (length (content ?v)) :: int32) 4) :: int32) = of_nat (length (content ?v))"
    "chars_to_numeric (numeric_to_chars (timestamp ?v) 8) = timestamp ?v"
    "chars_to_numeric (numeric_to_chars (checksum ?v) 8) = checksum ?v"
    "(chars_to_numeric (numeric_to_chars (word_of_int ?t :: int64) 8) :: int64) = word_of_int ?t"
    by simp_all
  have t: "sint (word_of_int ?t :: int64) = ?t"
    using assms by (simp add: item_ok_def signed_of_int signed_take_bit_int_eq_self)
  have g: "4 < length ?d" "4 + ?k \<le> length ?d" "32 + ?k < length ?d"
    "32 + ?k + length (content ?v) \<le> length ?d"
    using len(2) by (simp_all add: length_item_body)
  have "\<lparr>content = content ?v, checksum = checksum ?v, timestamp = timestamp ?v\<rparr> = ?v" by simp
  moreover have "\<lparr>tv_val = ?v, valid_until = w\<rparr> = (snd p)\<lparr>valid_until := w\<rparr>" for w
    by (cases "snd p") simp
  ultimately show ?thesis
    unfolding deserialize_function_def
    by (simp only: Let_def f c z a t g if_True timed_val.simps)
      (simp add: restored_def time_t_to_steady_clock_def Let_def)
qed

lemma map_of_load:
  "map_of (mt_map (mt_load (k, tv) m)) k' =
     (case map_of (mt_map m) k' of Some x \<Rightarrow> Some x | None \<Rightarrow> if k' = k then Some tv else None)"
  by (auto simp: mt_load_def map_add_def split: option.split)

lemma map_of_load_all:
  assumes "distinct (map fst its)"
    and "\<And>p. p \<in> set its \<Longrightarrow> des (body p) = map_option (Pair (fst p)) (h (snd p))"
  shows "map_of (mt_map (load_all des (map body its) m)) k =
    (case map_of (mt_map m) k of Some x \<Rightarrow> Some x
     | None \<Rightarrow> (case map_of its k of None \<Rightarrow> None | Some tv \<Rightarrow> h tv))"
  using assms
proof (induction its arbitrary: m)
  case Nil
  then show ?case by (simp add: load_all_def split: option.split)
next
  case (Cons p its)
  obtain k0 tv where p: "p = (k0, tv)" by (cases p)
  have no: "map_of its k0 = None" using Cons.prems(1) by (simp add: p map_of_eq_None_iff)
  have des: "des (body p) = map_option (Pair k0) (h tv)" using Cons.prems(2)[of p] by (simp add: p)
  let ?m = "case des (body p) of None \<Rightarrow> m | Some item \<Rightarrow> mt_load item m"
  have "map_of (mt_map (load_all des (map body (p # its)) m)) k =
      map_of (mt_map (load_all des (map body its) ?m)) k"
    by (simp add: load_all_def)
  also have "\<dots> = (case map_of (mt_map ?m) k of Some x \<Rightarrow> Some x
     | None \<Rightarrow> (case map_of its k of None \<Rightarrow> None | Some tv \<Rightarrow> h tv))"
    using Cons by simp
  also have "\<dots> = (case map_of (mt_map m) k of Some x \<Rightarrow> Some x
     | None \<Rightarrow> (case map_of (p # its) k of None \<Rightarrow> None | Some tv \<Rightarrow> h tv))"
    using no des by (auto simp: p map_of_load split: option.splits)
  finally show ?case .
qed

lemma serialize_function_block: "serialize_function c p = block (item_body c p)"
  by (simp add: serialize_function_def block_def Let_def)

lemma hits_rec_cmd: "mt.hits k (t, rec_cmd r) \<longleftrightarrow> r_key r = k"
  by (simp add: mt.hits_def rec_cmd_def)

section \<open>Properties\<close>

text \<open>C19. A packet of records with non-empty keys is read completely and in order: the call
  returns, says whether there was a record, and afterwards a key yields what the last record
  for it says (nothing for an empty content or after its lifetime) and what it yielded
  before when no record names it.\<close>

theorem cdb_insert_last_record_wins:
  assumes "length (concat (map enc_rec rs)) + 28 < 2 ^ 31" "\<forall>r\<in>set rs. r_key r \<noteq> []"
  shows "\<exists>st'. cdb_insert now (concat (map enc_rec rs)) st = Some (rs \<noteq> [], st')
    \<and> (\<forall>t k. cdb_retrieve t k st' =
         (let ds = filter (\<lambda>jr. r_key (snd jr) = k) (List.enumerate 0 rs); (j, r) = last ds in
          if ds = [] then cdb_retrieve t k st
          else if r_content r \<noteq> [] \<and> t \<le> now j + seconds (r_ttl r)
          then Some (numeric_to_chars (r_tms r) 8 @ numeric_to_chars (r_crc r) 8 @ r_content r)
          else None))"
proof (intro exI conjI allI)
  show "cdb_insert now (concat (map enc_rec rs)) st =
      Some (rs \<noteq> [], fold mt.exec (timed_cmds now 0 rs) st)"
    using assms by (rule cdb_insert_stream)
  fix t k
  let ?f = "\<lambda>jr. (now (fst jr), rec_cmd (snd jr))"
  let ?ds = "filter (\<lambda>jr. r_key (snd jr) = k) (List.enumerate 0 rs)"
  have "filter (mt.hits k) (map ?f es) = map ?f (filter (\<lambda>jr. r_key (snd jr) = k) es)" for es
    by (induction es) (simp_all add: hits_rec_cmd)
  then have "mt_get t k (fold mt.exec (timed_cmds now 0 rs) st) =
      (if ?ds = [] then mt_get t k st else mt.outcome t (?f (last ?ds)))"
    by (simp add: mt.look_run timed_cmds_def last_map)
  then show "cdb_retrieve t k (fold mt.exec (timed_cmds now 0 rs) st) =
         (let ds = ?ds; (j, r) = last ds in
          if ds = [] then cdb_retrieve t k st
          else if r_content r \<noteq> [] \<and> t \<le> now j + seconds (r_ttl r)
          then Some (numeric_to_chars (r_tms r) 8 @ numeric_to_chars (r_crc r) 8 @ r_content r)
          else None)"
    by (simp add: cdb_retrieve_def mt.outcome_def rec_cmd_def case_prod_beta Let_def)
qed

theorem cdb_insert_last_record_wins_witness:
  "\<exists>st'. cdb_insert (\<lambda>_. 0)
      (concat (map enc_rec [\<lparr>r_tms = 1, r_crc = 2, r_ttl = 60, r_key = ''k'', r_content = ''v''\<rparr>])) mt_empty
        = Some (True, st')
    \<and> cdb_retrieve 5 ''k'' st' = Some (numeric_to_chars (1 :: int64) 8 @ numeric_to_chars (2 :: int64) 8 @ ''v'')"
proof -
  let ?r = "\<lparr>r_tms = 1, r_crc = 2, r_ttl = 60, r_key = ''k'', r_content = ''v''\<rparr>"
  have *: "length (concat (map enc_rec [?r])) + 28 < 2 ^ 31" "\<forall>r\<in>set [?r]. r_key r \<noteq> []"
    by simp_all
  then show ?thesis
    using cdb_insert_last_record_wins[OF *, of "\<lambda>_. 0" mt_empty]
    by (auto simp: seconds_def Let_def simp del: numeric_to_chars.simps)
qed

text \<open>C20. What \<open>serializeData\<close> writes, \<open>deserializeData\<close> reads back into an empty cache: the call
  returns, and exactly the entries whose wall-clock expiry lies in the future are there
  again, with their key, content, time stamp and checksum and the same expiry in whole seconds.\<close>

theorem cdb_save_load:
  assumes "mt_inv st" "\<forall>p\<in>set (mt_map st). item_ok c p" "length (serializeData c st) < 2 ^ 63"
  shows "\<exists>st'. deserializeData c' (serializeData c st) mt_empty = Some st'
    \<and> (\<forall>k. map_of (mt_map st') k =
         (case map_of (mt_map st) k of None \<Rightarrow> None | Some tv \<Rightarrow> restored c c' tv))"
proof -
  let ?bs = "map (item_body c) (mt_map st)"
  have "deserializeData c' (serializeData c st) mt_empty = Some (load_all (deserialize_function c') ?bs mt_empty)"
    unfolding deserializeData_def serializeData_def
  proof (rule deserialize_serialize)
    show "length (serialize (serialize_function c) st) < 2 ^ 63" using assms(3) by (simp add: serializeData_def)
    show "serialize_function c it = block (item_body c it) \<and> length (item_body c it) < 2 ^ 31"
      if "it \<in> set (mt_map st)" for it
      using that assms(2) by (simp add: serialize_function_block item_ok_def)
    show "item_body c it \<noteq> []" for it
      using length_item_body[of c it] by auto
  qed
  moreover have "map_of (mt_map (load_all (deserialize_function c') ?bs mt_empty)) k =
      (case map_of (mt_map st) k of None \<Rightarrow> None | Some tv \<Rightarrow> restored c c' tv)" for k
    using assms(1,2) by (subst map_of_load_all[where h = "restored c c'"])
      (simp_all add: mt_inv_def deserialize_item_body mt_empty_def)
  ultimately show ?thesis by blast
qed

theorem cdb_save_load_witness:
  "\<exists>st'. deserializeData \<lparr>steady_now = 7, system_now = 2000000000\<rparr>
      (serializeData \<lparr>steady_now = 5, system_now = 1000000000\<rparr>
        (mt_insert 5 ''k'' \<lparr>content = ''v'', checksum = 2, timestamp = 1\<rparr> 60 mt_empty)) mt_empty = Some st'
    \<and> mt_get 7 ''k'' st' = Some \<lparr>content = ''v'', checksum = 2, timestamp = 1\<rparr>"
proof -
  let ?st = "mt_insert 5 ''k'' \<lparr>content = ''v'', checksum = 2, timestamp = 1\<rparr> 60 mt_empty :: cstore"
  let ?c = "\<lparr>steady_now = 5, system_now = 1000000000\<rparr>" and ?c' = "\<lparr>steady_now = 7, system_now = 2000000000\<rparr>"
  have m: "mt_map ?st = [(''k'', \<lparr>tv_val = \<lparr>content = ''v'', checksum = 2, timestamp = 1\<rparr>, valid_until = 60000000005\<rparr>)]"
    by (simp add: mt_insert_def mt_empty_def seconds_def Let_def)
  have t: "steady_clock_to_time_t ?c 60000000005 = 61"
    by (simp add: steady_clock_to_time_t_def to_time_t_def)
  have ok: "\<forall>p\<in>set (mt_map ?st). item_ok ?c p"
    unfolding m by (simp add: item_ok_def length_item_body t)
  have len: "length (serializeData ?c ?st) < 2 ^ 63"
    unfolding serializeData_def serialize_def m by (simp add: serialize_function_block length_item_body)
  obtain st' where "deserializeData ?c' (serializeData ?c ?st) mt_empty = Some st'"
    "\<forall>k. map_of (mt_map st') k = (case map_of (mt_map ?st) k of None \<Rightarrow> None | Some tv \<Rightarrow> restored ?c ?c' tv)"
    using cdb_save_load[OF mt_inv_insert[OF mt_inv_empty] ok len] by blast
  moreover from this(2) have "mt_get 7 ''k'' st' = Some \<lparr>content = ''v'', checksum = 2, timestamp = 1\<rparr>"
    unfolding m by (simp add: mt_get_def restored_def t Let_def time_t_to_steady_clock_def)
  ultimately show ?thesis by blast
qed

text \<open>C21. \<open>clearAll\<close> at time \<open>n\<close> removes exactly the entries whose time is over, keeps the
  invariant, and no later \<open>retrieve\<close> can tell the difference.\<close>

theorem cdb_clear_exact:
  assumes "mt_inv st"
  shows "mt_inv (clearAll n st)
    \<and> (\<forall>k tv. map_of (mt_map (clearAll n st)) k = Some tv \<longleftrightarrow>
         map_of (mt_map st) k = Some tv \<and> n \<le> valid_until tv)
    \<and> (\<forall>t\<ge>n. \<forall>k. cdb_retrieve t k (clearAll n st) = cdb_retrieve t k st)"
proof -
  have m: "map_of (mt_map (clearAll n st)) k =
     (case map_of (mt_map st) k of None \<Rightarrow> None | Some tv \<Rightarrow> if valid_until tv < n then None else Some tv)" for k
    using clear_ttl_map[OF assms] by (simp add: clearAll_def)
  then have "mt_get t k (clearAll n st) = mt_get t k st" if "n \<le> t" for t k
    using that by (simp add: mt_get_def split: option.split)
  then have r: "\<forall>t\<ge>n. \<forall>k. cdb_retrieve t k (clearAll n st) = cdb_retrieve t k st"
    by (simp add: cdb_retrieve_def)
  have "map_of (mt_map (clearAll n st)) k = Some tv \<longleftrightarrow> map_of (mt_map st) k = Some tv \<and> n \<le> valid_until tv" for k tv
    unfolding m by (cases "map_of (mt_map st) k") auto
  then show ?thesis using mt_inv_clear_ttl[OF assms, of n] r unfolding clearAll_def by blast
qed

theorem cdb_clear_exact_witness:
  "map_of (mt_map (clearAll 9 (mt_insert 5 ''k'' \<lparr>content = ''v'', checksum = 2, timestamp = 1\<rparr> 0 mt_empty))) ''k'' = None"
proof -
  let ?st = "mt_insert 5 ''k'' \<lparr>content = ''v'', checksum = 2, timestamp = 1\<rparr> 0 mt_empty :: cstore"
  have "map_of (mt_map ?st) ''k'' = Some \<lparr>tv_val = \<lparr>content = ''v'', checksum = 2, timestamp = 1\<rparr>, valid_until = 5\<rparr>"
    by (simp add: mt_insert_def mt_empty_def seconds_def Let_def)
  then have "map_of (mt_map (clearAll 9 ?st)) ''k'' \<noteq> Some tv" for tv
    using cdb_clear_exact[OF mt_inv_insert[OF mt_inv_empty], of 9 5 "''k''" "\<lparr>content = ''v'', checksum = 2, timestamp = 1\<rparr>" 0]
    by (auto simp del: split_paired_All)
  then show ?thesis by (simp only: not_Some_eq[symmetric]) blast
qed

text \<open>C22. A packet whose first record has the key size \<open>-28\<close> and no content makes \<open>insert\<close> run for ever.\<close>

theorem cdb_insert_diverges:
  assumes "28 < length d" "length d < 2 ^ 31"
    and "take 4 (drop 20 d) = numeric_to_chars (- 28 :: int32) 4"
    and "take 4 (drop 24 d) = numeric_to_chars (0 :: int32) 4"
  shows "cdb_insert now d st = None"
  unfolding cdb_insert_def using assms by (rule insert_loop_stuck)

theorem cdb_insert_diverges_witness:
  "cdb_insert (\<lambda>_. 0) (replicate 20 CHR 0x00 @ numeric_to_chars (- 28 :: int32) 4
     @ numeric_to_chars (0 :: int32) 4 @ ''x'') mt_empty = None"
  by (rule cdb_insert_diverges) simp_all

end
