(* ===== verification/Date_Time.thy ===== *)
theory Date_Time
  imports Cpp_Std
begin

text \<open>
  \<open>libs/date_time.h\<close>: calendar dates with a time of day.  The fields are \<open>int\<close>; the
  C library conversions (\<open>localtime_r\<close>, \<open>gmtime_r\<close>, \<open>mktime\<close>, \<open>strptime\<close>) are arguments.
\<close>

section \<open>Data\<close>

record date_rec =
  year :: int
  month :: int
  day :: int
  day_of_year :: int
  valid_date :: bool

record time_rec =
  hour :: int
  minute :: int
  second :: int
  thousend_second :: int
  valid_time :: bool

record date_time =
  dt_date :: date_rec
  dt_time :: time_rec

datatype date_time_sel = sel_none | date_only | time_only | date_and_time

definition date_reset :: date_rec where
  "date_reset = \<lparr>year = 0, month = 0, day = 0, day_of_year = 0, valid_date = False\<rparr>"

definition time_reset :: time_rec where
  "time_reset = \<lparr>hour = 0, minute = 0, second = 0, thousend_second = 0, valid_time = False\<rparr>"

definition date_time_init :: date_time where
  "date_time_init = \<lparr>dt_date = date_reset, dt_time = time_reset\<rparr>"

section \<open>Comparison\<close>

definition date_eq :: "date_rec \<Rightarrow> date_rec \<Rightarrow> bool" where
  "date_eq a b \<longleftrightarrow> year a = year b \<and> month a = month b \<and> day a = day b"

definition date_less :: "date_rec \<Rightarrow> date_rec \<Rightarrow> bool" where
  "date_less a b \<longleftrightarrow> year a < year b \<or> year a = year b \<and> month a < month b
     \<or> year a = year b \<and> month a = month b \<and> day a < day b"

text \<open>Equality of times leaves the milliseconds out, the order does not.\<close>

definition time_eq :: "time_rec \<Rightarrow> time_rec \<Rightarrow> bool" where
  "time_eq a b \<longleftrightarrow> hour a = hour b \<and> minute a = minute b \<and> second a = second b"

definition time_less :: "time_rec \<Rightarrow> time_rec \<Rightarrow> bool" where
  "time_less a b \<longleftrightarrow> hour a < hour b \<or> hour a = hour b \<and> minute a < minute b
     \<or> hour a = hour b \<and> minute a = minute b \<and> second a < second b
     \<or> hour a = hour b \<and> minute a = minute b \<and> second a = second b \<and> thousend_second a < thousend_second b"

definition dt_eq :: "date_time \<Rightarrow> date_time \<Rightarrow> bool" where
  "dt_eq a b \<longleftrightarrow> date_eq (dt_date a) (dt_date b) \<and> time_eq (dt_time a) (dt_time b)"

definition dt_less :: "date_time \<Rightarrow> date_time \<Rightarrow> bool" where
  "dt_less a b \<longleftrightarrow> date_less (dt_date a) (dt_date b)
     \<or> date_eq (dt_date a) (dt_date b) \<and> time_less (dt_time a) (dt_time b)"

definition dt_greater :: "date_time \<Rightarrow> date_time \<Rightarrow> bool" where
  "dt_greater a b \<longleftrightarrow> \<not> dt_less a b \<and> \<not> dt_eq a b"

definition dt_le :: "date_time \<Rightarrow> date_time \<Rightarrow> bool" where "dt_le a b \<longleftrightarrow> \<not> dt_greater a b"

definition dt_ge :: "date_time \<Rightarrow> date_time \<Rightarrow> bool" where "dt_ge a b \<longleftrightarrow> \<not> dt_less a b"

section \<open>Carrying over\<close>

definition count_days_in_month :: "int \<Rightarrow> int \<Rightarrow> int" where
  "count_days_in_month mo yr =
     (if mo = 4 \<or> mo = 6 \<or> mo = 9 \<or> mo = 11 then 30
      else if mo = 2 then
        (if cmod yr 4 = 0 \<and> cmod yr 100 \<noteq> 0 \<or> cmod yr 400 = 0 then 29 else 28)
      else 31)"

text \<open>\<open>decr\<close> and \<open>incr\<close>: the new values of \<open>from\<close> and \<open>to\<close>.\<close>

definition decr :: "int \<Rightarrow> int \<Rightarrow> int \<Rightarrow> int \<times> int" where
  "decr from to mx =
     (let new_val = mx + cmod from mx;
          new_val = (if new_val = mx then 0 else new_val);
          add_min = cdiv (from - new_val) mx
      in if add_min \<noteq> 0 then (new_val, to + add_min) else (from, to))"

definition incr :: "int \<Rightarrow> int \<Rightarrow> int \<Rightarrow> int \<times> int" where
  "incr from to mx =
     (let add_min = cdiv (from - cmod from mx) mx
      in if add_min \<noteq> 0 then (cmod from mx, to + add_min) else (from, to))"

definition carry :: "int \<Rightarrow> int \<Rightarrow> int \<Rightarrow> int \<times> int" where
  "carry from to mx = (if from > 0 then incr from to mx else decr from to mx)"

lemma count_days_bounds: "28 \<le> count_days_in_month m y" "count_days_in_month m y \<le> 31"
  by (auto simp: count_days_in_month_def)

text \<open>The recursion of \<open>incr_month\<close> and \<open>decr_month\<close> on year, month and day.\<close>

function incr_month :: "int \<Rightarrow> int \<Rightarrow> int \<Rightarrow> int \<times> int \<times> int" where
  "incr_month y m d =
     (if d > count_days_in_month m y then
        (if m < 12 then incr_month y (m + 1) (d - count_days_in_month m y)
         else incr_month (y + 1) 1 (d - count_days_in_month m y))
      else (y, m, d))"
  by pat_completeness auto
termination
proof (relation "measure (\<lambda>(y, m, d). nat d)")
  fix y m d :: int
  assume "d > count_days_in_month m y"
  then show "((y, m + 1, d - count_days_in_month m y), y, m, d) \<in> measure (\<lambda>(y, m, d). nat d)"
    "((y + 1, 1, d - count_days_in_month m y), y, m, d) \<in> measure (\<lambda>(y, m, d). nat d)"
    using count_days_bounds(1)[of m y] by auto
qed simp

function decr_month :: "int \<Rightarrow> int \<Rightarrow> int \<Rightarrow> int \<times> int \<times> int" where
  "decr_month y m d =
     (if d < 1 then
        (if m > 1 then decr_month y (m - 1) (d + count_days_in_month (m - 1) y)
         else decr_month (y - 1) 12 (d + count_days_in_month 12 (y - 1)))
      else (y, m, d))"
  by pat_completeness auto
termination
proof (relation "measure (\<lambda>(y, m, d). nat (1 - d))")
  fix y m d :: int
  assume "d < 1"
  then show "((y, m - 1, d + count_days_in_month (m - 1) y), y, m, d) \<in> measure (\<lambda>(y, m, d). nat (1 - d))"
    "((y - 1, 12, d + count_days_in_month 12 (y - 1)), y, m, d) \<in> measure (\<lambda>(y, m, d). nat (1 - d))"
    using count_days_bounds(1)[of "m - 1" y] count_days_bounds(1)[of 12 "y - 1"] by auto
qed simp

declare incr_month.simps [simp del] decr_month.simps [simp del]

text \<open>Days of the full months before month \<open>m\<close>.\<close>

function days_before_month :: "int \<Rightarrow> int \<Rightarrow> int \<Rightarrow> int" where
  "days_before_month y m i =
     (if i < m then count_days_in_month i y + days_before_month y m (i + 1) else 0)"
  by pat_completeness auto
termination
  by (relation "measure (\<lambda>(y, m, i). nat (m - i))") auto

declare days_before_month.simps [simp del]

definition incr_all :: "date_time_sel \<Rightarrow> date_time \<Rightarrow> date_time" where
  "incr_all sel dt =
     (let d = dt_date dt; t = dt_time dt;
          (ms, s) = carry (thousend_second t) (second t) 1000;
          (s, mi) = carry s (minute t) 60;
          (mi, h) = carry mi (hour t) 60;
          (h, dy) = carry h (day d) 24;
          (y, mo, dy) = (if dy > 0 then incr_month (year d) (month d) dy else decr_month (year d) (month d) dy);
          vd = (if sel = date_and_time \<or> sel = date_only then True else valid_date d);
          vt = (if sel = date_and_time \<or> sel = time_only then True else valid_time t)
      in \<lparr>dt_date = \<lparr>year = y, month = mo, day = dy, day_of_year = days_before_month y mo 1 + dy,
                   valid_date = vd\<rparr>,
          dt_time = \<lparr>hour = h, minute = mi, second = s, thousend_second = ms, valid_time = vt\<rparr>\<rparr>)"

section \<open>Setting and adding\<close>

definition set_date :: "int \<Rightarrow> int \<Rightarrow> int \<Rightarrow> date_time \<Rightarrow> date_time" where
  "set_date y m d dt = incr_all date_only (dt\<lparr>dt_date := (dt_date dt)\<lparr>year := y, month := m, day := d\<rparr>\<rparr>)"

definition set_time :: "int \<Rightarrow> int \<Rightarrow> int \<Rightarrow> int \<Rightarrow> date_time \<Rightarrow> date_time" where
  "set_time h m s ms dt = incr_all time_only
     (dt\<lparr>dt_time := (dt_time dt)\<lparr>hour := h, minute := m, second := s, thousend_second := ms\<rparr>\<rparr>)"

definition set_date_time :: "int \<Rightarrow> int \<Rightarrow> int \<Rightarrow> int \<Rightarrow> int \<Rightarrow> int \<Rightarrow> int \<Rightarrow> date_time \<Rightarrow> date_time" where
  "set_date_time y mo d h m s ms dt = incr_all date_and_time
     (dt\<lparr>dt_date := (dt_date dt)\<lparr>year := y, month := mo, day := d\<rparr>,
         dt_time := (dt_time dt)\<lparr>hour := h, minute := m, second := s, thousend_second := ms\<rparr>\<rparr>)"

definition set_time_short :: "int \<Rightarrow> date_time \<Rightarrow> bool \<times> date_time" where
  "set_time_short t dt =
     (if t > 2359 \<or> t < 0 then (False, dt)
      else (let new_min = cmod t 100 in
            if new_min > 59 then (False, dt)
            else (True, dt\<lparr>dt_time := \<lparr>hour = cdiv (t - new_min) 100, minute = new_min, second = 0,
                                     thousend_second = 0, valid_time = True\<rparr>\<rparr>)))"

definition get_seconds_of_day :: "date_time \<Rightarrow> int" where
  "get_seconds_of_day dt = hour (dt_time dt) * 3600 + minute (dt_time dt) * 60 + second (dt_time dt)"

definition get_time_short :: "date_time \<Rightarrow> int" where
  "get_time_short dt = hour (dt_time dt) * 100 + minute (dt_time dt)"

definition add_msecs :: "int \<Rightarrow> date_time \<Rightarrow> date_time" where
  "add_msecs n dt = incr_all sel_none (dt\<lparr>dt_time := (dt_time dt)\<lparr>thousend_second := thousend_second (dt_time dt) + n\<rparr>\<rparr>)"

definition add_secs :: "int \<Rightarrow> date_time \<Rightarrow> date_time" where
  "add_secs n dt = incr_all sel_none (dt\<lparr>dt_time := (dt_time dt)\<lparr>second := second (dt_time dt) + n\<rparr>\<rparr>)"

definition add_mins :: "int \<Rightarrow> date_time \<Rightarrow> date_time" where
  "add_mins n dt = incr_all sel_none (dt\<lparr>dt_time := (dt_time dt)\<lparr>minute := minute (dt_time dt) + n\<rparr>\<rparr>)"

definition add_hours :: "int \<Rightarrow> date_time \<Rightarrow> date_time" where
  "add_hours n dt = incr_all sel_none (dt\<lparr>dt_time := (dt_time dt)\<lparr>hour := hour (dt_time dt) + n\<rparr>\<rparr>)"

definition add_days :: "int \<Rightarrow> date_time \<Rightarrow> date_time" where
  "add_days n dt = incr_all sel_none (dt\<lparr>dt_date := (dt_date dt)\<lparr>day := day (dt_date dt) + n\<rparr>\<rparr>)"

definition add_year :: "int \<Rightarrow> date_time \<Rightarrow> date_time" where
  "add_year n dt = incr_all sel_none (dt\<lparr>dt_date := (dt_date dt)\<lparr>year := year (dt_date dt) + n\<rparr>\<rparr>)"

function month_up :: "int \<Rightarrow> int \<Rightarrow> int \<times> int" where
  "month_up y m = (if m > 12 then month_up (y + 1) (m - 12) else (y, m))"
  by pat_completeness auto
termination by (relation "measure (\<lambda>(y, m). nat m)") auto

function month_down :: "int \<Rightarrow> int \<Rightarrow> int \<times> int" where
  "month_down y m = (if m < 1 then month_down (y - 1) (m + 12) else (y, m))"
  by pat_completeness auto
termination by (relation "measure (\<lambda>(y, m). nat (1 - m))") auto

declare month_up.simps [simp del] month_down.simps [simp del]

definition add_month :: "int \<Rightarrow> date_time \<Rightarrow> date_time" where
  "add_month n dt =
     (let d = dt_date dt;
          (y, m) = (if n > 0 then month_up (year d) (month d + n) else month_down (year d) (month d + n))
      in incr_all sel_none (dt\<lparr>dt_date := d\<lparr>year := y, month := m\<rparr>\<rparr>))"

section \<open>Printing\<close>

definition pad2 :: "int \<Rightarrow> string" where
  "pad2 n = (if n < 10 then ''0'' else []) @ to_string n"

definition get_date :: "string \<Rightarrow> date_time \<Rightarrow> string" where
  "get_date delim dt = to_string (year (dt_date dt)) @ delim @ pad2 (month (dt_date dt)) @ delim @ pad2 (day (dt_date dt))"

definition get_date2 :: "string \<Rightarrow> date_time \<Rightarrow> string" where
  "get_date2 delim dt = pad2 (day (dt_date dt)) @ delim @ pad2 (month (dt_date dt)) @ delim @ to_string (year (dt_date dt))"

definition get_time_hh_mm :: "string \<Rightarrow> date_time \<Rightarrow> string" where
  "get_time_hh_mm delim dt = pad2 (hour (dt_time dt)) @ delim @ pad2 (minute (dt_time dt))"

definition get_time :: "string \<Rightarrow> bool \<Rightarrow> date_time \<Rightarrow> string" where
  "get_time delim thousend_sec dt =
     pad2 (hour (dt_time dt)) @ delim @ pad2 (minute (dt_time dt)) @ delim @ pad2 (second (dt_time dt))
     @ (if thousend_sec then
          ''.'' @ (if thousend_second (dt_time dt) < 1000 then ''0'' else [])
          @ (if thousend_second (dt_time dt) < 100 then ''0'' else [])
          @ (if thousend_second (dt_time dt) < 10 then ''0'' else []) @ to_string (thousend_second (dt_time dt))
        else [])"

definition get_date_time :: "date_time \<Rightarrow> string" where
  "get_date_time dt = get_date ''-'' dt @ '' '' @ get_time '':'' False dt"

definition get_date_time_iso_8601 :: "int \<Rightarrow> date_time \<Rightarrow> string" where
  "get_date_time_iso_8601 tm_offset dt =
     (let tm = to_string tm_offset; tm = (if length tm = 1 then ''0'' @ tm else tm)
      in get_date ''-'' dt @ ''T'' @ get_time '':'' False dt @ ''+'' @ tm @ '':00'')"

section \<open>Parsing\<close>

text \<open>
  The fields a format names, and the tokens of the \<open>scanf\<close> format built from it: a
  number for the first occurrence of each field letter, and the separators.
\<close>

datatype dt_field = Fy | FM | Fd | FH | Fm | Fs | Ft

datatype scan_tok = Conv dt_field | Lit char

definition field_of :: "char \<Rightarrow> dt_field option" where
  "field_of c =
     (if c = CHR ''y'' then Some Fy else if c = CHR ''M'' then Some FM else if c = CHR ''d'' then Some Fd
      else if c = CHR ''h'' \<or> c = CHR ''H'' then Some FH else if c = CHR ''m'' then Some Fm
      else if c = CHR ''s'' then Some Fs else if c = CHR ''t'' then Some Ft else None)"

definition is_sep :: "char \<Rightarrow> bool" where
  "is_sep c \<longleftrightarrow> c \<in> set [CHR ''/'', CHR ''-'', CHR 0x5C, CHR '' '', CHR '','', CHR '':'', CHR '';'', CHR ''.'']"

fun scan_format :: "string \<Rightarrow> dt_field list \<Rightarrow> scan_tok list" where
  "scan_format [] parsed = []"
| "scan_format (c # cs) parsed =
     (case field_of c of
        Some f \<Rightarrow> if f \<in> set parsed then scan_format cs parsed else Conv f # scan_format cs (f # parsed)
      | None \<Rightarrow> if is_sep c then Lit c # scan_format cs parsed else scan_format cs parsed)"

text \<open>
  \<open>%d\<close> of \<open>sscanf\<close>: white space is skipped, then a sign and digits; the value and the rest
  of the input, or nothing when there is no digit.
\<close>

definition scan_int :: "string \<Rightarrow> (int \<times> string) option" where
  "scan_int s =
     (let s1 = dropWhile isspace s;
          neg = (s1 \<noteq> [] \<and> hd s1 = CHR ''-'');
          s2 = (if s1 \<noteq> [] \<and> (hd s1 = CHR ''-'' \<or> hd s1 = CHR ''+'') then tl s1 else s1);
          ds = takeWhile isdigit s2
      in if ds = [] then None
         else Some (if neg then - int (digits_val ds) else int (digits_val ds), dropWhile isdigit s2))"

text \<open>The assignments \<open>sscanf\<close> makes, in order, until the input does not match.\<close>

fun sscanf :: "scan_tok list \<Rightarrow> string \<Rightarrow> (dt_field \<times> int) list" where
  "sscanf [] s = []"
| "sscanf (Conv f # ts) s = (case scan_int s of None \<Rightarrow> [] | Some (v, r) \<Rightarrow> (f, v) # sscanf ts r)"
| "sscanf (Lit c # ts) s =
     (if isspace c then sscanf ts (dropWhile isspace s)
      else (case s of [] \<Rightarrow> [] | d # r \<Rightarrow> if d = c then sscanf ts r else []))"

definition set_field :: "dt_field \<times> int \<Rightarrow> date_time \<Rightarrow> date_time" where
  "set_field fv dt = (case fv of (f, v) \<Rightarrow> (case f of
       Fy \<Rightarrow> dt\<lparr>dt_date := (dt_date dt)\<lparr>year := v\<rparr>\<rparr>
     | FM \<Rightarrow> dt\<lparr>dt_date := (dt_date dt)\<lparr>month := v\<rparr>\<rparr>
     | Fd \<Rightarrow> dt\<lparr>dt_date := (dt_date dt)\<lparr>day := v\<rparr>\<rparr>
     | FH \<Rightarrow> dt\<lparr>dt_time := (dt_time dt)\<lparr>hour := v\<rparr>\<rparr>
     | Fm \<Rightarrow> dt\<lparr>dt_time := (dt_time dt)\<lparr>minute := v\<rparr>\<rparr>
     | Fs \<Rightarrow> dt\<lparr>dt_time := (dt_time dt)\<lparr>second := v\<rparr>\<rparr>
     | Ft \<Rightarrow> dt\<lparr>dt_time := (dt_time dt)\<lparr>thousend_second := v\<rparr>\<rparr>))"

definition parse_date_time :: "string \<Rightarrow> string \<Rightarrow> date_time_sel \<Rightarrow> date_time \<Rightarrow> bool \<times> date_time" where
  "parse_date_time inp format sel dt =
     (let (format, sel) =
            (if length inp \<noteq> length format then
               (if length inp = 10 then (''yyyy-MM-dd'', date_only)
                else if length inp = 8 then (''HH:mm:ss'', time_only)
                else (format, sel))
             else (format, sel));
          toks = scan_format format [];
          queue = length (filter (\<lambda>t. case t of Conv f \<Rightarrow> True | Lit c \<Rightarrow> False) toks);
          assigned = sscanf toks inp;
          dt = fold set_field assigned dt
      in if queue > 0 \<and> length assigned = queue then (True, incr_all sel dt) else (False, dt))"

text \<open>The constructor from a string shortens the format to the string.\<close>

definition date_time_of_string :: "string \<Rightarrow> string \<Rightarrow> date_time_sel \<Rightarrow> date_time" where
  "date_time_of_string str format sel =
     snd (parse_date_time str (if length format > length str then take (length str) format else format) sel date_time_init)"

section \<open>Differences and the clock\<close>

record tm =
  tm_year :: int
  tm_mon :: int
  tm_mday :: int
  tm_yday :: int
  tm_hour :: int
  tm_min :: int
  tm_sec :: int

definition to_tm :: "date_time \<Rightarrow> tm" where
  "to_tm dt = \<lparr>tm_year = year (dt_date dt) - 1900, tm_mon = month (dt_date dt) - 1, tm_mday = day (dt_date dt),
     tm_yday = 0, tm_hour = hour (dt_time dt), tm_min = minute (dt_time dt), tm_sec = second (dt_time dt)\<rparr>"

definition dt_minus :: "(tm \<Rightarrow> int) \<Rightarrow> date_time \<Rightarrow> date_time \<Rightarrow> int \<times> int" where
  "dt_minus mktime a b =
     (let total_secs = mktime (to_tm a) - mktime (to_tm b) in (total_secs, cdiv total_secs 86400))"

definition secs_to :: "(tm \<Rightarrow> int) \<Rightarrow> date_time \<Rightarrow> date_time \<Rightarrow> int" where
  "secs_to mktime a b = fst (dt_minus mktime b a)"

definition days_to :: "(tm \<Rightarrow> int) \<Rightarrow> date_time \<Rightarrow> date_time \<Rightarrow> int" where
  "days_to mktime a b = snd (dt_minus mktime b a)"

definition get_time_from_epoch :: "(tm \<Rightarrow> int) \<Rightarrow> date_time \<Rightarrow> int" where
  "get_time_from_epoch mktime dt = (if valid_date (dt_date dt) then mktime (to_tm dt) else 0)"

definition get_miliseconds_from_epoch :: "(tm \<Rightarrow> int) \<Rightarrow> date_time \<Rightarrow> string" where
  "get_miliseconds_from_epoch mktime dt = to_string (get_time_from_epoch mktime dt) @ ''000''"

text \<open>
  The clock: \<open>localtime\<close> (or \<open>gmtime\<close>) of the given time, or of \<open>now\<close>, what \<open>time(0)\<close> returns,
  when the given time is 0.
\<close>

definition current_date_time :: "(int \<Rightarrow> tm) \<Rightarrow> int \<Rightarrow> int \<Rightarrow> date_time" where
  "current_date_time localtime now tt =
     (let n = localtime (if tt = 0 then now else tt) in
      \<lparr>dt_date = \<lparr>year = tm_year n + 1900, month = tm_mon n + 1, day = tm_mday n,
                day_of_year = tm_yday n, valid_date = True\<rparr>,
       dt_time = \<lparr>hour = tm_hour n, minute = tm_min n, second = tm_sec n, thousend_second = 0,
                valid_time = True\<rparr>\<rparr>)"

definition current_utc_date_time :: "(int \<Rightarrow> tm) \<Rightarrow> int \<Rightarrow> int \<Rightarrow> date_time" where
  "current_utc_date_time gmtime now tt = current_date_time gmtime now tt"

text \<open>The copy constructor, which may add days.\<close>

definition date_time_copy :: "date_time \<Rightarrow> int \<Rightarrow> date_time" where
  "date_time_copy dt days_added = (if days_added \<noteq> 0 then add_days days_added dt else dt)"

section \<open>The calendar\<close>

text \<open>Days before year \<open>y\<close> of the proleptic calendar, and the number of a day.\<close>

definition leap :: "int \<Rightarrow> bool" where
  "leap y \<longleftrightarrow> 4 dvd y \<and> \<not> 100 dvd y \<or> 400 dvd y"

definition days_before_year :: "int \<Rightarrow> int" where
  "days_before_year y = 365 * y + (y - 1) div 4 - (y - 1) div 100 + (y - 1) div 400"

definition day_number :: "int \<Rightarrow> int \<Rightarrow> int \<Rightarrow> int" where
  "day_number y m d = days_before_year y + days_before_month y m 1 + d"

lemma cmod_0_iff: "0 < b \<Longrightarrow> cmod a b = 0 \<longleftrightarrow> b dvd a"
proof (cases "0 \<le> a")
  case True
  moreover assume "0 < b"
  ultimately show ?thesis by (simp add: dvd_eq_mod_eq_0)
next
  case False
  moreover assume "0 < b"
  ultimately show ?thesis by (simp add: cmod_nonpos dvd_eq_mod_eq_0[symmetric])
qed

lemma count_days_leap:
  "count_days_in_month m y = (if m = 4 \<or> m = 6 \<or> m = 9 \<or> m = 11 then 30
     else if m = 2 then (if leap y then 29 else 28) else 31)"
  by (simp add: count_days_in_month_def leap_def cmod_0_iff)

lemma div_step:
  assumes "0 < (b :: int)"
  shows "y div b = (y - 1) div b + (if b dvd y then 1 else 0)"
proof (cases "b dvd y")
  case True
  then obtain q where q: "y = b * q" by (elim dvdE)
  have "(y - 1) div b = q - 1"
    using assms by (intro int_div_pos_eq[where r = "b - 1"]) (simp_all add: q right_diff_distrib)
  then show ?thesis using True q assms by simp
next
  case False
  then have "0 < y mod b" using assms by (simp add: dvd_eq_mod_eq_0 order_less_le)
  moreover have "y mod b < b" using assms by simp
  ultimately have "(y - 1) div b = y div b"
    by (intro int_div_pos_eq[where r = "y mod b - 1"]) (simp_all add: algebra_simps)
  then show ?thesis using False by simp
qed

lemma days_before_year_Suc: "days_before_year (y + 1) = days_before_year y + (if leap y then 366 else 365)"
proof -
  have "400 dvd y \<Longrightarrow> 100 dvd y" "100 dvd y \<Longrightarrow> 4 dvd y"
    by presburger+
  then show ?thesis
    using div_step[of 4 y] div_step[of 100 y] div_step[of 400 y] by (simp add: days_before_year_def leap_def)
qed

lemma days_before_month_table:
  "days_before_month y 13 1 = (if leap y then 366 else 365)"
  by (simp add: days_before_month.simps count_days_leap)

lemma days_before_month_Suc:
  "i \<le> m \<Longrightarrow> days_before_month y (m + 1) i = days_before_month y m i + count_days_in_month m y"
proof (induction "nat (m - i)" arbitrary: i)
  case 0
  then have "i = m" by simp
  then show ?case by (simp add: days_before_month.simps)
next
  case (Suc k)
  then have "days_before_month y (m + 1) (i + 1) = days_before_month y m (i + 1) + count_days_in_month m y"
    by (intro Suc.hyps(1)) auto
  moreover have "i < m" using Suc.hyps(2) by simp
  ultimately show ?case by (subst (1 2) days_before_month.simps) simp
qed

lemma day_number_next_month:
  assumes "1 \<le> m" "m \<le> 12"
  shows "m < 12 \<Longrightarrow> day_number y (m + 1) d = day_number y m (d + count_days_in_month m y)"
    and "m = 12 \<Longrightarrow> day_number (y + 1) 1 d = day_number y m (d + count_days_in_month m y)"
  using assms days_before_month_Suc[of 1 m y] days_before_month_table[of y] days_before_year_Suc[of y]
  by (simp_all add: day_number_def days_before_month.simps[of _ 1 1])

definition month_ok :: "int \<times> int \<times> int \<Rightarrow> bool" where
  "month_ok ymd = (case ymd of (y, m, d) \<Rightarrow> 1 \<le> m \<and> m \<le> 12 \<and> 1 \<le> d \<and> d \<le> count_days_in_month m y)"

lemma incr_month_spec:
  assumes "1 \<le> m" "m \<le> 12" "0 < d"
  shows "month_ok (incr_month y m d)
    \<and> (case incr_month y m d of (y', m', d') \<Rightarrow> day_number y' m' d' = day_number y m d)"
  using assms
proof (induction y m d rule: incr_month.induct)
  case (1 y m d)
  show ?case
  proof (cases "d > count_days_in_month m y")
    case big: True
    show ?thesis
    proof (cases "m < 12")
      case True
      then show ?thesis
        using 1 big day_number_next_month(1)[of m y "d - count_days_in_month m y"]
        by (subst (1 2) incr_month.simps) auto
    next
      case False
      then show ?thesis
        using 1 big day_number_next_month(2)[of m y "d - count_days_in_month m y"]
        by (subst (1 2) incr_month.simps) auto
    qed
  next
    case False
    then show ?thesis using 1 by (subst (1 2) incr_month.simps) (simp add: month_ok_def)
  qed
qed

lemma decr_month_spec:
  assumes "1 \<le> m" "m \<le> 12" "d \<le> 0"
  shows "month_ok (decr_month y m d)
    \<and> (case decr_month y m d of (y', m', d') \<Rightarrow> day_number y' m' d' = day_number y m d)"
proof -
  have "1 \<le> m \<Longrightarrow> m \<le> 12 \<Longrightarrow> d \<le> count_days_in_month m y \<Longrightarrow> month_ok (decr_month y m d)
    \<and> (case decr_month y m d of (y', m', d') \<Rightarrow> day_number y' m' d' = day_number y m d)" for y m d
  proof (induction y m d rule: decr_month.induct)
    case (1 y m d)
    show ?case
    proof (cases "d < 1")
      case small: True
      show ?thesis
      proof (cases "m > 1")
        case True
        then show ?thesis
          using 1 small day_number_next_month(1)[of "m - 1" y d]
          by (subst (1 2) decr_month.simps) auto
      next
        case False
        then have "m = 1" using 1 by simp
        then show ?thesis
          using 1 small day_number_next_month(2)[of 12 "y - 1" d]
          by (subst (1 2) decr_month.simps) auto
      qed
    next
      case False
      then show ?thesis using 1 by (subst (1 2) decr_month.simps) (simp add: month_ok_def)
    qed
  qed
  then show ?thesis using assms count_days_bounds(1)[of m y] by simp
qed

lemma carry_spec:
  assumes "0 < mx"
  shows "carry from to mx = (from mod mx, to + from div mx)"
proof (cases "from > 0")
  case True
  have "from - from mod mx = mx * (from div mx)" by (simp add: minus_mod_eq_mult_div)
  then show ?thesis using True assms
    by (auto simp: carry_def incr_def Let_def)
next
  case False
  let ?nv = "mx + cmod from mx"
  have ne: "mx \<noteq> from mod mx" using pos_mod_bound[OF assms, of "from"] by auto
  have nv: "(if ?nv = mx then 0 else ?nv) = from mod mx"
    using False assms ne
    by (auto simp: cmod_nonpos zmod_zminus1_eq_if dvd_eq_mod_eq_0 split: if_splits)
  have q: "from - from mod mx = mx * (from div mx)" by (simp add: minus_mod_eq_mult_div)
  show ?thesis
  proof (cases "from div mx = 0")
    case True
    then have "from = 0" using False assms by (metis div_0 pos_imp_zdiv_neg_iff less_irrefl linorder_neqE_linordered_idom)
    then show ?thesis using assms by (simp add: carry_def decr_def cmod_def Let_def)
  next
    case nz: False
    have "decr from to mx = (if from div mx \<noteq> 0 then (from mod mx, to + from div mx) else (from, to))"
      unfolding decr_def Let_def nv q using assms by simp
    then show ?thesis using False nz by (simp add: carry_def)
  qed
qed

section \<open>Normal form and absolute time\<close>

definition normal :: "date_time \<Rightarrow> bool" where
  "normal dt \<longleftrightarrow> (let d = dt_date dt; t = dt_time dt in
     month_ok (year d, month d, day d) \<and> 0 \<le> hour t \<and> hour t < 24 \<and> 0 \<le> minute t \<and> minute t < 60
     \<and> 0 \<le> second t \<and> second t < 60 \<and> 0 \<le> thousend_second t \<and> thousend_second t < 1000)"

text \<open>Milliseconds since the start of the calendar.\<close>

definition total_ms :: "date_time \<Rightarrow> int" where
  "total_ms dt = (let d = dt_date dt; t = dt_time dt in
     (((day_number (year d) (month d) (day d) * 24 + hour t) * 60 + minute t) * 60 + second t) * 1000
     + thousend_second t)"

lemma day_number_shift: "day_number y m (d + k) = day_number y m d + k"
  by (simp add: day_number_def)

lemma carry_total:
  fixes n :: int
  assumes "ms = 1000 * q0 + r0" "se = s - q0" "s = 60 * q1 + r1" "mn = mi - q1" "mi = 60 * q2 + r2"
    "ho = h - q2" "h = 24 * q3 + r3" "n' = n + q3"
  shows "(((n' * 24 + r3) * 60 + r2) * 60 + r1) * 1000 + r0 = (((n * 24 + ho) * 60 + mn) * 60 + se) * 1000 + ms"
  using assms by (simp add: algebra_simps)

lemma incr_all_spec:
  assumes "1 \<le> month (dt_date dt)" "month (dt_date dt) \<le> 12"
  shows "normal (incr_all sel dt) \<and> total_ms (incr_all sel dt) = total_ms dt"
proof -
  let ?d = "dt_date dt" and ?t = "dt_time dt"
  define s where "s = second ?t + thousend_second ?t div 1000"
  define mi where "mi = minute ?t + s div 60"
  define h where "h = hour ?t + mi div 60"
  define dy where "dy = day ?d + h div 24"
  define ymd where "ymd = (if dy > 0 then incr_month (year ?d) (month ?d) dy else decr_month (year ?d) (month ?d) dy)"
  obtain y mo d where ymd: "ymd = (y, mo, d)" by (cases ymd)
  have ok: "month_ok (y, mo, d)" "day_number y mo d = day_number (year ?d) (month ?d) dy"
    using incr_month_spec[OF assms, of dy "year ?d"] decr_month_spec[OF assms, of dy "year ?d"] ymd
    by (auto simp: ymd_def split: if_splits)
  have r: "incr_all sel dt = \<lparr>dt_date = \<lparr>year = y, month = mo, day = d, day_of_year = days_before_month y mo 1 + d,
        valid_date = (if sel = date_and_time \<or> sel = date_only then True else valid_date ?d)\<rparr>,
      dt_time = \<lparr>hour = h mod 24, minute = mi mod 60, second = s mod 60, thousend_second = thousend_second ?t mod 1000,
        valid_time = (if sel = date_and_time \<or> sel = time_only then True else valid_time ?t)\<rparr>\<rparr>"
    using ymd[unfolded ymd_def] unfolding incr_all_def Let_def
    by (simp add: carry_spec case_prod_beta s_def[symmetric] mi_def[symmetric] h_def[symmetric]
        dy_def[symmetric] split: if_splits)
  have ms: "thousend_second ?t = 1000 * (thousend_second ?t div 1000) + thousend_second ?t mod 1000" by simp
  have sec: "second ?t = s - thousend_second ?t div 1000" "s = 60 * (s div 60) + s mod 60" by (simp_all add: s_def)
  have min: "minute ?t = mi - s div 60" "mi = 60 * (mi div 60) + mi mod 60" by (simp_all add: mi_def)
  have hr: "hour ?t = h - mi div 60" "h = 24 * (h div 24) + h mod 24" by (simp_all add: h_def)
  have dn: "day_number (year ?d) (month ?d) dy = day_number (year ?d) (month ?d) (day ?d) + h div 24"
    by (simp add: dy_def day_number_shift)
  have "total_ms dt = (((day_number (year ?d) (month ?d) (day ?d) * 24 + hour ?t) * 60 + minute ?t) * 60 + second ?t) * 1000
      + thousend_second ?t"
    by (simp add: total_ms_def Let_def)
  moreover have "total_ms (incr_all sel dt) = (((day_number (year ?d) (month ?d) dy * 24 + h mod 24) * 60 + mi mod 60) * 60
      + s mod 60) * 1000 + thousend_second ?t mod 1000"
    by (simp add: total_ms_def Let_def r ok(2))
  ultimately have "total_ms (incr_all sel dt) = total_ms dt"
    using carry_total[OF ms sec min hr dn] by simp
  moreover have "normal (incr_all sel dt)" using ok(1) by (simp add: normal_def r Let_def)
  ultimately show ?thesis by simp
qed

subsection \<open>The absolute time orders the dates\<close>

lemma days_before_month_mono:
  assumes "1 \<le> m" "m < m'"
  shows "days_before_month y m 1 + count_days_in_month m y \<le> days_before_month y m' 1"
proof -
  have "days_before_month y m 1 + count_days_in_month m y \<le> days_before_month y (m + 1 + int k) 1" for k
  proof (induction k)
    case 0
    then show ?case using days_before_month_Suc[of 1 m y] assms by simp
  next
    case (Suc k)
    then show ?case
      using days_before_month_Suc[of 1 "m + 1 + int k" y] assms count_days_bounds(1)[of "m + 1 + int k" y]
      by (simp add: algebra_simps)
  qed
  from this[of "nat (m' - m - 1)"] show ?thesis using assms by simp
qed

lemma days_before_year_mono:
  assumes "y < y'"
  shows "days_before_year y + (if leap y then 366 else 365) \<le> days_before_year y'"
proof -
  have "days_before_year y + (if leap y then 366 else 365) \<le> days_before_year (y + 1 + int k)" for k
  proof (induction k)
    case 0
    then show ?case using days_before_year_Suc[of y] by simp
  next
    case (Suc k)
    then show ?case using days_before_year_Suc[of "y + 1 + int k"] by (auto simp: algebra_simps split: if_splits)
  qed
  from this[of "nat (y' - y - 1)"] show ?thesis using assms by simp
qed

lemma day_in_year:
  assumes "month_ok (y, m, d)"
  shows "0 < days_before_month y m 1 + d" "days_before_month y m 1 + d \<le> (if leap y then 366 else 365)"
proof -
  have m: "1 \<le> m" "m \<le> 12" "1 \<le> d" "d \<le> count_days_in_month m y" using assms by (simp_all add: month_ok_def)
  have "days_before_month y m 1 + count_days_in_month m y \<le> days_before_month y 13 1"
    using m by (intro days_before_month_mono) auto
  then show "days_before_month y m 1 + d \<le> (if leap y then 366 else 365)"
    using m days_before_month_table[of y] by linarith
  show "0 < days_before_month y m 1 + d"
  proof (cases "m = 1")
    case True
    then show ?thesis using m by (simp add: days_before_month.simps)
  next
    case False
    then have "days_before_month y 1 1 + count_days_in_month 1 y \<le> days_before_month y m 1"
      using m by (intro days_before_month_mono) auto
    then show ?thesis using m count_days_bounds(1)[of 1 y] by (simp add: days_before_month.simps[of y 1 1])
  qed
qed

lemma day_number_less:
  assumes "month_ok (y, m, d)" "month_ok (y', m', d')"
    and "y < y' \<or> y = y' \<and> m < m' \<or> y = y' \<and> m = m' \<and> d < d'"
  shows "day_number y m d < day_number y' m' d'"
proof -
  consider "y < y'" | "y = y'" "m < m'" | "y = y'" "m = m'" "d < d'" using assms(3) by blast
  then show ?thesis
  proof cases
    case 1
    then show ?thesis
      using days_before_year_mono[OF 1] day_in_year[OF assms(1)] day_in_year[OF assms(2)] by (simp add: day_number_def)
  next
    case 2
    then show ?thesis
      using assms days_before_month_mono[of m m' y] by (simp add: day_number_def month_ok_def)
  qed (simp add: day_number_def)
qed

lemma mixed_radix_eq:
  fixes K :: int
  assumes "0 \<le> r" "r < K" "0 \<le> s" "s < K"
  shows "x * K + r = y * K + s \<longleftrightarrow> x = y \<and> r = s"
proof
  assume e: "x * K + r = y * K + s"
  have "(x * K + r) div K = x" "(y * K + s) div K = y" using assms by simp_all
  then have "x = y" using e by simp
  then show "x = y \<and> r = s" using e by simp
qed simp

lemma mixed_radix_less:
  fixes K :: int
  assumes "0 \<le> r" "r < K" "0 \<le> s" "s < K"
  shows "x * K + r < y * K + s \<longleftrightarrow> x < y \<or> x = y \<and> r < s"
proof -
  have "x * K + r < y * K + s"
    if "0 \<le> r" "r < K" "0 \<le> s" "s < K" "x < y" for x y r s :: int
  proof -
    have "(x + 1) * K \<le> y * K" using that by (intro mult_right_mono) auto
    then show ?thesis using that by (simp add: distrib_right)
  qed
  from this[of r s x y] this[of s r y x] show ?thesis using assms by force
qed

lemma same_day:
  assumes "month_ok (y, m, d)" "month_ok (y', m', d')" "day_number y m d = day_number y' m' d'"
  shows "y = y' \<and> m = m' \<and> d = d'"
  using day_number_less[OF assms(1,2)] day_number_less[OF assms(2,1)] assms(3) by force

text \<open>A time of day in milliseconds, and how it splits again.\<close>

definition ms_of_day :: "time_rec \<Rightarrow> int" where
  "ms_of_day t = ((hour t * 60 + minute t) * 60 + second t) * 1000 + thousend_second t"

lemma total_ms_split:
  "total_ms dt = day_number (year (dt_date dt)) (month (dt_date dt)) (day (dt_date dt)) * 86400000 + ms_of_day (dt_time dt)"
  by (simp add: total_ms_def ms_of_day_def Let_def)

lemma ms_of_day_bounds: "normal dt \<Longrightarrow> 0 \<le> ms_of_day (dt_time dt) \<and> ms_of_day (dt_time dt) < 86400000"
  by (auto simp: normal_def ms_of_day_def Let_def)

lemma normal_time:
  assumes "normal dt"
  shows "0 \<le> minute (dt_time dt)" "minute (dt_time dt) < 60" "0 \<le> second (dt_time dt)" "second (dt_time dt) < 60"
    "0 \<le> thousend_second (dt_time dt)" "thousend_second (dt_time dt) < 1000"
  using assms by (simp_all add: normal_def Let_def)

lemma dt_less_total:
  assumes "normal a" "normal b"
  shows "dt_less a b \<longleftrightarrow> total_ms a < total_ms b"
proof -
  let ?na = "day_number (year (dt_date a)) (month (dt_date a)) (day (dt_date a))"
  let ?nb = "day_number (year (dt_date b)) (month (dt_date b)) (day (dt_date b))"
  have ok: "month_ok (year (dt_date a), month (dt_date a), day (dt_date a))"
    "month_ok (year (dt_date b), month (dt_date b), day (dt_date b))"
    using assms by (simp_all add: normal_def Let_def)
  have dl: "date_less (dt_date a) (dt_date b) \<longleftrightarrow> ?na < ?nb"
  proof
    assume "date_less (dt_date a) (dt_date b)"
    then show "?na < ?nb" using day_number_less[OF ok] by (simp add: date_less_def)
  next
    assume lt: "?na < ?nb"
    show "date_less (dt_date a) (dt_date b)"
    proof (rule ccontr)
      assume "\<not> date_less (dt_date a) (dt_date b)"
      then have "date_less (dt_date b) (dt_date a) \<or> date_eq (dt_date a) (dt_date b)"
        by (auto simp: date_less_def date_eq_def)
      then show False using lt day_number_less[OF ok(2,1)] by (auto simp: date_less_def date_eq_def)
    qed
  qed
  have de: "date_eq (dt_date a) (dt_date b) \<longleftrightarrow> ?na = ?nb"
    using same_day[OF ok] by (auto simp: date_eq_def)
  have tl: "time_less (dt_time a) (dt_time b) \<longleftrightarrow> ms_of_day (dt_time a) < ms_of_day (dt_time b)"
    unfolding time_less_def ms_of_day_def
    by (simp only: mixed_radix_less mixed_radix_eq normal_time[OF assms(1)] normal_time[OF assms(2)]) blast
  have "?na < ?nb \<or> ?na = ?nb \<and> ms_of_day (dt_time a) < ms_of_day (dt_time b) \<longleftrightarrow> total_ms a < total_ms b"
    using ms_of_day_bounds[OF assms(1)] ms_of_day_bounds[OF assms(2)]
    by (simp add: total_ms_split mixed_radix_less)
  then show ?thesis by (simp add: dt_less_def dl de tl)
qed

text \<open>The fields of a normal date are determined by the absolute time.\<close>

lemma normal_unique:
  assumes "normal a" "normal b" "total_ms a = total_ms b"
  shows "year (dt_date a) = year (dt_date b) \<and> month (dt_date a) = month (dt_date b) \<and> day (dt_date a) = day (dt_date b)
    \<and> hour (dt_time a) = hour (dt_time b) \<and> minute (dt_time a) = minute (dt_time b)
    \<and> second (dt_time a) = second (dt_time b) \<and> thousend_second (dt_time a) = thousend_second (dt_time b)"
proof -
  have ms: "ms_of_day (dt_time a) = ms_of_day (dt_time b)"
    and dn: "day_number (year (dt_date a)) (month (dt_date a)) (day (dt_date a)) =
      day_number (year (dt_date b)) (month (dt_date b)) (day (dt_date b))"
    using assms(3) ms_of_day_bounds[OF assms(1)] ms_of_day_bounds[OF assms(2)]
    by (simp_all add: total_ms_split mixed_radix_eq)
  have "hour (dt_time a) = hour (dt_time b) \<and> minute (dt_time a) = minute (dt_time b)
    \<and> second (dt_time a) = second (dt_time b) \<and> thousend_second (dt_time a) = thousend_second (dt_time b)"
    using ms unfolding ms_of_day_def
    by (simp only: mixed_radix_eq normal_time[OF assms(1)] normal_time[OF assms(2)])
  then show ?thesis
    using same_day[OF _ _ dn] assms(1,2) by (simp add: normal_def Let_def)
qed

section \<open>Normal dates are left alone\<close>

lemma incr_all_normal:
  assumes "normal dt"
  shows "incr_all sel dt =
    \<lparr>dt_date = (dt_date dt)\<lparr>day_of_year := days_before_month (year (dt_date dt)) (month (dt_date dt)) 1 + day (dt_date dt),
       valid_date := (if sel = date_and_time \<or> sel = date_only then True else valid_date (dt_date dt))\<rparr>,
     dt_time = (dt_time dt)\<lparr>valid_time := (if sel = date_and_time \<or> sel = time_only then True else valid_time (dt_time dt))\<rparr>\<rparr>"
proof -
  have c: "carry n m k = (n, m)" if "0 \<le> n" "n < k" for n m k
    using that by (simp add: carry_spec)
  have i: "incr_month y m d = (y, m, d)" if "month_ok (y, m, d)" for y m d
    using that by (subst incr_month.simps) (simp add: month_ok_def)
  show ?thesis
    using assms by (simp add: incr_all_def normal_def Let_def c i month_ok_def)
qed

section \<open>Reading back what was printed\<close>

lemma scan_int_digits:
  assumes "ds \<noteq> []" "\<forall>c \<in> set ds. isdigit c" "r = [] \<or> \<not> isdigit (hd r)"
  shows "scan_int (ds @ r) = Some (int (digits_val ds), r)"
proof -
  have h: "isdigit (hd ds)" "ds = hd ds # tl ds" using assms(1,2) by (cases ds; simp)+
  have sp: "\<not> isspace c" "c \<noteq> CHR ''-''" "c \<noteq> CHR ''+''" if "isdigit c" for c
    using that by (auto simp: isdigit_def isspace_def)
  have "dropWhile isspace (ds @ r) = ds @ r" using h sp(1)[OF h(1)] by (metis append_Cons dropWhile.simps(2))
  moreover have "hd (ds @ r) = hd ds" "ds @ r \<noteq> []" using assms(1) by simp_all
  moreover have "takeWhile isdigit (ds @ r) = ds" "dropWhile isdigit (ds @ r) = r"
    using assms(2,3) by (cases r; simp add: takeWhile_append2 dropWhile_append2)+
  ultimately show ?thesis using assms(1) sp(2,3)[OF h(1)] by (simp add: scan_int_def Let_def)
qed

lemma to_string_digits:
  assumes "0 \<le> n"
  shows "to_string n \<noteq> []" "\<forall>c \<in> set (to_string n). isdigit c" "digits_val (to_string n) = nat n"
  using assms nat_to_string_digits by (auto simp: to_string_def digits_val_nat_to_string)

lemma pad2_digits:
  assumes "0 \<le> n"
  shows "pad2 n \<noteq> []" "\<forall>c \<in> set (pad2 n). isdigit c" "digits_val (pad2 n) = nat n"
  using assms to_string_digits[OF assms]
  by (auto simp: pad2_def isdigit_def digits_val_def digit_val_def)

lemma scan_int_pad2:
  "0 \<le> n \<Longrightarrow> r = [] \<or> \<not> isdigit (hd r) \<Longrightarrow> scan_int (pad2 n @ r) = Some (n, r)"
  using scan_int_digits[of "pad2 n" r] pad2_digits[of n] by simp

lemma scan_int_to_string:
  "0 \<le> n \<Longrightarrow> r = [] \<or> \<not> isdigit (hd r) \<Longrightarrow> scan_int (to_string n @ r) = Some (n, r)"
  using scan_int_digits[of "to_string n" r] to_string_digits[of n] by simp

lemma nat_to_string_length:
  "n < 10 \<Longrightarrow> length (nat_to_string n) = 1" "10 \<le> n \<Longrightarrow> length (nat_to_string n) = Suc (length (nat_to_string (n div 10)))"
  by (subst nat_to_string.simps; simp)+

lemma length_pad2: "0 \<le> n \<Longrightarrow> n < 100 \<Longrightarrow> length (pad2 n) = 2"
  by (cases "n < 10") (simp_all add: pad2_def to_string_def nat_to_string_length nat_less_iff le_nat_iff)

lemma length_year: "1000 \<le> n \<Longrightarrow> n \<le> 9999 \<Longrightarrow> length (to_string n) = 4"
  by (simp add: to_string_def nat_to_string_length nat_less_iff le_nat_iff div_nat_eqI flip: div_mult2_eq)

lemma scan_full_format:
  "scan_format ''yyyy-MM-dd HH:mm:ss'' [] =
     [Conv Fy, Lit CHR ''-'', Conv FM, Lit CHR ''-'', Conv Fd, Lit CHR '' '', Conv FH, Lit CHR '':'', Conv Fm,
      Lit CHR '':'', Conv Fs]"
  by (simp add: field_of_def is_sep_def)

lemma sscanf_date_time:
  assumes "normal dt" "0 \<le> year (dt_date dt)"
  shows "sscanf (scan_format ''yyyy-MM-dd HH:mm:ss'' []) (get_date_time dt) =
    [(Fy, year (dt_date dt)), (FM, month (dt_date dt)), (Fd, day (dt_date dt)),
     (FH, hour (dt_time dt)), (Fm, minute (dt_time dt)), (Fs, second (dt_time dt))]"
proof -
  have nd: "\<not> isdigit CHR ''-''" "\<not> isdigit CHR '' ''" "\<not> isdigit CHR '':''" "isspace CHR '' ''"
    "\<not> isspace CHR ''-''" "\<not> isspace CHR '':''"
    by (simp_all add: isdigit_def isspace_def)
  have h: "dropWhile isspace (pad2 n @ r) = pad2 n @ r" if "0 \<le> n" for n r
  proof -
    have "pad2 n \<noteq> []" "isdigit (hd (pad2 n))" using pad2_digits[OF that] by auto
    then show ?thesis by (cases "pad2 n") (auto simp: isdigit_def isspace_def)
  qed
  have "scan_int (pad2 n) = Some (n, [])" if "0 \<le> n" for n using scan_int_pad2[OF that, of "[]"] by simp
  then show ?thesis
    using assms
    by (simp add: scan_full_format get_date_time_def get_date_def get_time_def scan_int_pad2 scan_int_to_string nd h
        normal_def Let_def month_ok_def del: scan_format.simps)
qed


lemma add_secs_total:
  assumes "1 \<le> month (dt_date dt)" "month (dt_date dt) \<le> 12"
  shows "normal (add_secs n dt)" "total_ms (add_secs n dt) = total_ms dt + 1000 * n"
  using incr_all_spec[of "dt\<lparr>dt_time := (dt_time dt)\<lparr>second := second (dt_time dt) + n\<rparr>\<rparr>" sel_none] assms
  by (simp_all add: add_secs_def total_ms_def Let_def algebra_simps)

lemma normal_month: "normal dt \<Longrightarrow> 1 \<le> month (dt_date dt)" "normal dt \<Longrightarrow> month (dt_date dt) \<le> 12"
  by (simp_all add: normal_def Let_def month_ok_def)

section \<open>Properties\<close>



text \<open>
  On dates in normal form the comparison operators order by absolute time, and two dates
  with the same absolute time agree in every field of the date and of the time.
\<close>

theorem dt_order_is_absolute:
  assumes "normal a" "normal b"
  shows "(dt_less a b \<longleftrightarrow> total_ms a < total_ms b) \<and> (dt_ge a b \<longleftrightarrow> total_ms b \<le> total_ms a)
    \<and> (dt_greater a b \<longrightarrow> total_ms b < total_ms a)
    \<and> (total_ms a = total_ms b \<longrightarrow> dt_eq a b \<and> thousend_second (dt_time a) = thousend_second (dt_time b))"
proof (intro conjI impI)
  show lt: "dt_less a b \<longleftrightarrow> total_ms a < total_ms b" by (rule dt_less_total[OF assms])
  show "dt_ge a b \<longleftrightarrow> total_ms b \<le> total_ms a" by (simp add: dt_ge_def lt not_less)
  show e: "dt_eq a b" "thousend_second (dt_time a) = thousend_second (dt_time b)" if "total_ms a = total_ms b"
    using normal_unique[OF assms that] by (simp_all add: dt_eq_def date_eq_def time_eq_def)
  show "total_ms b < total_ms a" if "dt_greater a b"
    using that e(1) lt by (auto simp: dt_greater_def not_less order_less_le)
qed

theorem dt_order_is_absolute_witness:
  "let a = \<lparr>dt_date = \<lparr>year = 2023, month = 12, day = 31, day_of_year = 365, valid_date = True\<rparr>,
            dt_time = \<lparr>hour = 23, minute = 59, second = 59, thousend_second = 999, valid_time = True\<rparr>\<rparr>;
       b = \<lparr>dt_date = \<lparr>year = 2024, month = 1, day = 1, day_of_year = 1, valid_date = True\<rparr>,
            dt_time = \<lparr>hour = 0, minute = 0, second = 0, thousend_second = 0, valid_time = True\<rparr>\<rparr>
   in dt_less a b \<and> total_ms a < total_ms b"
proof -
  let ?a = "\<lparr>dt_date = \<lparr>year = 2023, month = 12, day = 31, day_of_year = 365, valid_date = True\<rparr>,
            dt_time = \<lparr>hour = 23, minute = 59, second = 59, thousend_second = 999, valid_time = True\<rparr>\<rparr>"
  let ?b = "\<lparr>dt_date = \<lparr>year = 2024, month = 1, day = 1, day_of_year = 1, valid_date = True\<rparr>,
            dt_time = \<lparr>hour = 0, minute = 0, second = 0, thousend_second = 0, valid_time = True\<rparr>\<rparr>"
  have "normal ?a" "normal ?b" by (simp_all add: normal_def Let_def month_ok_def count_days_in_month_def)
  moreover have "dt_less ?a ?b" by (simp add: dt_less_def date_less_def)
  ultimately show ?thesis using dt_order_is_absolute[of ?a ?b] by (simp add: Let_def)
qed

text \<open>What the printed form of a date keeps of it.\<close>

definition printed :: "date_time \<Rightarrow> date_time" where
  "printed dt =
    \<lparr>dt_date = \<lparr>year = year (dt_date dt), month = month (dt_date dt), day = day (dt_date dt),
        day_of_year = days_before_month (year (dt_date dt)) (month (dt_date dt)) 1 + day (dt_date dt), valid_date = True\<rparr>,
     dt_time = \<lparr>hour = hour (dt_time dt), minute = minute (dt_time dt), second = second (dt_time dt),
        thousend_second = 0, valid_time = True\<rparr>\<rparr>"

lemma length_printed:
  assumes "normal dt" "1000 \<le> year (dt_date dt)" "year (dt_date dt) \<le> 9999"
  shows "length (get_date_time dt) = 19"
proof -
  have "month (dt_date dt) < 100" "0 \<le> month (dt_date dt)" "day (dt_date dt) < 100" "0 \<le> day (dt_date dt)"
    using assms(1) count_days_bounds(2)[of "month (dt_date dt)" "year (dt_date dt)"]
    by (auto simp: normal_def Let_def month_ok_def)
  then show ?thesis
    using assms by (simp add: get_date_time_def get_date_def get_time_def length_pad2 length_year normal_def Let_def)
qed

lemma parse_printed:
  assumes "normal dt" "1000 \<le> year (dt_date dt)" "year (dt_date dt) \<le> 9999"
  shows "parse_date_time (get_date_time dt) ''yyyy-MM-dd HH:mm:ss'' date_and_time date_time_init = (True, printed dt)"
proof -
  let ?p = "fold set_field [(Fy, year (dt_date dt)), (FM, month (dt_date dt)), (Fd, day (dt_date dt)),
     (FH, hour (dt_time dt)), (Fm, minute (dt_time dt)), (Fs, second (dt_time dt))] date_time_init"
  have p: "?p = \<lparr>dt_date = \<lparr>year = year (dt_date dt), month = month (dt_date dt), day = day (dt_date dt),
        day_of_year = 0, valid_date = False\<rparr>,
     dt_time = \<lparr>hour = hour (dt_time dt), minute = minute (dt_time dt), second = second (dt_time dt),
        thousend_second = 0, valid_time = False\<rparr>\<rparr>"
    by (simp add: set_field_def date_time_init_def date_reset_def time_reset_def)
  have n: "normal ?p" using assms(1) unfolding p by (simp add: normal_def Let_def)
  note len = length_printed[OF assms]
  have q: "length (filter (case_scan_tok (\<lambda>f. True) (\<lambda>c. False)) (scan_format ''yyyy-MM-dd HH:mm:ss'' [])) = 6"
    "filter (case_scan_tok (\<lambda>f. True) (\<lambda>c. False)) (scan_format ''yyyy-MM-dd HH:mm:ss'' []) \<noteq> []"
    unfolding scan_full_format by simp_all
  have "parse_date_time (get_date_time dt) ''yyyy-MM-dd HH:mm:ss'' date_and_time date_time_init =
      (True, incr_all date_and_time ?p)"
    using assms(1,2) unfolding parse_date_time_def Let_def
    by (simp add: len sscanf_date_time q del: scan_format.simps fold_simps)
  then show ?thesis using incr_all_normal[OF n, of date_and_time] unfolding p printed_def by simp
qed

text \<open>
  C27: a date in normal form with a year of four digits, printed by \<open>get_date_time\<close>, is read back
  by the constructor from a string: every printed field is the same, the milliseconds, which are
  not printed, are zero, and the result is marked valid.
\<close>

theorem date_time_print_parse:
  assumes "normal dt" "1000 \<le> year (dt_date dt)" "year (dt_date dt) \<le> 9999"
  shows "date_time_of_string (get_date_time dt) ''yyyy-MM-dd HH:mm:ss'' date_and_time =
    \<lparr>dt_date = \<lparr>year = year (dt_date dt), month = month (dt_date dt), day = day (dt_date dt),
        day_of_year = days_before_month (year (dt_date dt)) (month (dt_date dt)) 1 + day (dt_date dt), valid_date = True\<rparr>,
     dt_time = \<lparr>hour = hour (dt_time dt), minute = minute (dt_time dt), second = second (dt_time dt),
        thousend_second = 0, valid_time = True\<rparr>\<rparr>"
  using parse_printed[OF assms] length_printed[OF assms] by (simp add: date_time_of_string_def printed_def)

theorem date_time_print_parse_witness:
  "date_time_of_string (get_date_time \<lparr>dt_date = \<lparr>year = 2024, month = 2, day = 29, day_of_year = 0, valid_date = True\<rparr>,
      dt_time = \<lparr>hour = 7, minute = 5, second = 59, thousend_second = 17, valid_time = True\<rparr>\<rparr>)
      ''yyyy-MM-dd HH:mm:ss'' date_and_time =
    \<lparr>dt_date = \<lparr>year = 2024, month = 2, day = 29, day_of_year = 60, valid_date = True\<rparr>,
     dt_time = \<lparr>hour = 7, minute = 5, second = 59, thousend_second = 0, valid_time = True\<rparr>\<rparr>"
  using date_time_print_parse[of "\<lparr>dt_date = \<lparr>year = 2024, month = 2, day = 29, day_of_year = 0, valid_date = True\<rparr>,
      dt_time = \<lparr>hour = 7, minute = 5, second = 59, thousend_second = 17, valid_time = True\<rparr>\<rparr>"]
  by (simp add: normal_def Let_def month_ok_def count_days_in_month_def cmod_def days_before_month.simps)

end
