(* ===== verification/Basefunc.thy ===== *)
theory Basefunc
  imports Cpp_Std
begin

text \<open>
  The string helpers of \<open>libs/basefunc_std\<close>: splitting and joining, replacing, the number
  compression of keys, URL encoding and the conversion from UTF-8 to UTF-16. The loops that search
  from a position go on forever for an empty search string; they are partial functions.
\<close>

section \<open>Splitting and joining\<close>

definition ends_with :: "string \<Rightarrow> string \<Rightarrow> bool" where
  "ends_with str suffix \<longleftrightarrow> length str \<ge> length suffix
     \<and> take (length suffix) (drop (length str - length suffix) str) = suffix"

definition starts_with :: "string \<Rightarrow> string \<Rightarrow> bool" where
  "starts_with str prefix \<longleftrightarrow> length str \<ge> length prefix \<and> take (length prefix) str = prefix"

text \<open>\<open>std::getline\<close> with a delimiter fails only when nothing is left to read.\<close>

function split :: "string \<Rightarrow> char \<Rightarrow> string list" where
  "split s delim =
     (if s = [] then []
      else takeWhile (\<lambda>c. c \<noteq> delim) s # split (tl (dropWhile (\<lambda>c. c \<noteq> delim) s)) delim)"
  by pat_completeness auto
termination
proof (relation "measure (\<lambda>(s, delim). length s)")
  fix s :: string and delim :: char
  assume "s \<noteq> []"
  then have "length (tl (dropWhile (\<lambda>c. c \<noteq> delim) s)) < length s"
    using length_dropWhile_le[of "\<lambda>c. c \<noteq> delim" s] by (cases s) auto
  then show "((tl (dropWhile (\<lambda>c. c \<noteq> delim) s), delim), s, delim) \<in> measure (\<lambda>(s, delim). length s)"
    by simp
qed simp

declare split.simps [simp del]

fun join_loop :: "string \<Rightarrow> bool \<Rightarrow> string list \<Rightarrow> string" where
  "join_loop separator first [] = []"
| "join_loop separator first (x # xs) = (if \<not> first then separator else []) @ x @ join_loop separator False xs"

definition join :: "string list \<Rightarrow> string \<Rightarrow> string" where
  "join xs separator = join_loop separator True xs"

datatype implode_option = include_empty_line | skip_empty_line
datatype split_option = split_include_empty_line | split_cut_empty_line

fun implode_loop :: "string \<Rightarrow> implode_option \<Rightarrow> bool \<Rightarrow> string list \<Rightarrow> string" where
  "implode_loop del opt first [] = []"
| "implode_loop del opt first (x # xs) =
     (if opt = skip_empty_line \<and> x = [] then implode_loop del opt first xs
      else (if \<not> first then del else []) @ x @ implode_loop del opt False xs)"

definition implode :: "string \<Rightarrow> string list \<Rightarrow> implode_option \<Rightarrow> string" where
  "implode del array opt = implode_loop del opt True array"

partial_function (option) split_by_string_loop ::
  "string \<Rightarrow> string \<Rightarrow> split_option \<Rightarrow> nat \<Rightarrow> string list \<Rightarrow> string list option" where
  [code]: "split_by_string_loop str delimiter opt prev strings =
     (case str_find str delimiter prev of
        Some pos \<Rightarrow>
          (let p = take (pos - prev) (drop prev str)
           in split_by_string_loop str delimiter opt (pos + length delimiter)
                (if opt = split_cut_empty_line \<and> p = [] then strings else strings @ [p]))
      | None \<Rightarrow>
          (let p = drop prev str
           in Some (if opt = split_cut_empty_line \<and> p = [] then strings else strings @ [p])))"

definition split_by_string :: "string \<Rightarrow> string \<Rightarrow> split_option \<Rightarrow> string list option" where
  "split_by_string str delimiter opt = split_by_string_loop str delimiter opt 0 []"

definition get_vector_from_string :: "string \<Rightarrow> int32 list" where
  "get_vector_from_string str =
     concat (map (\<lambda>it. case stoi_int it 0 of (ok, t) \<Rightarrow> if ok then [t] else []) (split str CHR '',''))"

definition get_string_from_set :: "string list \<Rightarrow> char \<Rightarrow> string" where
  "get_string_from_set s j = foldl (\<lambda>ret it. (if ret \<noteq> [] then ret @ [j] else ret) @ it) [] s"

text \<open>
  \<open>get_map_from_string_delimeter\<close> for \<open>int\<close> keys and values; \<open>k0\<close> and \<open>v0\<close> are what the
  uninitialised key and value hold. \<open>insert\<close> keeps the first value of a key.
\<close>

definition get_map_from_string_delimeter ::
  "int32 \<Rightarrow> int32 \<Rightarrow> string \<Rightarrow> (int32 \<rightharpoonup> int32) \<Rightarrow> char \<Rightarrow> char \<Rightarrow> bool \<Rightarrow> (int32 \<rightharpoonup> int32)" where
  "get_map_from_string_delimeter k0 v0 str s delimeter delimeter_pair clear =
     foldl (\<lambda>m it. let exp2 = split it delimeter_pair in
              if length exp2 \<ge> 2 then
                (let k = snd (stoi_int (exp2 ! 0) k0); v = snd (stoi_int (exp2 ! 1) v0)
                 in if m k = None then m(k \<mapsto> v) else m)
              else m)
       (if clear then Map.empty else s) (split str delimeter)"

text \<open>\<open>make_time_from_short\<close>: four digits with a colon in the middle.\<close>

function pad4 :: "string \<Rightarrow> string" where
  "pad4 tm = (if length tm < 4 then pad4 (CHR ''0'' # tm) else tm)"
  by pat_completeness auto
termination by (relation "measure (\<lambda>tm. 4 - length tm)") auto

declare pad4.simps [simp del]

definition make_time_from_short :: "int \<Rightarrow> string" where
  "make_time_from_short t = (let tm = pad4 (to_string t) in take 2 tm @ '':'' @ drop 2 tm)"

definition ltrim :: "string \<Rightarrow> string" where "ltrim s = dropWhile isspace s"
definition rtrim :: "string \<Rightarrow> string" where "rtrim s = rev (dropWhile isspace (rev s))"
definition trim :: "string \<Rightarrow> string" where "trim s = ltrim (rtrim s)"

definition remove_all_specific_symbols :: "string \<Rightarrow> string" where
  "remove_all_specific_symbols s = filter (\<lambda>c. c \<noteq> CHR 13) (filter (\<lambda>c. c \<noteq> CHR 10) s)"

section \<open>Replacing\<close>

partial_function (option) replaceAll_loop :: "string \<Rightarrow> string \<Rightarrow> nat \<Rightarrow> string \<Rightarrow> string option" where
  [code]: "replaceAll_loop search replace pos s =
     (case str_find s search pos of
        None \<Rightarrow> Some s
      | Some pos \<Rightarrow> replaceAll_loop search replace (pos + length replace)
                      (take pos s @ replace @ drop (pos + length search) s))"

definition replaceAll :: "string \<Rightarrow> string \<Rightarrow> string \<Rightarrow> string option" where
  "replaceAll s search replace = replaceAll_loop search replace 0 s"

text \<open>\<open>removeAll\<close> goes on one position after the one it erased at.\<close>

function removeAll_loop :: "char \<Rightarrow> nat \<Rightarrow> string \<Rightarrow> string" where
  "removeAll_loop search pos s =
     (case str_find s [search] pos of
        None \<Rightarrow> s
      | Some pos \<Rightarrow> if pos < length s then removeAll_loop search (pos + 1) (take pos s @ drop (pos + 1) s) else s)"
  by pat_completeness auto
termination by (relation "measure (\<lambda>(search, pos, s). length s)") auto

declare removeAll_loop.simps [simp del]

definition removeAll_chars :: "string \<Rightarrow> char \<Rightarrow> string" where
  "removeAll_chars s search = removeAll_loop search 0 s"

definition replaceSlashes :: "string \<Rightarrow> string option" where
  "replaceSlashes str =
     (case replaceAll str [CHR 0x22] [] of None \<Rightarrow> None | Some s \<Rightarrow> replaceAll s [CHR 0x5C] ''/'')"

section \<open>Compressed numbers\<close>

definition uncompress_number :: "string \<Rightarrow> string" where
  "uncompress_number k =
     concat (map (\<lambda>c. let n = (of_char c :: nat) in
                 if 65 \<le> n \<and> n \<le> 90 \<or> 97 \<le> n \<and> n \<le> 99 then to_string (int n) else [c]) k)"

fun compress_number :: "string \<Rightarrow> string" where
  "compress_number (a # b # k) =
     (case stoi_int [a, b] 0 of (ok, c) \<Rightarrow>
        if ok then
          (if 65 \<le> sint c \<and> sint c \<le> 90 \<or> 97 \<le> sint c \<and> sint c \<le> 99
           then [char_of (nat (sint c))] else [a, b])
        else [a, b])
     @ compress_number k"
| "compress_number k = k"

section \<open>URL encoding\<close>

definition isalnum_c :: "char \<Rightarrow> bool" where
  "isalnum_c c \<longleftrightarrow> (let n = (of_char c :: nat) in
     48 \<le> n \<and> n \<le> 57 \<or> 65 \<le> n \<and> n \<le> 90 \<or> 97 \<le> n \<and> n \<le> 122)"

definition hex_digit :: "nat \<Rightarrow> char" where
  "hex_digit n = (if n < 10 then char_of (48 + n) else char_of (55 + n))"

definition url_encode :: "string \<Rightarrow> string" where
  "url_encode value =
     concat (map (\<lambda>c. if isalnum_c c \<or> c = CHR ''-'' \<or> c = CHR ''_'' \<or> c = CHR ''.'' \<or> c = CHR ''~'' then [c]
                      else [CHR ''%'', hex_digit (of_char c div 16), hex_digit (of_char c mod 16)]) value)"

text \<open>\<open>%x\<close> of \<open>sscanf\<close>.\<close>

definition isxdigit :: "char \<Rightarrow> bool" where
  "isxdigit c \<longleftrightarrow> (let n = (of_char c :: nat) in
     48 \<le> n \<and> n \<le> 57 \<or> 65 \<le> n \<and> n \<le> 70 \<or> 97 \<le> n \<and> n \<le> 102)"

definition xdigit_val :: "char \<Rightarrow> nat" where
  "xdigit_val c = (let n = (of_char c :: nat) in
     if n \<le> 57 then n - 48 else if n \<le> 70 then n - 55 else n - 87)"

definition scan_hex :: "string \<Rightarrow> uint32 option" where
  "scan_hex s =
     (let s1 = dropWhile isspace s;
          neg = (s1 \<noteq> [] \<and> hd s1 = CHR ''-'');
          s2 = (if s1 \<noteq> [] \<and> (hd s1 = CHR ''-'' \<or> hd s1 = CHR ''+'') then tl s1 else s1);
          s3 = (if take 2 s2 = ''0x'' \<or> take 2 s2 = ''0X'' then drop 2 s2 else s2);
          ds = takeWhile isxdigit s3;
          v = of_nat (foldl (\<lambda>v c. v * 16 + xdigit_val c) 0 ds)
      in if ds = [] then None else Some (if neg then - v else v))"

text \<open>The variable \<open>ii\<close> keeps its last value when no digit is found; it starts uninitialised.\<close>

function url_decode_loop :: "uint32 \<Rightarrow> string \<Rightarrow> string" where
  "url_decode_loop ii [] = []"
| "url_decode_loop ii (c # cs) =
     (let is_next_space = (cs \<noteq> [] \<and> (hd cs = CHR '' '' \<or> hd cs = CHR ''%''))
      in if c = CHR ''%'' \<and> \<not> is_next_space then
           (let ii = (case scan_hex (take 2 cs) of None \<Rightarrow> ii | Some v \<Rightarrow> v)
            in char_of (unat ii) # url_decode_loop ii (drop 2 cs))
         else c # url_decode_loop ii cs)"
  by pat_completeness auto
termination by (relation "measure (\<lambda>(ii, s). length s)") auto

definition url_decode :: "uint32 \<Rightarrow> string \<Rightarrow> string" where
  "url_decode ii0 src = url_decode_loop ii0 src"

section \<open>UTF-8 to UTF-16\<close>

fun utf8_cont :: "nat \<Rightarrow> nat \<Rightarrow> string \<Rightarrow> (nat \<times> string) res" where
  "utf8_cont 0 uni s = Inr (uni, s)"
| "utf8_cont (Suc todo) uni [] = Inl Logic_error"
| "utf8_cont (Suc todo) uni (c # s) =
     (let ch = of_char c in
      if ch < 0x80 \<or> ch > 0xBF then Inl Logic_error
      else utf8_cont todo (push_bit 6 uni + take_bit 6 ch) s)"

definition utf8_lead :: "nat \<Rightarrow> (nat \<times> nat) res" where
  "utf8_lead ch =
     (if ch \<le> 0x7F then Inr (ch, 0)
      else if ch \<le> 0xBF then Inl Logic_error
      else if ch \<le> 0xDF then Inr (take_bit 5 ch, 1)
      else if ch \<le> 0xEF then Inr (take_bit 4 ch, 2)
      else if ch \<le> 0xF7 then Inr (take_bit 3 ch, 3)
      else Inl Logic_error)"

lemma utf8_cont_length: "utf8_cont todo uni s = Inr (u, r) \<Longrightarrow> length r \<le> length s"
  by (induction todo uni s rule: utf8_cont.induct) (auto simp: Let_def split: if_splits)

function utf8_points :: "string \<Rightarrow> nat list res" where
  "utf8_points [] = Inr []"
| "utf8_points (c # s) =
     (case utf8_lead (of_char c) of
        Inl e \<Rightarrow> Inl e
      | Inr (uni, todo) \<Rightarrow>
          (case utf8_cont todo uni s of
             Inl e \<Rightarrow> Inl e
           | Inr (uni, r) \<Rightarrow>
               if uni \<ge> 0xD800 \<and> uni \<le> 0xDFFF then Inl Logic_error
               else if uni > 0x10FFFF then Inl Logic_error
               else (case utf8_points r of Inl e \<Rightarrow> Inl e | Inr us \<Rightarrow> Inr (uni # us))))"
  by pat_completeness auto
termination
  by (relation "measure length") (auto dest: utf8_cont_length)

definition utf16_units :: "nat \<Rightarrow> nat list" where
  "utf16_units uni =
     (if uni \<le> 0xFFFF then [uni]
      else [drop_bit 10 (uni - 0x10000) + 0xD800, take_bit 10 (uni - 0x10000) + 0xDC00])"

definition utf8_to_utf16 :: "string \<Rightarrow> nat list res" where
  "utf8_to_utf16 utf8 =
     (case utf8_points utf8 of Inl e \<Rightarrow> Inl e | Inr us \<Rightarrow> Inr (concat (map utf16_units us)))"

section \<open>What splitting and replacing compute\<close>

lemma find_at_shift: "find_at pat s (k + n) = map_option (\<lambda>j. j + n) (find_at pat s k)"
proof (induction s arbitrary: k)
  case (Cons c cs)
  show ?case using Cons[of "k + 1"] by (simp add: add.commute add.left_commute)
qed simp

lemma find_at_Some:
  "find_at pat s k = Some j \<Longrightarrow> \<exists>i. j = k + i \<and> i + length pat \<le> length s \<and> take (length pat) (drop i s) = pat
     \<and> find_at pat (take i s) 0 = (if pat = [] then Some 0 else None)"
proof (induction s arbitrary: k)
  case (Cons c cs)
  show ?case
  proof (cases "take (length pat) (c # cs) = pat")
    case True
    then have "length (take (length pat) (c # cs)) = length pat" by simp
    then have "length pat \<le> length (c # cs)" by (simp add: min_def split: if_splits)
    then show ?thesis using True Cons.prems by auto
  next
    case False
    then have "find_at pat cs (k + 1) = Some j" using Cons.prems by simp
    from Cons.IH[OF this] obtain i where i: "j = k + 1 + i" "i + length pat \<le> length cs" "take (length pat) (drop i cs) = pat"
      "find_at pat (take i cs) 0 = (if pat = [] then Some 0 else None)" by blast
    have ne: "pat \<noteq> []" using False by auto
    have "take (length pat) (c # take i cs) \<noteq> pat"
    proof
      assume e: "take (length pat) (c # take i cs) = pat"
      then have "length (take (length pat) (c # take i cs)) = length pat" by simp
      then have "length pat \<le> Suc i" by (simp add: min_def split: if_splits)
      then have "take (length pat) (c # take i cs) = take (length pat) (c # cs)"
        by (cases pat) (simp_all add: min_absorb1)
      then show False using e False by simp
    qed
    moreover have "find_at pat (take i cs) 1 = None"
      using i(4) ne find_at_shift[of pat "take i cs" 0 1] by simp
    ultimately show ?thesis using i by (intro exI[of _ "Suc i"]) (simp add: ne)
  qed
qed (auto split: if_splits)

text \<open>The pieces between the occurrences of a non-empty delimiter, found from left to right.\<close>

function pieces :: "string \<Rightarrow> string \<Rightarrow> string list" where
  "pieces delimiter s =
     (case find_at delimiter s 0 of
        None \<Rightarrow> [s]
      | Some k \<Rightarrow> if delimiter = [] then [s] else take k s # pieces delimiter (drop (k + length delimiter) s))"
  by pat_completeness auto
termination
proof (relation "measure (\<lambda>(d, s). length s)")
  fix delimiter s k
  assume "find_at delimiter s 0 = Some k" "delimiter \<noteq> []"
  then show "((delimiter, drop (k + length delimiter) s), delimiter, s) \<in> measure (\<lambda>(d, s). length s)"
    using find_at_Some[of delimiter s 0 k] by (cases delimiter) auto
qed simp

declare pieces.simps [simp del]

lemma implode_include_simps [simp]:
  "implode_loop del include_empty_line False xs = concat (map (\<lambda>x. del @ x) xs)"
  by (induction xs) simp_all

lemma pieces_not_Nil [simp]: "pieces d s \<noteq> []"
  by (subst pieces.simps) (simp split: option.split)

lemma implode_Cons [simp]:
  "xs \<noteq> [] \<Longrightarrow> implode del (x # xs) include_empty_line = x @ del @ implode del xs include_empty_line"
  by (cases xs) (simp_all add: implode_def)

lemma implode_pieces:
  assumes "d \<noteq> []"
  shows "implode d (pieces d s) include_empty_line = s"
proof (induction s rule: measure_induct_rule[of length])
  case (less s)
  show ?case
  proof (cases "find_at d s 0")
    case None
    then show ?thesis by (subst pieces.simps) (simp add: implode_def)
  next
    case (Some k)
    then have k: "k + length d \<le> length s" "take (length d) (drop k s) = d" using find_at_Some by fastforce+
    have "length d > 0" using assms by simp
    then have "length (drop (k + length d) s) < length s" using k(1) unfolding length_drop by linarith
    from less.IH[OF this] Some assms
    have "implode d (pieces d s) include_empty_line = take k s @ d @ drop (k + length d) s"
      by (subst pieces.simps) simp
    also have "\<dots> = s" by (metis k(2) append_take_drop_id drop_drop add.commute)
    finally show ?thesis .
  qed
qed

lemma pieces_free:
  assumes "d \<noteq> []" "p \<in> set (pieces d s)"
  shows "find_at d p 0 = None"
  using assms(2)
proof (induction s rule: measure_induct_rule[of length])
  case (less s)
  show ?case
  proof (cases "find_at d s 0")
    case None
    then show ?thesis using less.prems by (subst (asm) pieces.simps) simp
  next
    case (Some k)
    then have k: "k + length d \<le> length s" "find_at d (take k s) 0 = None"
      using find_at_Some[OF Some] assms(1) by auto
    have "length d > 0" using assms by simp
    then have l: "length (drop (k + length d) s) < length s" using k(1) unfolding length_drop by linarith
    have "p = take k s \<or> p \<in> set (pieces d (drop (k + length d) s))"
      using less.prems Some assms(1) by (subst (asm) pieces.simps) auto
    then show ?thesis using k(2) less.IH[OF l] by auto
  qed
qed

lemma str_find_suffix:
  "prev \<le> length s \<Longrightarrow> str_find s pat prev = map_option (\<lambda>j. j + prev) (find_at pat (drop prev s) 0)"
  using find_at_shift[of pat "drop prev s" 0 prev] by (simp add: str_find_def)

lemma split_by_string_loop_pieces:
  assumes "d \<noteq> []" "prev \<le> length s"
  shows "split_by_string_loop s d opt prev strings =
    Some (strings @ filter (\<lambda>p. \<not> (opt = split_cut_empty_line \<and> p = [])) (pieces d (drop prev s)))"
  using assms(2)
proof (induction "length s - prev" arbitrary: prev strings rule: less_induct)
  case less
  show ?case
  proof (cases "find_at d (drop prev s) 0")
    case None
    then show ?thesis using less.prems
      by (subst split_by_string_loop.simps) (simp add: str_find_suffix pieces.simps[of d "drop prev s"] Let_def)
  next
    case (Some k)
    then have k: "k + length d \<le> length s - prev" using find_at_Some[OF Some] by auto
    have d0: "length d > 0" using assms by simp
    have IH: "split_by_string_loop s d opt (k + prev + length d) str' =
        Some (str' @ filter (\<lambda>p. \<not> (opt = split_cut_empty_line \<and> p = [])) (pieces d (drop (k + prev + length d) s)))" for str'
      using k d0 less.prems by (intro less.hyps) linarith+
    have e: "drop (k + length d) (drop prev s) = drop (k + prev + length d) s" by (simp add: add.commute add.left_commute)
    show ?thesis using less.prems Some assms(1)
      by (subst split_by_string_loop.simps)
        (simp add: str_find_suffix pieces.simps[of d "drop prev s"] Let_def IH e del: drop_drop)
  qed
qed

lemma split_by_string_pieces:
  "d \<noteq> [] \<Longrightarrow> split_by_string s d split_include_empty_line = Some (pieces d s)"
  by (simp add: split_by_string_def split_by_string_loop_pieces)

lemma replaceAll_loop_pieces:
  assumes "search \<noteq> []"
  shows "replaceAll_loop search rep (length dn) (dn @ rest) =
    Some (dn @ implode rep (pieces search rest) include_empty_line)"
proof (induction rest arbitrary: dn rule: measure_induct_rule[of length])
  case (less rest)
  show ?case
  proof (cases "find_at search rest 0")
    case None
    then show ?thesis
      by (subst replaceAll_loop.simps) (simp add: str_find_suffix pieces.simps[of search rest] implode_def)
  next
    case (Some k)
    then have k: "k + length search \<le> length rest" using find_at_Some[OF Some] by auto
    have "length search > 0" using assms by simp
    then have l: "length (drop (k + length search) rest) < length rest" using k unfolding length_drop by linarith
    have "replaceAll_loop search rep (length dn) (dn @ rest) =
        replaceAll_loop search rep (length (dn @ take k rest @ rep)) ((dn @ take k rest @ rep) @ drop (k + length search) rest)"
      using Some k by (subst replaceAll_loop.simps) (simp add: str_find_suffix min_absorb2 ac_simps)
    also have "\<dots> = Some ((dn @ take k rest @ rep) @ implode rep (pieces search (drop (k + length search) rest)) include_empty_line)"
      by (rule less.IH[OF l])
    finally show ?thesis using Some assms by (simp add: pieces.simps[of search rest])
  qed
qed


section \<open>Properties\<close>

text \<open>
  Splitting by a non-empty delimiter and keeping the empty lines ends, loses nothing - joining
  the parts with the delimiter gives the string back - and no part contains the delimiter.
\<close>

theorem split_by_string_implode:
  assumes "delimiter \<noteq> []"
  shows "\<exists>ps. split_by_string s delimiter split_include_empty_line = Some ps
    \<and> implode delimiter ps include_empty_line = s \<and> (\<forall>p \<in> set ps. str_find p delimiter 0 = None)"
  using split_by_string_pieces[OF assms, of s] implode_pieces[OF assms, of s] pieces_free[OF assms, of _ s]
  by (simp add: str_find_def)

theorem split_by_string_implode_witness:
  "\<exists>ps. split_by_string ''a::b'' '':'' split_include_empty_line = Some ps
    \<and> implode '':'' ps include_empty_line = ''a::b'' \<and> (\<forall>p \<in> set ps. str_find p '':'' 0 = None)"
  by (rule split_by_string_implode) simp

text \<open>
  C28: replacing every occurrence of a non-empty string ends, whatever the replacement contains,
  and is the same as splitting at the string and joining the parts with the replacement: the
  occurrences are those found from left to right in the original, never in a replacement.
\<close>

theorem replaceAll_is_split_implode:
  assumes "search \<noteq> []"
  shows "\<exists>ps. split_by_string s search split_include_empty_line = Some ps
    \<and> replaceAll s search replace = Some (implode replace ps include_empty_line)"
  using split_by_string_pieces[OF assms, of s] replaceAll_loop_pieces[OF assms, of replace "[]" s]
  by (simp add: replaceAll_def)

theorem replaceAll_is_split_implode_witness:
  "\<exists>ps. split_by_string ''xaax'' ''a'' split_include_empty_line = Some ps
    \<and> replaceAll ''xaax'' ''a'' ''aa'' = Some (implode ''aa'' ps include_empty_line)"
  by (rule replaceAll_is_split_implode) simp

section \<open>Round trips of the encodings\<close>

lemma hex_digit_val:
  assumes "n < 16"
  shows "isxdigit (hex_digit n)" "xdigit_val (hex_digit n) = n"
proof -
  have "(of_char (hex_digit n) :: nat) = (if n < 10 then 48 + n else 55 + n)"
    using assms by (simp add: hex_digit_def)
  then show "isxdigit (hex_digit n)" "xdigit_val (hex_digit n) = n"
    using assms by (auto simp: isxdigit_def xdigit_val_def Let_def)
qed

lemma hex_digit_plain:
  assumes "n < 16"
  shows "\<not> isspace (hex_digit n)" "hex_digit n \<noteq> CHR ''-''" "hex_digit n \<noteq> CHR ''+''" "hex_digit n \<noteq> CHR '' ''"
    "hex_digit n \<noteq> CHR ''%''" "hex_digit n \<noteq> CHR ''x''" "hex_digit n \<noteq> CHR ''X''"
proof -
  have o: "(of_char (hex_digit n) :: nat) = (if n < 10 then 48 + n else 55 + n)"
    using assms by (simp add: hex_digit_def)
  show "\<not> isspace (hex_digit n)" using o assms by (auto simp: isspace_def)
  have ne: "hex_digit n \<noteq> c" if "(of_char c :: nat) < 48 \<or> 71 \<le> (of_char c :: nat)" for c
    using o assms that by (auto split: if_splits)
  show "hex_digit n \<noteq> CHR ''-''" "hex_digit n \<noteq> CHR ''+''" "hex_digit n \<noteq> CHR '' ''"
    "hex_digit n \<noteq> CHR ''%''" "hex_digit n \<noteq> CHR ''x''" "hex_digit n \<noteq> CHR ''X''"
    by (rule ne; simp)+
qed

lemma scan_hex_pair:
  assumes "a < 16" "b < 16"
  shows "scan_hex [hex_digit a, hex_digit b] = Some (of_nat (a * 16 + b))"
  using hex_digit_plain[OF assms(1)] hex_digit_plain[OF assms(2)] hex_digit_val[OF assms(1)] hex_digit_val[OF assms(2)]
  by (simp add: scan_hex_def Let_def)

lemma char_of_parts: "char_of (unat (of_nat (of_char c div 16 * 16 + of_char c mod 16) :: uint32)) = c"
proof -
  have "(of_char c :: nat) < 2 ^ 32" by (rule less_trans[OF of_char_less_256]) simp
  then have "unat (of_nat (of_char c) :: uint32) = of_char c" by (simp add: unsigned_of_nat take_bit_nat_eq_self)
  then show ?thesis by simp
qed

lemma url_decode_loop_encode: "url_decode_loop ii (url_encode s) = s"
proof (induction s arbitrary: ii)
  case Nil
  then show ?case by (simp add: url_encode_def)
next
  case (Cons c s)
  have h: "(of_char c :: nat) div 16 < 16" "(of_char c :: nat) mod 16 < 16"
    using of_char_less_256[of c] by (simp_all add: div_less_iff_less_mult del: of_char_less_256)
  have e: "url_encode (c # s) = (if isalnum_c c \<or> c = CHR ''-'' \<or> c = CHR ''_'' \<or> c = CHR ''.'' \<or> c = CHR ''~'' then [c]
      else [CHR ''%'', hex_digit (of_char c div 16), hex_digit (of_char c mod 16)]) @ url_encode s"
    by (simp add: url_encode_def)
  show ?case
  proof (cases "isalnum_c c \<or> c = CHR ''-'' \<or> c = CHR ''_'' \<or> c = CHR ''.'' \<or> c = CHR ''~''")
    case True
    then have "c \<noteq> CHR ''%''" by (auto simp: isalnum_c_def Let_def)
    then show ?thesis using True Cons.IH unfolding e by (simp add: Let_def)
  next
    case False
    then show ?thesis
      using Cons.IH hex_digit_plain(4,5)[OF h(1)] char_of_parts[of c] unfolding e
      by (simp add: Let_def scan_hex_pair[OF h] del: of_nat_add of_nat_mult)
  qed
qed

text \<open>C29: decoding a URL-encoded string gives the string back, for strings of any bytes.\<close>

theorem url_decode_encode: "url_decode ii0 (url_encode s) = s"
  by (simp add: url_decode_def url_decode_loop_encode)


subsection \<open>Compressed numbers\<close>

lemma digit_val_le: "isdigit c \<Longrightarrow> digit_val c \<le> 9"
  unfolding isdigit_def digit_val_def by linarith

lemma strtol_pair:
  assumes "strtol [a, b] = Some v" "10 \<le> v"
  shows "isdigit a \<and> isdigit b \<and> v = int (digit_val a * 10 + digit_val b)"
proof -
  have "v \<le> 9" if "\<not> (isdigit a \<and> isdigit b)"
    using assms that digit_val_le[of a] digit_val_le[of b]
    by (cases "isdigit a"; cases "isdigit b"; cases "isspace a"; cases "isspace b")
      (auto simp: strtol_def Let_def digits_val_def split: if_splits)
  then have d: "isdigit a" "isdigit b" using assms(2) by auto
  then show ?thesis
    using assms strtol_digits(1)[of "[a, b]" "[]"] by (simp add: digits_val_def)
qed

lemma digit_char_val: "isdigit c \<Longrightarrow> digit_char (digit_val c) = c"
proof -
  assume "isdigit c"
  then have "48 + digit_val c = of_char c" by (simp add: isdigit_def digit_val_def)
  then show ?thesis by (simp add: digit_char_def)
qed

lemma to_string_pair:
  assumes "isdigit a" "isdigit b" "10 \<le> digit_val a * 10 + digit_val b"
  shows "to_string (int (digit_val a * 10 + digit_val b)) = [a, b]"
proof -
  have lt: "digit_val b < 10" "digit_val a < 10" using digit_val_le[of a] digit_val_le[of b] assms by simp_all
  then have "(digit_val a * 10 + digit_val b) div 10 = digit_val a" "(digit_val a * 10 + digit_val b) mod 10 = digit_val b"
    by simp_all
  then have "nat_to_string (digit_val a * 10 + digit_val b) = [digit_char (digit_val a), digit_char (digit_val b)]"
    using assms(3) lt by (subst nat_to_string.simps) (simp add: nat_to_string.simps[of "digit_val a"])
  then show ?thesis using assms by (simp add: to_string_def digit_char_val nat_mult_distrib nat_add_distrib)
qed

abbreviation letter_code :: "char \<Rightarrow> bool" where
  "letter_code c \<equiv> 65 \<le> (of_char c :: nat) \<and> (of_char c :: nat) \<le> 90 \<or> 97 \<le> (of_char c :: nat) \<and> (of_char c :: nat) \<le> 99"

lemma uncompress_plain: "\<not> letter_code c \<Longrightarrow> uncompress_number (c # k) = c # uncompress_number k"
  by (auto simp: uncompress_number_def Let_def)

lemma uncompress_letter:
  "n < 256 \<Longrightarrow> 65 \<le> n \<and> n \<le> 90 \<or> 97 \<le> n \<and> n \<le> 99 \<Longrightarrow>
     uncompress_number (char_of n # k) = to_string (int n) @ uncompress_number k"
  by (auto simp: uncompress_number_def Let_def)

lemma compress_pair:
  assumes "\<not> letter_code a" "\<not> letter_code b"
  shows "uncompress_number (compress_number (a # b # k)) = a # b # uncompress_number (compress_number k)"
proof -
  obtain ok c where s: "stoi_int [a, b] 0 = (ok, c)" by (cases "stoi_int [a, b] 0")
  show ?thesis
  proof (cases "ok \<and> (65 \<le> sint c \<and> sint c \<le> 90 \<or> 97 \<le> sint c \<and> sint c \<le> 99)")
    case False
    then have "compress_number (a # b # k) = [a, b] @ compress_number k" using s by auto
    then show ?thesis using assms by (simp add: uncompress_plain)
  next
    case True
    then obtain v where v: "strtol [a, b] = Some v" "- (2 ^ 31) \<le> v" "v < 2 ^ 31" "c = word_of_int v"
      using s by (auto simp: stoi_int_def std_stoi_def stol_range_def split: option.splits if_splits)
    then have "sint c = v" by (simp add: signed_of_int signed_take_bit_int_eq_self)
    then have r: "65 \<le> v" "v \<le> 99" "65 \<le> v \<and> v \<le> 90 \<or> 97 \<le> v \<and> v \<le> 99" "sint c = v" using True by auto
    then have d: "isdigit a" "isdigit b" "v = int (digit_val a * 10 + digit_val b)" using strtol_pair[OF v(1)] by auto
    let ?n = "digit_val a * 10 + digit_val b"
    have n: "?n < 256" "65 \<le> ?n \<and> ?n \<le> 90 \<or> 97 \<le> ?n \<and> ?n \<le> 99" "10 \<le> ?n" "nat v = ?n"
      using r(1-3) unfolding d(3) by linarith+
    have "compress_number (a # b # k) = char_of ?n # compress_number k"
      using s True r(3,4) n(4) by auto
    then show ?thesis using uncompress_letter[OF n(1,2)] to_string_pair[OF d(1,2) n(3)] by simp
  qed
qed

text \<open>
  C30: uncompressing a compressed key gives the key back, for every key without the letters that
  stand for two digits.
\<close>

theorem uncompress_compress:
  assumes "\<forall>c \<in> set k. \<not> letter_code c"
  shows "uncompress_number (compress_number k) = k"
  using assms
proof (induction k rule: compress_number.induct[case_names pair none one])
  case (pair a b k)
  then show ?case using compress_pair[of a b k] by simp
next
  case none
  then show ?case by (simp add: uncompress_number_def)
next
  case (one v)
  then show ?case using uncompress_plain[of v "[]"] by (simp add: uncompress_number_def)
qed

theorem uncompress_compress_witness:
  "uncompress_number (compress_number ''6590zz9'') = ''6590zz9''"
  by (rule uncompress_compress) simp


subsection \<open>UTF-8\<close>

text \<open>The encodings of a code point in UTF-8, and the reading of UTF-16 with surrogate pairs.\<close>

definition utf8_enc :: "nat \<Rightarrow> string" where
  "utf8_enc u =
     map char_of
       (if u < 0x80 then [u]
        else if u < 0x800 then [0xC0 + u div 64, 0x80 + u mod 64]
        else if u < 0x10000 then [0xE0 + u div 4096, 0x80 + u div 64 mod 64, 0x80 + u mod 64]
        else [0xF0 + u div 262144, 0x80 + u div 4096 mod 64, 0x80 + u div 64 mod 64, 0x80 + u mod 64])"

definition scalar :: "nat \<Rightarrow> bool" where
  "scalar u \<longleftrightarrow> u \<le> 0x10FFFF \<and> \<not> (0xD800 \<le> u \<and> u \<le> 0xDFFF)"

definition high_surrogate :: "nat \<Rightarrow> bool" where
  "high_surrogate u \<longleftrightarrow> 0xD800 \<le> u \<and> u \<le> 0xDBFF"

definition surrogate_pair :: "nat \<Rightarrow> nat \<Rightarrow> nat" where
  "surrogate_pair u v = 0x10000 + (u - 0xD800) * 1024 + (v - 0xDC00)"

fun utf16_dec :: "nat list \<Rightarrow> nat list" where
  "utf16_dec (u # v # ws) =
     (if high_surrogate u then surrogate_pair u v # utf16_dec ws else u # utf16_dec (v # ws))"
| "utf16_dec ws = ws"

lemma utf8_cont_step:
  "x < 64 \<Longrightarrow> utf8_cont (Suc todo) uni (char_of (0x80 + x :: nat) # s) = utf8_cont todo (uni * 64 + x) s"
proof -
  assume x: "x < 64"
  have "(128 + x) mod 64 = x mod (64 :: nat)" using mod_mult_self4[of 64 2 x] by simp
  then show ?thesis using x by (simp add: Let_def push_bit_eq_mult take_bit_eq_mod)
qed

lemma utf8_lead_simps:
  "x < 32 \<Longrightarrow> utf8_lead (0xC0 + x) = Inr (x, 1)"
  "x < 16 \<Longrightarrow> utf8_lead (0xE0 + x) = Inr (x, 2)"
  "x < 8 \<Longrightarrow> utf8_lead (0xF0 + x) = Inr (x, 3)"
proof -
  have m: "(192 + x) mod 32 = x mod (32 :: nat)" "(224 + x) mod 16 = x mod (16 :: nat)" "(240 + x) mod 8 = x mod (8 :: nat)"
    using mod_mult_self4[of 32 6 x] mod_mult_self4[of 16 14 x] mod_mult_self4[of 8 30 x] by simp_all
  show "x < 32 \<Longrightarrow> utf8_lead (0xC0 + x) = Inr (x, 1)"
    using m(1) by (simp add: utf8_lead_def take_bit_eq_mod)
  show "x < 16 \<Longrightarrow> utf8_lead (0xE0 + x) = Inr (x, 2)"
    using m(2) by (simp add: utf8_lead_def take_bit_eq_mod)
  show "x < 8 \<Longrightarrow> utf8_lead (0xF0 + x) = Inr (x, 3)"
    using m(3) by (simp add: utf8_lead_def take_bit_eq_mod)
qed

lemma point_parts:
  fixes u :: nat
  shows "u div 64 * 64 + u mod 64 = u" "u div 4096 * 64 + u div 64 mod 64 = u div 64"
    "u div 262144 * 64 + u div 4096 mod 64 = u div 4096"
proof -
  show "u div 64 * 64 + u mod 64 = u" by simp
  have "u div 4096 = u div 64 div 64" by (simp add: div_mult2_eq[symmetric])
  then show "u div 4096 * 64 + u div 64 mod 64 = u div 64" by simp
  have "u div 262144 = u div 4096 div 64" by (simp add: div_mult2_eq[symmetric])
  then show "u div 262144 * 64 + u div 4096 mod 64 = u div 4096" by simp
qed

lemma utf8_points_enc:
  assumes "scalar u"
  shows "utf8_points (utf8_enc u @ s) = (case utf8_points s of Inl e \<Rightarrow> Inl e | Inr us \<Rightarrow> Inr (u # us))"
proof -
  have ok: "\<not> (u \<ge> 0xD800 \<and> u \<le> 0xDFFF)" "\<not> u > 0x10FFFF" using assms by (auto simp: scalar_def)
  consider "u < 0x80" | "0x80 \<le> u" "u < 0x800" | "0x800 \<le> u" "u < 0x10000" | "0x10000 \<le> u" by linarith
  then show ?thesis
  proof cases
    case 1
    then show ?thesis by (simp add: utf8_enc_def utf8_lead_def)
  next
    case 2
    then have "u div 64 < 32" by (simp add: div_less_iff_less_mult)
    then show ?thesis using 2 ok utf8_lead_simps(1)[of "u div 64"] utf8_cont_step[of "u mod 64" 0 "u div 64"] point_parts[of u]
      by (simp add: utf8_enc_def)
  next
    case 3
    then have "u div 4096 < 16" by (simp add: div_less_iff_less_mult)
    then show ?thesis using 3 ok utf8_lead_simps(2)[of "u div 4096"] point_parts[of u]
        utf8_cont_step[of "u div 64 mod 64" 1 "u div 4096"] utf8_cont_step[of "u mod 64" 0 "u div 64"]
      by (auto simp: utf8_enc_def numeral_2_eq_2)
  next
    case 4
    then have "u div 262144 < 8" using assms by (simp add: div_less_iff_less_mult scalar_def)
    then show ?thesis using 4 ok utf8_lead_simps(3)[of "u div 262144"] point_parts[of u]
        utf8_cont_step[of "u div 4096 mod 64" 2 "u div 262144"]
        utf8_cont_step[of "u div 64 mod 64" 1 "u div 4096"] utf8_cont_step[of "u mod 64" 0 "u div 64"]
      by (simp add: utf8_enc_def numeral_3_eq_3 numeral_2_eq_2)
  qed
qed

lemma utf8_points_concat:
  "\<forall>u \<in> set us. scalar u \<Longrightarrow> utf8_points (concat (map utf8_enc us)) = Inr us"
  by (induction us) (simp_all add: utf8_points_enc)

lemma utf16_dec_units:
  assumes "scalar u"
  shows "utf16_dec (utf16_units u @ ws) = u # utf16_dec ws"
proof (cases "u \<le> 0xFFFF")
  case True
  then show ?thesis using assms by (cases ws) (auto simp: utf16_units_def scalar_def high_surrogate_def)
next
  case False
  have "u - 0x10000 < 1048576" using assms unfolding scalar_def by linarith
  then have "(u - 0x10000) div 1024 < 1024" by (simp add: div_less_iff_less_mult)
  then show ?thesis using False
    by (simp add: utf16_units_def drop_bit_eq_div take_bit_eq_mod high_surrogate_def surrogate_pair_def)
qed

lemma utf16_dec_concat: "\<forall>u \<in> set us. scalar u \<Longrightarrow> utf16_dec (concat (map utf16_units us)) = us"
  by (induction us) (simp_all add: utf16_dec_units)

lemma utf16_units_range: "scalar u \<Longrightarrow> \<forall>w \<in> set (utf16_units u). w \<le> 0xFFFF"
proof -
  assume "scalar u"
  then have "u - 0x10000 < 1048576" unfolding scalar_def by linarith
  then have "(u - 0x10000) div 1024 < 1024" by (simp add: div_less_iff_less_mult)
  moreover have "(u - 0x10000) mod 1024 < 1024" by simp
  ultimately have "(u - 0x10000) div 1024 + 0xD800 \<le> 0xFFFF" "(u - 0x10000) mod 1024 + 0xDC00 \<le> 0xFFFF" by linarith+
  then show ?thesis by (simp add: utf16_units_def drop_bit_eq_div take_bit_eq_mod)
qed

text \<open>
  C31: the UTF-8 encoding of any sequence of Unicode scalar values converts without an error to
  16-bit units that, read as UTF-16, are the same sequence.
\<close>

theorem utf8_to_utf16_correct:
  assumes "\<forall>u \<in> set us. scalar u"
  shows "\<exists>ws. utf8_to_utf16 (concat (map utf8_enc us)) = Inr ws \<and> utf16_dec ws = us \<and> (\<forall>w \<in> set ws. w \<le> 0xFFFF)"
  using utf8_points_concat[OF assms] utf16_dec_concat[OF assms] utf16_units_range assms
  by (simp add: utf8_to_utf16_def) blast

theorem utf8_to_utf16_correct_witness:
  "\<exists>ws. utf8_to_utf16 (concat (map utf8_enc [0x41, 0x416, 0x20AC, 0x1F600])) = Inr ws
    \<and> utf16_dec ws = [0x41, 0x416, 0x20AC, 0x1F600] \<and> (\<forall>w \<in> set ws. w \<le> 0xFFFF)"
  by (rule utf8_to_utf16_correct) (simp add: scalar_def)


section \<open>Removing a character leaves some of them\<close>

text \<open>After erasing a character \<open>removeAll\<close> steps over the one that took its place.\<close>

lemma removeAll_leaves_adjacent: "removeAll_chars ''aab'' CHR ''a'' = ''ab''"
  by (simp add: removeAll_chars_def removeAll_loop.simps str_find_def)

end
