(* ===== verification/E_Manager.thy ===== *)
theory E_Manager
  imports Bitbase Date_Time Basefunc "HOL-Library.AList"
begin

text \<open>
  The event database, \<open>extentions/e_manager\<close>: events of a positive type are stored by name, the
  last one of each name; events of type zero and below are queued with a time to live. The clock
  is an argument, read once for each call. An unordered map is an association list in its
  iteration order.
\<close>

section \<open>State\<close>

record event_result =
  eventType :: int32
  payload :: bytes
  dtm :: date_time
  timeToLive :: int32

definition event_init :: event_result where
  "event_init = \<lparr>eventType = 0, payload = [], dtm = date_time_init, timeToLive = 0\<rparr>"

record edb =
  eventStorage :: "(int32 \<times> (string \<times> event_result) list) list"
  eventQueue :: "(int32 \<times> event_result list) list"

definition edb_init :: edb where "edb_init = \<lparr>eventStorage = [], eventQueue = []\<rparr>"

text \<open>\<open>m[k]\<close> of a map of containers: the empty container when the key is new.\<close>

definition at_or_empty :: "('k \<times> 'v list) list \<Rightarrow> 'k \<Rightarrow> 'v list" where
  "at_or_empty m k = (case map_of m k of None \<Rightarrow> [] | Some v \<Rightarrow> v)"

section \<open>Operations\<close>

definition store_event :: "int32 \<Rightarrow> string \<Rightarrow> event_result \<Rightarrow> edb \<Rightarrow> edb" where
  "store_event ty name s st =
     st\<lparr>eventStorage := AList.update ty (AList.update name s (at_or_empty (eventStorage st) ty)) (eventStorage st)\<rparr>"

definition queue_event :: "int32 \<Rightarrow> event_result \<Rightarrow> edb \<Rightarrow> edb" where
  "queue_event ty s st =
     st\<lparr>eventQueue := AList.update ty (at_or_empty (eventQueue st) ty @ [s]) (eventQueue st)\<rparr>"

definition edb_insert :: "date_time \<Rightarrow> bytes \<Rightarrow> edb \<Rightarrow> (event_result \<times> edb) res" where
  "edb_insert now d st =
     (if length d > 8 then
        bind_res (substr d 0 4) (\<lambda>ty. bind_res (substr d 4 4) (\<lambda>hb.
          let r = event_init\<lparr>eventType := chars_to_numeric ty\<rparr>;
              header_bytes = (chars_to_numeric hb :: int32)
          in if length d \<ge> size_of_int32 (header_bytes + 8) then
               (if sint (eventType r) > 0 then
                  bind_res (substr d 8 (size_of_int32 header_bytes)) (\<lambda>name.
                  bind_res (substr_from d (size_of_int32 (header_bytes + 8))) (\<lambda>val.
                    Inr (r\<lparr>payload := name\<rparr>,
                         store_event (eventType r) name
                           (event_init\<lparr>payload := val, eventType := eventType r, dtm := now\<rparr>) st)))
                else if sint header_bytes > 12 then
                  bind_res (substr_from d 4) (\<lambda>data.
                  bind_res (substr d 8 4) (\<lambda>ttl.
                    Inr (r\<lparr>payload := data\<rparr>,
                         queue_event (eventType r)
                           (event_init\<lparr>timeToLive := chars_to_numeric ttl, payload := data,
                              eventType := eventType r, dtm := now\<rparr>) st)))
                else Inr (r, st))
             else Inr (r, st)))
      else Inr (event_init, st))"

definition expired :: "date_time \<Rightarrow> event_result \<Rightarrow> bool" where
  "expired now r \<longleftrightarrow> dt_less (dtm r) (add_secs (- sint (timeToLive r)) now)"

definition edb_reset :: "date_time \<Rightarrow> edb \<Rightarrow> edb" where
  "edb_reset now st = st\<lparr>eventQueue := map (\<lambda>(i, v). (i, filter (\<lambda>r. \<not> expired now r) v)) (eventQueue st)\<rparr>"

definition edb_retrieve :: "string \<Rightarrow> edb \<Rightarrow> event_result" where
  "edb_retrieve k st =
     (let (ty, kk) = (case str_find k ''|'' 0 of
                        Some fr \<Rightarrow> (snd (stoi_int (take fr k) 0), drop (fr + 1) k)
                      | None \<Rightarrow> (0, []))
      in case map_of (eventStorage st) ty of
           None \<Rightarrow> event_init\<lparr>eventType := ty\<rparr>
         | Some m \<Rightarrow> (case map_of m kk of None \<Rightarrow> event_init\<lparr>eventType := ty\<rparr> | Some r \<Rightarrow> r))"

definition collect_queue :: "int32 \<Rightarrow> event_result list \<Rightarrow> event_result" where
  "collect_queue i rs = event_init\<lparr>eventType := i, payload := concat (map payload rs)\<rparr>"

text \<open>
  The types asked for come from a set, visited in some order; stored events are pushed at once,
  queued ones are gathered in one event for each type and pushed at the end.
\<close>

definition fetchEvents :: "(tm \<Rightarrow> int) \<Rightarrow> date_time \<Rightarrow> string \<Rightarrow> edb \<Rightarrow> event_result list" where
  "fetchEvents mktime now k st =
     (let v = get_vector_from_string k;
          s = remdups (tl v);
          recent = (\<lambda>r. secs_to mktime (dtm r) now < sint (v ! 0))
      in if v = [] then []
         else concat (map (\<lambda>i. if sint i > 0 then filter recent (map snd (at_or_empty (eventStorage st) i)) else []) s)
              @ concat (map (\<lambda>i. if sint i > 0 then []
                    else (let q = filter recent (at_or_empty (eventQueue st) i)
                          in if q = [] then [] else [collect_queue i q])) s))"

definition edb_generateKey :: "string \<Rightarrow> bytes \<Rightarrow> bytes" where
  "edb_generateKey k d = numeric_to_chars (of_nat (length k) :: int32) 4 @ k @ d"

section \<open>Lookups after updates\<close>

lemma at_or_empty_update: "at_or_empty (AList.update k v m) k' = (if k' = k then v else at_or_empty m k')"
  by (simp add: at_or_empty_def update_conv)

lemma edb_retrieve_at:
  "edb_retrieve k st = (case str_find k ''|'' 0 of
     Some fr \<Rightarrow> (case map_of (at_or_empty (eventStorage st) (snd (stoi_int (take fr k) 0))) (drop (fr + 1) k) of
        None \<Rightarrow> event_init\<lparr>eventType := snd (stoi_int (take fr k) 0)\<rparr> | Some r \<Rightarrow> r)
   | None \<Rightarrow> (case map_of (at_or_empty (eventStorage st) 0) [] of None \<Rightarrow> event_init | Some r \<Rightarrow> r))"
  by (simp add: edb_retrieve_def at_or_empty_def event_init_def split: option.split)

text \<open>The key under which a query looks.\<close>

definition query_key :: "string \<Rightarrow> int32 \<times> string" where
  "query_key k = (case str_find k ''|'' 0 of
     Some fr \<Rightarrow> (snd (stoi_int (take fr k) 0), drop (fr + 1) k) | None \<Rightarrow> (0, []))"

lemma edb_retrieve_key:
  "edb_retrieve k st = (case map_of (at_or_empty (eventStorage st) (fst (query_key k))) (snd (query_key k)) of
     None \<Rightarrow> event_init\<lparr>eventType := fst (query_key k)\<rparr> | Some r \<Rightarrow> r)"
  by (simp add: edb_retrieve_at query_key_def event_init_def split: option.split)

lemma retrieve_store:
  "edb_retrieve k (store_event ty name s st) = (if query_key k = (ty, name) then s else edb_retrieve k st)"
  by (cases "query_key k") (auto simp: edb_retrieve_key store_event_def at_or_empty_update update_conv)

lemma retrieve_queue [simp]: "edb_retrieve k (queue_event ty s st) = edb_retrieve k st"
  by (simp add: edb_retrieve_key queue_event_def)

lemma to_string_no_bar: "CHR ''|'' \<notin> set (to_string i)"
  using nat_to_string_digits[of "nat i"] nat_to_string_digits[of "nat (- i)"]
  by (auto simp: to_string_def isdigit_def)

lemma query_key_of: "query_key (to_string (sint ty) @ ''|'' @ name) = (ty, name)"
proof -
  have "str_find (to_string (sint ty) @ ''|'' @ name) ''|'' 0 = Some (length (to_string (sint ty)))"
    using find_at_char[OF to_string_no_bar, of "sint ty" name 0] by (simp add: str_find_def)
  then show ?thesis by (simp add: query_key_def stoi_int_to_string)
qed

section \<open>Messages\<close>

text \<open>The message that carries an event: its type, the length of its name, the name and the value.\<close>

definition event_message :: "int32 \<Rightarrow> string \<Rightarrow> bytes \<Rightarrow> bytes" where
  "event_message ty name val = numeric_to_chars ty 4 @ edb_generateKey name val"

lemma edb_insert_message:
  assumes "0 < sint ty" "length name < 2 ^ 31 - 8" "name \<noteq> [] \<or> val \<noteq> []"
  shows "edb_insert now (event_message ty name val) st =
    Inr (\<lparr>eventType = ty, payload = name, dtm = date_time_init, timeToLive = 0\<rparr>,
         store_event ty name \<lparr>eventType = ty, payload = val, dtm = now, timeToLive = 0\<rparr> st)"
proof -
  let ?d = "event_message ty name val"
  let ?hb = "of_nat (length name) :: int32"
  have len: "length ?d = 8 + length name + length val" by (simp add: event_message_def edb_generateKey_def)
  then have l8: "8 < length ?d" using assms(3) by (cases name; cases val) simp_all
  have f: "take 4 ?d = numeric_to_chars ty 4" "take 4 (drop 4 ?d) = numeric_to_chars ?hb 4"
    "drop 8 ?d = name @ val"
    by (simp_all add: event_message_def edb_generateKey_def)
  have sz: "size_of_int32 ?hb = length name" using size_of_int32_nat[of "length name"] assms(2) by simp
  have "?hb + 8 = of_nat (length name + 8)" by simp
  then have sz8: "size_of_int32 (?hb + 8) = length name + 8"
    using size_of_int32_nat[of "length name + 8"] assms(2) by (simp del: of_nat_add)
  have c: "chars_to_numeric (numeric_to_chars ty 4) = ty" "chars_to_numeric (numeric_to_chars ?hb 4) = ?hb"
    by (simp_all add: chars_numeric_id)
  have s: "substr ?d 0 4 = Inr (numeric_to_chars ty 4)" "substr ?d 4 4 = Inr (numeric_to_chars ?hb 4)"
    "substr ?d 8 (length name) = Inr name" "substr_from ?d (length name + 8) = Inr val"
  proof -
    show "substr ?d 8 (length name) = Inr name" using len f(3) by simp
    have "drop (length name + 8) ?d = drop (length name) (drop 8 ?d)" by simp
    then show "substr_from ?d (length name + 8) = Inr val" using len unfolding f(3) by simp
  qed (use l8 f in simp_all)
  show ?thesis
    using l8 len assms(1) unfolding edb_insert_def Let_def
    by (simp add: s c sz sz8 event_init_def)
qed

lemma edb_insert_total: "\<exists>r st'. edb_insert now d st = Inr (r, st')"
  by (simp add: edb_insert_def Let_def)

section \<open>The invariant\<close>

text \<open>
  Every stored event carries the positive type it is stored under and every queued one the type of
  its queue, zero or below; no key of a map occurs twice.
\<close>

definition edb_inv :: "edb \<Rightarrow> bool" where
  "edb_inv st \<longleftrightarrow>
     distinct (map fst (eventStorage st)) \<and> distinct (map fst (eventQueue st))
     \<and> (\<forall>(i, m) \<in> set (eventStorage st). 0 < sint i \<and> distinct (map fst m) \<and> (\<forall>(k, e) \<in> set m. eventType e = i))
     \<and> (\<forall>(i, v) \<in> set (eventQueue st). sint i \<le> 0 \<and> (\<forall>e \<in> set v. eventType e = i))"

lemma set_AList_update: "set (AList.update k v m) \<subseteq> insert (k, v) {x \<in> set m. fst x \<noteq> k}"
  if "distinct (map fst m)"
proof -
  have "distinct (map fst (AList.update k v m))" using that by (simp add: distinct_update)
  then have "(a, b) \<in> set (AList.update k v m) \<longleftrightarrow> map_of (AList.update k v m) a = Some b" for a b by (simp add: map_of_eq_Some_iff)
  moreover have "(a, b) \<in> set m \<longleftrightarrow> map_of m a = Some b" for a b using that by (simp add: map_of_eq_Some_iff)
  ultimately show ?thesis by (auto simp: update_conv split: if_splits)
qed

lemma at_or_empty_cases: "at_or_empty m k = [] \<or> (k, at_or_empty m k) \<in> set m"
  by (cases "map_of m k") (auto simp: at_or_empty_def dest: map_of_SomeD)

lemma edb_inv_store:
  assumes "edb_inv st" "0 < sint ty" "eventType s = ty"
  shows "edb_inv (store_event ty name s st)"
proof -
  let ?m = "at_or_empty (eventStorage st) ty"
  have d: "distinct (map fst (eventStorage st))" using assms(1) by (simp add: edb_inv_def)
  have m: "distinct (map fst ?m)" "\<forall>(k, e) \<in> set ?m. eventType e = ty"
    using at_or_empty_cases[of "eventStorage st" ty] assms(1) by (auto simp: edb_inv_def)
  have "\<forall>(k, e) \<in> set (AList.update name s ?m). eventType e = ty"
    using set_AList_update[OF m(1), of name s] m(2) assms(3) by auto
  moreover have "distinct (map fst (AList.update name s ?m))" using m(1) by (simp add: distinct_update)
  ultimately have "\<forall>(i, m) \<in> set (AList.update ty (AList.update name s ?m) (eventStorage st)).
      0 < sint i \<and> distinct (map fst m) \<and> (\<forall>(k, e) \<in> set m. eventType e = i)"
    using set_AList_update[OF d, of ty "AList.update name s ?m"] assms(1,2) by (fastforce simp: edb_inv_def)
  then show ?thesis using assms(1) d by (simp add: edb_inv_def store_event_def distinct_update)
qed

lemma edb_inv_queue:
  assumes "edb_inv st" "sint ty \<le> 0" "eventType s = ty"
  shows "edb_inv (queue_event ty s st)"
proof -
  let ?m = "at_or_empty (eventQueue st) ty"
  have d: "distinct (map fst (eventQueue st))" using assms(1) by (simp add: edb_inv_def)
  have "\<forall>e \<in> set (?m @ [s]). eventType e = ty"
    using at_or_empty_cases[of "eventQueue st" ty] assms by (fastforce simp: edb_inv_def)
  then have "\<forall>(i, v) \<in> set (AList.update ty (?m @ [s]) (eventQueue st)). sint i \<le> 0 \<and> (\<forall>e \<in> set v. eventType e = i)"
    using set_AList_update[OF d, of ty "?m @ [s]"] assms(1,2) by (fastforce simp: edb_inv_def)
  then show ?thesis using assms(1) d by (simp add: edb_inv_def queue_event_def distinct_update)
qed

lemma edb_inv_insert:
  assumes "edb_inv st" "edb_insert now d st = Inr (r, st')"
  shows "edb_inv st'"
  using assms unfolding edb_insert_def Let_def
  by (auto simp: bind_res_eq_Inr not_less split: if_splits intro!: edb_inv_store edb_inv_queue)

lemma edb_inv_reset:
  assumes "edb_inv st"
  shows "edb_inv (edb_reset now st)"
proof -
  have "fst \<circ> (\<lambda>(i, v). (i, filter (\<lambda>r. \<not> expired now r) v)) = (fst :: int32 \<times> event_result list \<Rightarrow> int32)" by auto
  then show ?thesis using assms by (auto simp: edb_inv_def edb_reset_def)
qed

lemma at_or_empty_map: "at_or_empty (map (\<lambda>(i, v). (i, f v)) m) k = (if map_of m k = None then [] else f (at_or_empty m k))"
  by (induction m) (auto simp: at_or_empty_def)

lemma queue_after_reset:
  "at_or_empty (eventQueue (edb_reset now st)) i = filter (\<lambda>r. \<not> expired now r) (at_or_empty (eventQueue st) i)"
  by (auto simp: edb_reset_def at_or_empty_map) (simp add: at_or_empty_def)

lemma expired_total:
  assumes "normal now" "normal (dtm r)"
  shows "expired now r \<longleftrightarrow> total_ms (dtm r) + 1000 * sint (timeToLive r) < total_ms now"
  using dt_less_total[OF assms(2) add_secs_total(1)[OF normal_month[OF assms(1)]]]
    add_secs_total(2)[OF normal_month[OF assms(1)], of "- sint (timeToLive r)"]
  by (auto simp: expired_def)

section \<open>Properties\<close>

text \<open>
  C32: an event message - a positive type, a name shorter than 2 GB, a value - is stored: the answer
  names its type and name, and afterwards a query \<open>type|name\<close> returns the value with the time of the
  insertion, while every query for another type or name returns what it did before.
\<close>

theorem edb_insert_retrieve:
  assumes "0 < sint ty" "length name < 2 ^ 31 - 8" "name \<noteq> [] \<or> val \<noteq> []"
  shows "\<exists>r st'. edb_insert now (event_message ty name val) st = Inr (r, st')
    \<and> eventType r = ty \<and> payload r = name
    \<and> edb_retrieve (to_string (sint ty) @ ''|'' @ name) st' = \<lparr>eventType = ty, payload = val, dtm = now, timeToLive = 0\<rparr>
    \<and> (\<forall>ty' name'. (ty', name') \<noteq> (ty, name) \<longrightarrow>
         edb_retrieve (to_string (sint ty') @ ''|'' @ name') st' = edb_retrieve (to_string (sint ty') @ ''|'' @ name') st)"
  unfolding edb_insert_message[OF assms] by (auto simp: retrieve_store query_key_of[simplified])

theorem edb_insert_retrieve_witness:
  "\<exists>r st'. edb_insert date_time_init (event_message 5 ''cpu'' ''hot'') edb_init = Inr (r, st')
    \<and> eventType r = 5 \<and> payload r = ''cpu''
    \<and> edb_retrieve (to_string (sint (5 :: int32)) @ ''|'' @ ''cpu'') st' =
        \<lparr>eventType = 5, payload = ''hot'', dtm = date_time_init, timeToLive = 0\<rparr>
    \<and> edb_retrieve (to_string (sint (6 :: int32)) @ ''|'' @ ''cpu'') st' =
        edb_retrieve (to_string (sint (6 :: int32)) @ ''|'' @ ''cpu'') edb_init"
proof -
  have "(6 :: int32, ''cpu'') \<noteq> (5, ''cpu'')" by simp
  moreover have "0 < sint (5 :: int32)" "length ''cpu'' < 2 ^ 31 - 8" "''cpu'' \<noteq> [] \<or> ''hot'' \<noteq> []" by simp_all
  ultimately show ?thesis using edb_insert_retrieve[of 5 "''cpu''" "''hot''" date_time_init edb_init] by meson
qed

text \<open>
  No input makes an insertion raise, whatever lengths its header claims, and insertions and
  resets keep the invariant that every event is filed under its own type.
\<close>

theorem edb_operations_safe:
  assumes "edb_inv st"
  shows "(\<exists>r st'. edb_insert now d st = Inr (r, st') \<and> edb_inv st') \<and> edb_inv (edb_reset now st)"
  using edb_insert_total[of now d st] edb_inv_insert[OF assms] edb_inv_reset[OF assms] by blast

theorem edb_operations_safe_witness:
  "(\<exists>r st'. edb_insert date_time_init (replicate 8 CHR 0xFF @ ''x'') edb_init = Inr (r, st') \<and> edb_inv st')
    \<and> edb_inv (edb_reset date_time_init edb_init)"
  by (rule edb_operations_safe) (simp add: edb_inv_def edb_init_def)





end
