(* ===== verification/Base64.thy ===== *)
theory Base64
  imports Cpp_Std
begin

text \<open>
  \<open>libs/base64.cpp\<close>.  An \<open>unsigned char\<close> is an 8-bit word; the loops keep the bytes
  collected so far in a buffer of up to three or four elements.
\<close>

section \<open>Definitions\<close>

definition base64_chars :: string where
  "base64_chars = ''ABCDEFGHIJKLMNOPQRSTUVWXYZabcdefghijklmnopqrstuvwxyz0123456789+/''"

definition isalnum :: "char \<Rightarrow> bool" where
  "isalnum c \<longleftrightarrow> (let n = (of_char c :: nat) in
     48 \<le> n \<and> n \<le> 57 \<or> 65 \<le> n \<and> n \<le> 90 \<or> 97 \<le> n \<and> n \<le> 122)"

definition is_base64 :: "char \<Rightarrow> bool" where
  "is_base64 c \<longleftrightarrow> isalnum c \<or> c = CHR ''+'' \<or> c = CHR ''/''"

text \<open>Three bytes as four numbers of six bits.\<close>

definition char_array_4 :: "8 word \<Rightarrow> 8 word \<Rightarrow> 8 word \<Rightarrow> 8 word list" where
  "char_array_4 a b c =
     [drop_bit 2 (a AND 0xfc),
      push_bit 4 (a AND 0x03) + drop_bit 4 (b AND 0xf0),
      push_bit 2 (b AND 0x0f) + drop_bit 6 (c AND 0xc0),
      c AND 0x3f]"

definition chars_of :: "8 word list \<Rightarrow> string" where
  "chars_of ws = map (\<lambda>w. base64_chars ! unat w) ws"

fun encode_loop :: "8 word list \<Rightarrow> 8 word list \<Rightarrow> string \<Rightarrow> 8 word list \<times> string" where
  "encode_loop [] buf ret = (buf, ret)"
| "encode_loop (b # bs) buf ret =
     (let buf = buf @ [b] in
      if length buf = 3
      then encode_loop bs [] (ret @ chars_of (char_array_4 (buf ! 0) (buf ! 1) (buf ! 2)))
      else encode_loop bs buf ret)"

definition base64_encode_bytes :: "8 word list \<Rightarrow> string" where
  "base64_encode_bytes bs =
     (let (buf, ret) = encode_loop bs [] [] in
      if buf \<noteq> [] then
        (let a = buf @ replicate (3 - length buf) 0
         in ret @ chars_of (take (length buf + 1) (char_array_4 (a ! 0) (a ! 1) (a ! 2)))
            @ replicate (3 - length buf) CHR ''='')
      else ret)"

definition base64_encode :: "string \<Rightarrow> string" where
  "base64_encode s = base64_encode_bytes (map of_char s)"

text \<open>The variants for a pointer with a length and for the two vector types.\<close>

definition base64_encode_ptr :: "8 word list \<Rightarrow> nat \<Rightarrow> string" where
  "base64_encode_ptr bytes_to_encode in_len = base64_encode_bytes (take in_len bytes_to_encode)"

definition base64_encodeV :: "char list \<Rightarrow> string" where
  "base64_encodeV s = base64_encode_bytes (map of_char s)"

definition base64_encodeV_u :: "8 word list \<Rightarrow> string" where
  "base64_encodeV_u s = base64_encode_bytes s"

text \<open>\<open>base64_chars.find\<close> narrowed to an \<open>unsigned char\<close>; \<open>npos\<close> becomes 255.\<close>

fun pos_of :: "char \<Rightarrow> string \<Rightarrow> nat \<Rightarrow> nat option" where
  "pos_of c [] k = None"
| "pos_of c (d # ds) k = (if d = c then Some k else pos_of c ds (k + 1))"

definition b64_find :: "char \<Rightarrow> 8 word" where
  "b64_find c = (case pos_of c base64_chars 0 of None \<Rightarrow> 255 | Some k \<Rightarrow> of_nat k)"

definition char_array_3 :: "8 word \<Rightarrow> 8 word \<Rightarrow> 8 word \<Rightarrow> 8 word \<Rightarrow> 8 word list" where
  "char_array_3 a b c d =
     [push_bit 2 a + drop_bit 4 (b AND 0x30),
      push_bit 4 (b AND 0xf) + drop_bit 2 (c AND 0x3c),
      push_bit 6 (c AND 0x3) + d]"

definition bytes_of :: "8 word list \<Rightarrow> string" where
  "bytes_of ws = map (\<lambda>w. char_of (unat w)) ws"

fun decode_loop :: "string \<Rightarrow> string \<Rightarrow> string \<Rightarrow> string \<times> string" where
  "decode_loop [] buf ret = (buf, ret)"
| "decode_loop (c # cs) buf ret =
     (if c \<noteq> CHR ''='' \<and> is_base64 c then
        (let buf = buf @ [c] in
         if length buf = 4
         then decode_loop cs [] (ret @ bytes_of (char_array_3 (b64_find (buf ! 0)) (b64_find (buf ! 1))
                                                   (b64_find (buf ! 2)) (b64_find (buf ! 3))))
         else decode_loop cs buf ret)
      else (buf, ret))"

definition base64_decode :: "string \<Rightarrow> string" where
  "base64_decode s =
     (let (buf, ret) = decode_loop s [] [] in
      if buf \<noteq> [] then
        (let q = map b64_find (buf @ replicate (4 - length buf) (CHR 0x00))
         in ret @ bytes_of (take (length buf - 1) (char_array_3 (q ! 0) (q ! 1) (q ! 2) (q ! 3))))
      else ret)"

definition base64_decodeV :: "string \<Rightarrow> char list" where
  "base64_decodeV s = base64_decode s"

section \<open>Bits\<close>

lemma less8: "n < (8 :: nat) \<longleftrightarrow> n = 0 \<or> n = 1 \<or> n = 2 \<or> n = 3 \<or> n = 4 \<or> n = 5 \<or> n = 6 \<or> n = 7"
  by auto

lemma second_or:
  "push_bit 4 (a AND 3) + drop_bit 4 (b AND 0xf0) = push_bit 4 (a AND 3) OR drop_bit 4 (b AND 0xf0 :: 8 word)"
  by (rule disjunctive_add_eq_or, rule bit_word_eqI) (auto simp: less8 bit_simps)

lemma third_or:
  "push_bit 2 (b AND 0xf) + drop_bit 6 (c AND 0xc0) = push_bit 2 (b AND 0xf) OR drop_bit 6 (c AND 0xc0 :: 8 word)"
  by (rule disjunctive_add_eq_or, rule bit_word_eqI) (auto simp: less8 bit_simps)

lemmas num_Suc = numeral_2_eq_2[symmetric] numeral_3_eq_3[symmetric]

lemma byte_1: "push_bit 2 (drop_bit 2 (a AND 0xfc))
     + drop_bit 4 ((push_bit 4 (a AND 3) OR drop_bit 4 (b AND 0xf0)) AND 0x30) = (a :: 8 word)"
  by (subst disjunctive_add_eq_or; rule bit_word_eqI) (auto simp: less8 bit_simps num_Suc)

lemma byte_2: "push_bit 4 ((push_bit 4 (a AND 3) OR drop_bit 4 (b AND 0xf0)) AND 0xf)
     + drop_bit 2 ((push_bit 2 (b AND 0xf) OR drop_bit 6 (c AND 0xc0)) AND 0x3c) = (b :: 8 word)"
  by (subst disjunctive_add_eq_or; rule bit_word_eqI) (auto simp: less8 bit_simps num_Suc)

lemma byte_3: "push_bit 6 ((push_bit 2 (b AND 0xf) OR drop_bit 6 (c AND 0xc0)) AND 0x3) + (c AND 0x3f) = (c :: 8 word)"
  by (subst disjunctive_add_eq_or; rule bit_word_eqI) (auto simp: less8 bit_simps num_Suc)

text \<open>Six-bit numbers, and the bytes they carry.\<close>

abbreviation (input) s0 :: "8 word \<Rightarrow> 8 word" where "s0 a \<equiv> drop_bit 2 (a AND 0xfc)"
abbreviation (input) s1 :: "8 word \<Rightarrow> 8 word \<Rightarrow> 8 word" where
  "s1 a b \<equiv> push_bit 4 (a AND 0x03) + drop_bit 4 (b AND 0xf0)"
abbreviation (input) s2 :: "8 word \<Rightarrow> 8 word \<Rightarrow> 8 word" where
  "s2 b c \<equiv> push_bit 2 (b AND 0x0f) + drop_bit 6 (c AND 0xc0)"
abbreviation (input) s3 :: "8 word \<Rightarrow> 8 word" where "s3 c \<equiv> c AND 0x3f"

lemma char_array_3_4: "char_array_3 (s0 a) (s1 a b) (s2 b c) (s3 c) = [a, b, c]"
  unfolding char_array_3_def second_or third_or byte_1 byte_2 byte_3 ..

lemma char_array_3_pad:
  "take 1 (char_array_3 (s0 a) (s1 a b) y z) = [a]"
  "take 2 (char_array_3 (s0 a) (s1 a b) (s2 b c) z) = [a, b]"
  unfolding char_array_3_def second_or third_or byte_1 byte_2 by simp_all

lemma six_bits:
  "unat (s0 a) < 64" "unat (s1 a b) < 64" "unat (s2 b c) < 64" "unat (s3 c) < 64"
proof -
  have *: "unat w < 64" if "w AND 0x3f = w" for w :: "8 word"
  proof -
    have "w AND 0x3f = take_bit 6 w" by (simp add: take_bit_eq_mask mask_eq_exp_minus_1)
    then have "unat w = take_bit 6 (unat w)" using that by (metis unsigned_take_bit_eq)
    then show ?thesis using take_bit_nat_less_exp[of 6 "unat w"] by simp
  qed
  show "unat (s0 a) < 64" "unat (s3 c) < 64"
    by (rule *, rule bit_word_eqI, auto simp: less8 bit_simps)+
  show "unat (s1 a b) < 64" "unat (s2 b c) < 64"
    unfolding second_or third_or by (rule *, rule bit_word_eqI, auto simp: less8 bit_simps)+
qed

section \<open>The alphabet\<close>

lemma length_base64_chars [simp]: "length base64_chars = 64"
  by (simp add: base64_chars_def)

lemma alphabet: "list_all (\<lambda>k. b64_find (base64_chars ! k) = of_nat k \<and> is_base64 (base64_chars ! k)
    \<and> base64_chars ! k \<noteq> CHR ''='') [0..<64]"
  by code_simp

lemma alphabet_nth:
  assumes "unat w < 64"
  shows "b64_find (base64_chars ! unat w) = w" "is_base64 (base64_chars ! unat w)"
    "base64_chars ! unat w \<noteq> CHR ''=''"
proof -
  have "unat w \<in> set [0..<64]" using assms by simp
  then have "b64_find (base64_chars ! unat w) = of_nat (unat w) \<and> is_base64 (base64_chars ! unat w)
    \<and> base64_chars ! unat w \<noteq> CHR ''=''"
    using alphabet by (simp only: list_all_iff) blast
  then show "b64_find (base64_chars ! unat w) = w" "is_base64 (base64_chars ! unat w)"
    "base64_chars ! unat w \<noteq> CHR ''=''" by simp_all
qed

section \<open>Loops\<close>

lemma encode_loop_acc: "encode_loop bs buf (r @ ret) = apsnd ((@) r) (encode_loop bs buf ret)"
  by (induction bs buf ret rule: encode_loop.induct) (simp_all add: Let_def)

lemma encode_loop_ret: "encode_loop bs buf ret = apsnd ((@) ret) (encode_loop bs buf [])"
  using encode_loop_acc[of bs buf ret "[]"] by simp

lemma encode_3:
  "base64_encode_bytes (a # b # c # bs) = chars_of (char_array_4 a b c) @ base64_encode_bytes bs"
proof -
  obtain buf ret where "encode_loop bs [] [] = (buf, ret)" by fastforce
  then show ?thesis
    using encode_loop_ret[of bs "[]" "chars_of (char_array_4 a b c)"]
    by (simp add: base64_encode_bytes_def numeral_3_eq_3 Let_def)
qed

lemma encode_short:
  "base64_encode_bytes [] = []"
  "base64_encode_bytes [a] = chars_of [s0 a, s1 a 0] @ ''==''"
  "base64_encode_bytes [a, b] = chars_of [s0 a, s1 a b, s2 b 0] @ ''=''"
  by (simp_all add: base64_encode_bytes_def char_array_4_def numeral_2_eq_2 numeral_3_eq_3)

lemma decode_loop_acc: "decode_loop cs buf (r @ ret) = apsnd ((@) r) (decode_loop cs buf ret)"
  by (induction cs buf ret rule: decode_loop.induct) (simp_all add: Let_def)

lemma decode_loop_ret: "decode_loop cs buf ret = apsnd ((@) ret) (decode_loop cs buf [])"
  using decode_loop_acc[of cs buf ret "[]"] by simp

lemma decode_4:
  assumes "unat w0 < 64" "unat w1 < 64" "unat w2 < 64" "unat w3 < 64"
  shows "base64_decode (chars_of [w0, w1, w2, w3] @ cs) = bytes_of (char_array_3 w0 w1 w2 w3) @ base64_decode cs"
proof -
  obtain buf ret where "decode_loop cs [] [] = (buf, ret)" by fastforce
  then show ?thesis
    using decode_loop_ret[of cs "[]" "bytes_of (char_array_3 w0 w1 w2 w3)"]
    by (simp add: base64_decode_def chars_of_def alphabet_nth assms numeral_2_eq_2 numeral_3_eq_3 Let_def)
qed

lemma decode_short:
  assumes "unat w0 < 64" "unat w1 < 64" "unat w2 < 64"
  shows "base64_decode [] = []"
    and "base64_decode (chars_of [w0, w1] @ ''=='') =
      bytes_of (take 1 (char_array_3 w0 w1 (b64_find (CHR 0x00)) (b64_find (CHR 0x00))))"
    and "base64_decode (chars_of [w0, w1, w2] @ ''='') =
      bytes_of (take 2 (char_array_3 w0 w1 w2 (b64_find (CHR 0x00))))"
  by (simp_all add: base64_decode_def chars_of_def alphabet_nth assms numeral_2_eq_2 numeral_3_eq_3 Let_def)

text \<open>Byte sequences three at a time.\<close>

fun triples :: "8 word list \<Rightarrow> nat" where
  "triples (a # b # c # bs) = Suc (triples bs)"
| "triples bs = 0"

lemma decode_encode_bytes: "base64_decode (base64_encode_bytes bs) = bytes_of bs"
proof (induction bs rule: triples.induct[case_names three none one two])
  case (three a b c bs)
  then show ?case
    unfolding encode_3 char_array_4_def decode_4[OF six_bits] char_array_3_4 by (simp add: bytes_of_def)
next
  case none
  show ?case unfolding encode_short decode_short(1)[OF six_bits(1) six_bits(2) six_bits(3)]
    by (simp add: bytes_of_def)
next
  case (one a)
  show ?case unfolding encode_short decode_short(2)[OF six_bits(1) six_bits(2) six_bits(3)] char_array_3_pad ..
next
  case (two a b)
  show ?case unfolding encode_short decode_short(3)[OF six_bits(1) six_bits(2) six_bits(3)] char_array_3_pad ..
qed

lemma bytes_of_of_char [simp]: "bytes_of (map of_char s) = s"
proof -
  have "char_of (unat (of_char c :: 8 word)) = c" for c
  proof -
    have "(of_char c :: 8 word) = of_nat (of_char c)" by (simp only: of_nat_of_char)
    then have "unat (of_char c :: 8 word) = of_char c"
      using of_char_less_256[of c] by (simp only: unat_of_nat) (simp add: take_bit_nat_eq_self)
    then show ?thesis by simp
  qed
  then show ?thesis by (simp add: bytes_of_def comp_def)
qed

lemma length_encode_bytes: "length (base64_encode_bytes bs) = 4 * ((length bs + 2) div 3)"
proof (induction bs rule: triples.induct[case_names three none one two])
  case (three a b c bs)
  have "(length bs + 3 + 2) div 3 = (length bs + 2) div 3 + 1" by simp
  then show ?case using three by (simp add: encode_3 chars_of_def char_array_4_def)
qed (simp_all add: encode_short chars_of_def)

lemma set_chars_of: "list_all (\<lambda>w. unat w < 64) ws \<Longrightarrow> set (chars_of ws) \<subseteq> set base64_chars"
  by (induction ws) (auto simp: chars_of_def)

lemma set_encode_bytes: "set (base64_encode_bytes bs) \<subseteq> insert (CHR ''='') (set base64_chars)"
proof (induction bs rule: triples.induct[case_names three none one two])
  case (three a b c bs)
  have "set (chars_of (char_array_4 a b c)) \<subseteq> set base64_chars"
    unfolding char_array_4_def by (rule set_chars_of) (intro list.pred_inject(2)[THEN iffD2] conjI six_bits list.pred_inject(1))
  then show ?case using three by (auto simp: encode_3)
next
  case (one a)
  have "set (chars_of [s0 a, s1 a 0]) \<subseteq> set base64_chars"
    by (rule set_chars_of) (intro list.pred_inject(2)[THEN iffD2] conjI six_bits list.pred_inject(1))
  then show ?case by (auto simp: encode_short)
next
  case (two a b)
  have "set (chars_of [s0 a, s1 a b, s2 b 0]) \<subseteq> set base64_chars"
    by (rule set_chars_of) (intro list.pred_inject(2)[THEN iffD2] conjI six_bits list.pred_inject(1))
  then show ?case by (auto simp: encode_short)
qed (simp add: encode_short)

section \<open>Properties\<close>

text \<open>C23. Decoding inverts every encoder, on every string of bytes, and the encoded text is padded
  to a multiple of four characters of the alphabet and the padding sign.\<close>

theorem base64_roundtrip:
  "base64_decode (base64_encode s) = s \<and> base64_decodeV (base64_encodeV s) = s
   \<and> base64_decode (base64_encodeV_u bs) = bytes_of bs
   \<and> base64_decode (base64_encode_ptr bs n) = bytes_of (take n bs)
   \<and> length (base64_encode s) = 4 * ((length s + 2) div 3)
   \<and> set (base64_encode s) \<subseteq> insert (CHR ''='') (set base64_chars)"
  by (simp add: base64_encode_def base64_encodeV_def base64_encodeV_u_def base64_encode_ptr_def
      base64_decodeV_def decode_encode_bytes length_encode_bytes set_encode_bytes)

end
