(* ===== verification/Hstf.thy ===== *)
theory Hstf
  imports Bitbase Base64
begin

text \<open>
  \<open>rssdisk/hstf.cpp\<close> and \<open>hstf.h\<close>: the replication log of removed files.  The server
  keeps records of 88 bytes (number, time stamp, checksum, file name) in memory and in a
  file; a client asks for everything after the last number it has seen and applies it.
\<close>

section \<open>The log of the server\<close>

definition ssgmt :: nat where "ssgmt = 88"
definition max_size :: nat where "max_size = 10000000"

record hstf =
  h_size :: nat
  h_content :: bytes
  h_p :: uint64
  h_disk :: bytes

text \<open>
  \<open>init\<close>, after the configuration was read: the size limit it gives and the log file, if
  there is one.
\<close>

definition hstf_init :: "int64 \<Rightarrow> bytes option \<Rightarrow> hstf" where
  "hstf_init oplog_size_bytes file =
     (let size = (if unat oplog_size_bytes > max_size then max_size else unat oplog_size_bytes) in
      case file of
        None \<Rightarrow> \<lparr>h_size = size, h_content = [], h_p = 0, h_disk = []\<rparr>
      | Some c \<Rightarrow>
          if length c mod ssgmt \<noteq> 0 then \<lparr>h_size = size, h_content = [], h_p = 0, h_disk = []\<rparr>
          else if c \<noteq> [] then
            \<lparr>h_size = size, h_content = c,
             h_p = chars_to_numeric (take 8 (drop (length c - ssgmt) c)), h_disk = c\<rparr>
          else \<lparr>h_size = size, h_content = c, h_p = 0, h_disk = c\<rparr>)"

definition hstf_record :: "uint64 \<Rightarrow> string \<Rightarrow> int64 \<Rightarrow> int64 \<Rightarrow> bytes" where
  "hstf_record p filename tms crc32 =
     (let a = numeric_to_chars p 8 @ numeric_to_chars tms 8 @ numeric_to_chars crc32 8 @ filename;
          a = (if length a > ssgmt then take ssgmt a else a)
      in a @ replicate (ssgmt - length a) (CHR 0x00))"

definition hstf_add :: "string \<Rightarrow> int64 \<Rightarrow> int64 \<Rightarrow> hstf \<Rightarrow> hstf" where
  "hstf_add filename tms crc32 h =
     (let p = h_p h + 1; a = hstf_record p filename tms crc32 in
      h\<lparr>h_p := p, h_content := h_content h @ a, h_disk := h_disk h @ a\<rparr>)"

definition hstf_clear :: "hstf \<Rightarrow> hstf" where
  "hstf_clear h =
     (if length (h_content h) > h_size h then
        (let d = (length (h_content h) - h_size h) div ssgmt;
             c = drop (d * ssgmt) (h_content h)
         in h\<lparr>h_content := c, h_disk := c\<rparr>)
      else h)"

text \<open>The number a query asks for: the digits after \<open>p=\<close> up to the next \<open>&\<close>.\<close>

definition query_number :: "string \<Rightarrow> uint64" where
  "query_number qry =
     (case str_find qry ''p='' 0 of
        None \<Rightarrow> 0
      | Some f \<Rightarrow>
          (case str_find qry ''&'' (f + 2) of
             None \<Rightarrow> snd (stoi_ulong (drop (f + 2) qry) 0)
           | Some fe \<Rightarrow> snd (stoi_ulong (take (fe - (f + 2)) (drop (f + 2) qry)) 0)))"

text \<open>\<open>content.substr(from)\<close> for the records after number \<open>c\<close>.\<close>

definition log_tail :: "uint64 \<Rightarrow> hstf \<Rightarrow> bytes res" where
  "log_tail c h =
     (let sb = sint ((h_p h - c) * of_nat ssgmt);
          from = int (length (h_content h)) - sb;
          from = (if from < 0 then 0 else from)
      in substr_from (h_content h) (nat from))"

definition hstf_get :: "string \<Rightarrow> hstf \<Rightarrow> string res" where
  "hstf_get qry h =
     (let c = query_number qry; r = ''{\"p\":'' @ to_string (uint (h_p h)) in
      if c < h_p h then
        bind_res (log_tail c h) (\<lambda>t.
          Inr (r @ '',\"d\":\"'' @ base64_encode t @ ''\"'' @ '',\"ssgmt\":'' @ to_string (int ssgmt) @ ''}''))
      else Inr (r @ ''}''))"

section \<open>The client\<close>

text \<open>The members of the reply the client looks at, as the JSON reader returns them.\<close>

record hstf_reply =
  r_p :: "int64 option"
  r_d :: "string option"
  r_ssgmt :: "int32 option"

text \<open>
  \<open>process\<close>: the arguments of the call of \<open>remove_file_by_tms\<close>; too short a record throws.
\<close>

definition process :: "bytes \<Rightarrow> (string \<times> int64 \<times> int64) res" where
  "process v =
     bind_res (substr v 8 8) (\<lambda>t. bind_res (substr v 16 8) (\<lambda>c. bind_res (substr_from v 24) (\<lambda>filename.
       Inr (case str_find filename [CHR 0x00] 0 of None \<Rightarrow> filename | Some f_end \<Rightarrow> take f_end filename,
            chars_to_numeric t, chars_to_numeric c))))"

text \<open>
  The loop over the records of a reply, with the calls it makes, oldest first; an
  exception ends it.  \<^const>\<open>None\<close>: it does not end.
\<close>

partial_function (option) reply_loop ::
  "int32 \<Rightarrow> bytes \<Rightarrow> int32 \<Rightarrow> (string \<times> int64 \<times> int64) list \<Rightarrow> (bool \<times> (string \<times> int64 \<times> int64) list) option" where
  "reply_loop sg d el calls =
     (if length d \<ge> size_of_int32 (sg * (el + 1)) then
        (case bind_res (substr d (size_of_int32 (sg * el)) (size_of_int32 sg)) process of
           Inl e \<Rightarrow> Some (False, calls)
         | Inr c \<Rightarrow> reply_loop sg d (el + 1) (calls @ [c]))
      else Some (True, calls))"

text \<open>
  One poll: \<open>parse\<close> is the JSON reader.  The result is the new value of \<open>remote\<close> and the
  removals the client carries out.
\<close>

definition client_poll ::
  "(string \<Rightarrow> hstf_reply option) \<Rightarrow> string \<Rightarrow> uint64 \<Rightarrow> (uint64 \<times> (string \<times> int64 \<times> int64) list) option" where
  "client_poll parse r remote =
     (case parse r of
        None \<Rightarrow> Some (remote, [])
      | Some root \<Rightarrow>
          (case (case (r_d root, r_ssgmt root) of
                   (Some d, Some sg) \<Rightarrow> reply_loop sg (base64_decode d) 0 []
                 | _ \<Rightarrow> Some (True, [])) of
             None \<Rightarrow> None
           | Some (ok, calls) \<Rightarrow>
               Some (if ok then (case r_p root of None \<Rightarrow> remote | Some up \<Rightarrow> up) else remote, calls)))"

definition client_query :: "uint64 \<Rightarrow> string" where
  "client_query remote = ''p='' @ to_string (uint remote)"

section \<open>Records\<close>

type_synonym log_entry = "string \<times> int64 \<times> int64"

text \<open>A file name as it comes back from the log: cut to 64 bytes and at the first zero.\<close>

definition stored_name :: "string \<Rightarrow> string" where
  "stored_name filename = takeWhile (\<lambda>c. c \<noteq> CHR 0x00) (take 64 filename)"

definition stored :: "log_entry \<Rightarrow> log_entry" where
  "stored e = (stored_name (fst e), snd e)"

lemma length_hstf_record [simp]: "length (hstf_record p f t c) = 88"
  by (simp add: hstf_record_def ssgmt_def Let_def)

lemma hstf_record_fields:
  "hstf_record p f t c = numeric_to_chars p 8 @ numeric_to_chars t 8 @ numeric_to_chars c 8
     @ take 64 f @ replicate (64 - length f) (CHR 0x00)"
  by (simp add: hstf_record_def ssgmt_def Let_def)

lemma find_zero:
  "(case find_at [CHR 0x00] xs 0 of None \<Rightarrow> xs | Some n \<Rightarrow> take n xs) = takeWhile (\<lambda>c. c \<noteq> CHR 0x00) xs"
proof (cases "CHR 0x00 \<in> set xs")
  case True
  then obtain ys zs where "xs = ys @ CHR 0x00 # zs" "CHR 0x00 \<notin> set ys"
    using split_list_first[OF True] by blast
  moreover from this(2) have "takeWhile (\<lambda>c. c \<noteq> CHR 0x00) ys = ys"
    by (simp only: takeWhile_eq_all_conv) blast
  ultimately show ?thesis using find_at_char[of "CHR 0x00" ys zs 0] by (simp add: takeWhile_tail)
next
  case False
  then have "takeWhile (\<lambda>c. c \<noteq> CHR 0x00) xs = xs" by (simp only: takeWhile_eq_all_conv) blast
  then show ?thesis by (simp only: find_at_char_none[OF False] option.case)
qed

lemma process_record: "process (hstf_record p f t c) = Inr (stored (f, t, c))"
proof -
  let ?n = "take 64 f @ replicate (64 - length f) (CHR 0x00)"
  have f: "take 8 (drop 8 (hstf_record p f t c)) = numeric_to_chars t 8"
    "take 8 (drop 16 (hstf_record p f t c)) = numeric_to_chars c 8"
    "drop 24 (hstf_record p f t c) = ?n"
    by (simp_all add: hstf_record_fields)
  have "takeWhile (\<lambda>c. c \<noteq> CHR 0x00) (xs @ replicate m (CHR 0x00)) = takeWhile (\<lambda>c. c \<noteq> CHR 0x00) xs" for xs m
    by (induction xs) (simp_all add: takeWhile_replicate)
  then have "takeWhile (\<lambda>c. c \<noteq> CHR 0x00) ?n = stored_name f" by (simp add: stored_name_def)
  then show ?thesis
    using find_zero[of ?n] by (simp add: process_def f str_find_def stored_def)
qed

section \<open>The log as a list of entries\<close>

text \<open>The records of entries numbered up to \<open>p\<close>.\<close>

primrec log_bytes :: "uint64 \<Rightarrow> log_entry list \<Rightarrow> bytes" where
  "log_bytes p [] = []"
| "log_bytes p (e # es) =
     hstf_record (p - of_nat (length es)) (fst e) (fst (snd e)) (snd (snd e)) @ log_bytes p es"

definition log_inv :: "log_entry list \<Rightarrow> hstf \<Rightarrow> bool" where
  "log_inv es h \<longleftrightarrow> h_content h = log_bytes (h_p h) es \<and> h_disk h = h_content h"

lemma length_log_bytes [simp]: "length (log_bytes p es) = 88 * length es"
  by (induction es) simp_all

lemma log_bytes_snoc:
  "log_bytes (p + 1) (es @ [e]) = log_bytes p es @ hstf_record (p + 1) (fst e) (fst (snd e)) (snd (snd e))"
proof (induction es)
  case (Cons e' es)
  have "p + 1 - of_nat (length (es @ [e])) = p - of_nat (length es)" by simp
  then show ?case using Cons by simp
qed simp

lemma drop_log_bytes: "drop (88 * k) (log_bytes p es) = log_bytes p (drop k es)"
proof (induction es arbitrary: k)
  case (Cons e es)
  then show ?case by (cases k) simp_all
qed simp

lemma log_inv_add: "log_inv es h \<Longrightarrow> log_inv (es @ [(f, t, c)]) (hstf_add f t c h)"
  by (simp add: log_inv_def hstf_add_def Let_def log_bytes_snoc)

lemma log_inv_clear:
  assumes "log_inv es h"
  shows "log_inv (drop ((88 * length es - h_size h) div 88) es) (hstf_clear h)"
  using assms
  by (simp add: log_inv_def hstf_clear_def Let_def ssgmt_def mult.commute[of _ 88] drop_log_bytes)

lemma log_inv_init_empty: "log_inv [] (hstf_init sz None)"
  by (simp add: log_inv_def hstf_init_def Let_def)

text \<open>A restart finds the log as it was.\<close>

lemma last_record_number:
  assumes "es \<noteq> []"
  shows "take 8 (drop (length (log_bytes p es) - 88) (log_bytes p es)) = numeric_to_chars p 8"
proof -
  have "88 * length es - 88 = 88 * (length es - 1)" by simp
  moreover obtain e where "drop (length es - 1) es = [e]"
    using assms by (metis append_butlast_last_id append_eq_conv_conj length_butlast)
  ultimately show ?thesis
    using drop_log_bytes[of "length es - 1" p es] by (simp add: hstf_record_fields)
qed

lemma log_inv_restart:
  assumes "log_inv es h" "es \<noteq> []"
  shows "log_inv es (hstf_init sz (Some (h_disk h)))" "h_p (hstf_init sz (Some (h_disk h))) = h_p h"
proof -
  have c: "h_disk h = log_bytes (h_p h) es" "log_bytes (h_p h) es \<noteq> []"
    using assms length_log_bytes[of "h_p h" es] by (auto simp: log_inv_def simp del: length_log_bytes)
  have "h_p (hstf_init sz (Some (h_disk h))) = h_p h \<and> log_inv es (hstf_init sz (Some (h_disk h)))"
    using last_record_number[OF assms(2), of "h_p h"] c(2)
    by (simp add: hstf_init_def c(1) ssgmt_def Let_def log_inv_def)
  then show "log_inv es (hstf_init sz (Some (h_disk h)))" "h_p (hstf_init sz (Some (h_disk h))) = h_p h"
    by simp_all
qed

section \<open>Serving and applying\<close>

lemma query_number_client: "query_number (client_query c) = c"
proof -
  have d: "\<forall>x\<in>set (nat_to_string (nat (uint c))). isdigit x" by (rule nat_to_string_digits)
  have amp: "CHR ''&'' \<notin> set (to_string (uint c))"
    using d by (auto simp: to_string_def isdigit_def)
  have q: "str_find (client_query c) ''p='' 0 = Some 0"
    by (simp add: client_query_def str_find_def)
  have "str_find (client_query c) ''&'' 2 = None"
    using amp by (simp add: client_query_def str_find_def find_at_char_none)
  then show ?thesis
    using q stoi_ulong_to_string[of c 0]
    by (simp add: query_number_def client_query_def numeral_2_eq_2)
qed

lemma sint_times_88:
  fixes x :: uint64
  assumes "unat x * 88 < 2 ^ 63"
  shows "sint (x * 88) = int (88 * unat x)"
proof -
  have "x * 88 = of_nat (88 * unat x)" by simp
  moreover have "sint (of_nat (88 * unat x) :: uint64) = int (88 * unat x)"
    using assms by (intro sint_of_nat_64) simp
  ultimately show ?thesis by (simp only:)
qed

text \<open>The served bytes are the retained records after number \<open>c\<close>.\<close>

lemma log_tail_entries:
  assumes "log_inv es h" "c < h_p h" "unat (h_p h - c) * 88 < 2 ^ 63"
  shows "log_tail c h = Inr (log_bytes (h_p h) (drop (length es - unat (h_p h - c)) es))"
proof -
  define k where "k = unat (h_p h - c)"
  have s: "sint ((h_p h - c) * of_nat ssgmt) = int (88 * k)"
    using sint_times_88[OF assms(3)] by (simp only: ssgmt_def of_nat_numeral k_def)
  have n: "nat (if int (88 * length es) - int (88 * k) < 0 then 0 else int (88 * length es) - int (88 * k))
      = 88 * (length es - k)" by auto
  have l: "length (h_content h) = 88 * length es" using assms(1) by (simp add: log_inv_def)
  have "log_tail c h = substr_from (h_content h) (88 * (length es - k))"
    unfolding log_tail_def s Let_def l n ..
  also have "\<dots> = Inr (drop (88 * (length es - k)) (log_bytes (h_p h) es))"
    using assms(1) by (simp add: log_inv_def)
  finally show ?thesis unfolding k_def[symmetric] drop_log_bytes .
qed

lemma reply_loop_entries:
  assumes "88 * (length es + 1) < 2 ^ 31" "k \<le> length es"
  shows "reply_loop 88 (log_bytes p es) (of_nat k) calls = Some (True, calls @ map stored (drop k es))"
  using assms(2)
proof (induction "length es - k" arbitrary: k calls)
  case 0
  have "size_of_int32 (88 * (of_nat k + 1)) = 88 * (k + 1)"
    using size_of_int32_nat[of "88 * (k + 1)"] assms(1) 0 by (simp add: algebra_simps)
  then show ?case using 0 by (subst reply_loop.simps) simp
next
  case (Suc m)
  then have k: "k < length es" by simp
  obtain f t c where e: "es ! k = (f, t, c)" by (cases "es ! k")
  have sz: "size_of_int32 (88 * (of_nat k + 1)) = 88 * (k + 1)" "size_of_int32 (88 * of_nat k) = 88 * k"
    "size_of_int32 88 = 88" "size_of_int32 (88 + 88 * of_nat k) = 88 * (k + 1)"
    using size_of_int32_nat[of "88 * (k + 1)"] size_of_int32_nat[of "88 * k"] size_of_int32_nat[of 88] assms(1) k
    by (simp_all add: algebra_simps)
  have "drop (88 * k) (log_bytes p es) = log_bytes p (es ! k # drop (Suc k) es)"
    by (simp only: drop_log_bytes Cons_nth_drop_Suc[OF k])
  then have "take 88 (drop (88 * k) (log_bytes p es)) = hstf_record (p - of_nat (length es - Suc k)) f t c"
    by (simp add: e)
  then have "reply_loop 88 (log_bytes p es) (of_nat k) calls =
      reply_loop 88 (log_bytes p es) (of_nat (Suc k)) (calls @ [stored (f, t, c)])"
    using k by (subst reply_loop.simps) (simp add: sz process_record add.commute)
  also have "\<dots> = Some (True, (calls @ [stored (f, t, c)]) @ map stored (drop (Suc k) es))"
    using Suc by (intro Suc.hyps(1)) simp_all
  finally show ?case by (simp add: Cons_nth_drop_Suc[OF k, symmetric] e)
qed

section \<open>Properties\<close>

text \<open>The text of a reply with data, and what the JSON reader is expected to find in it.\<close>

definition reply_text :: "uint64 \<Rightarrow> string \<Rightarrow> string" where
  "reply_text p d = ''{\"p\":'' @ to_string (uint p) @ '',\"d\":\"'' @ d @ ''\",\"ssgmt\":88}''"

text \<open>C24. Replication: the log after any history of additions, clearings and restarts holds
  consecutively numbered records; a client that has seen the records up to number \<open>c\<close> and
  asks for the rest carries out exactly the removals logged after \<open>c\<close> that the log still holds,
  oldest first (names as the record stores them), and then stands at the number of the server.\<close>

theorem hstf_poll_applies_tail:
  assumes inv: "log_inv es h" and c: "c < h_p h"
    and reader: "\<And>p d. set d \<subseteq> insert (CHR ''='') (set base64_chars) \<Longrightarrow>
        parse (reply_text p d) = Some \<lparr>r_p = Some p, r_d = Some d, r_ssgmt = Some 88\<rparr>"
    and small: "unat (h_p h - c) * 88 < 2 ^ 63" "88 * (length es + 1) < 2 ^ 31"
  shows "\<exists>r. hstf_get (client_query c) h = Inr r
    \<and> client_poll parse r c = Some (h_p h, map stored (drop (length es - unat (h_p h - c)) es))"
proof -
  let ?es = "drop (length es - unat (h_p h - c)) es"
  let ?d = "base64_encode (log_bytes (h_p h) ?es)"
  have s: "to_string 88 = ''88''"
    by code_simp
  have d: "set ?d \<subseteq> insert (CHR ''='') (set base64_chars)" "base64_decode ?d = log_bytes (h_p h) ?es"
    by (simp_all add: base64_encode_def set_encode_bytes decode_encode_bytes)
  have "hstf_get (client_query c) h = Inr (reply_text (h_p h) ?d)"
    using c log_tail_entries[OF inv c small(1)]
    by (simp add: hstf_get_def query_number_client reply_text_def ssgmt_def s Let_def)
  moreover have "client_poll parse (reply_text (h_p h) ?d) c = Some (h_p h, map stored ?es)"
    using reader[OF d(1)] reply_loop_entries[of ?es 0 "h_p h" "[]"] small(2) d(2)
    by (simp add: client_poll_def)
  ultimately show ?thesis by blast
qed

text \<open>A reader for just these texts.\<close>

definition mini_parse :: "string \<Rightarrow> hstf_reply option" where
  "mini_parse r =
     (let p = takeWhile isdigit (drop 5 r);
          d = takeWhile (\<lambda>c. c \<noteq> CHR ''\"'') (drop 6 (drop (length p) (drop 5 r)))
      in Some \<lparr>r_p = Some (of_nat (digits_val p)), r_d = Some d, r_ssgmt = Some 88\<rparr>)"

lemma mini_parse_reply:
  assumes "set d \<subseteq> insert (CHR ''='') (set base64_chars)"
  shows "mini_parse (reply_text p d) = Some \<lparr>r_p = Some p, r_d = Some d, r_ssgmt = Some 88\<rparr>"
proof -
  let ?n = "nat_to_string (unat p)"
  have n: "to_string (uint p) = ?n" by (simp add: to_string_def)
  have "takeWhile isdigit (?n @ CHR '','' # r) = ?n" for r
    using nat_to_string_digits[of "unat p"] by (subst takeWhile_append2) (auto simp: isdigit_def)
  then have tp: "takeWhile isdigit (drop 5 (reply_text p d)) = ?n"
    by (simp add: reply_text_def n)
  have "CHR ''\"'' \<notin> set base64_chars" by (simp add: base64_chars_def)
  then have "c \<noteq> CHR ''\"''" if "c \<in> set d" for c using assms that by auto
  then have "takeWhile (\<lambda>c. c \<noteq> CHR ''\"'') (d @ CHR ''\"'' # r) = d" for r
    by (subst takeWhile_append2) auto
  then have td: "takeWhile (\<lambda>c. c \<noteq> CHR ''\"'') (drop 6 (drop (length ?n) (drop 5 (reply_text p d)))) = d"
    by (simp add: reply_text_def n del: drop_drop)
  show ?thesis
    unfolding mini_parse_def tp Let_def td by (simp add: digits_val_nat_to_string)
qed

theorem hstf_poll_applies_tail_witness:
  "\<exists>r. hstf_get (client_query 0) (hstf_add ''a'' 5 6 (hstf_init 1000 None)) = Inr r
    \<and> client_poll mini_parse r 0 = Some (1, [(''a'', 5, 6)])"
proof -
  have "log_inv ([] @ [(''a'', 5, 6)]) (hstf_add ''a'' 5 6 (hstf_init 1000 None))"
    by (rule log_inv_add[OF log_inv_init_empty])
  moreover have p: "h_p (hstf_add ''a'' 5 6 (hstf_init 1000 None)) = 1"
    by (simp add: hstf_add_def hstf_init_def Let_def)
  moreover have "map stored [(''a'', 5, 6)] = [(''a'', 5, 6)]"
    by (simp add: stored_def stored_name_def)
  ultimately show ?thesis
    using hstf_poll_applies_tail[of "[(''a'', 5, 6)]" "hstf_add ''a'' 5 6 (hstf_init 1000 None)" 0 mini_parse]
      mini_parse_reply by simp
qed

text \<open>C25. The log survives its operations: an addition appends one record with the next number,
  clearing drops only the oldest records and leaves less than one record more than the limit,
  and a restart from the file finds the same records and the same number.\<close>

theorem hstf_log_maintained:
  assumes "log_inv es h"
  shows "log_inv (es @ [(f, t, c)]) (hstf_add f t c h) \<and> h_p (hstf_add f t c h) = h_p h + 1
    \<and> (\<exists>k. log_inv (drop k es) (hstf_clear h)) \<and> h_p (hstf_clear h) = h_p h
    \<and> length (h_content (hstf_clear h)) < h_size h + 88
    \<and> (es \<noteq> [] \<longrightarrow> log_inv es (hstf_init sz (Some (h_disk h))) \<and> h_p (hstf_init sz (Some (h_disk h))) = h_p h)"
proof -
  have "length (h_content (hstf_clear h)) < h_size h + 88"
  proof (cases "length (h_content h) > h_size h")
    case True
    let ?n = "length (h_content h) - h_size h"
    have "?n mod 88 < 88" by simp
    moreover have "?n = ?n div 88 * 88 + ?n mod 88" by simp
    ultimately show ?thesis using True by (simp add: hstf_clear_def ssgmt_def Let_def)
  next
    case False
    then show ?thesis by (simp add: hstf_clear_def)
  qed
  moreover have "h_p (hstf_clear h) = h_p h" by (simp add: hstf_clear_def Let_def)
  moreover have "h_p (hstf_add f t c h) = h_p h + 1" by (simp add: hstf_add_def Let_def)
  ultimately show ?thesis
    using assms log_inv_add[OF assms, of f t c] log_inv_clear[OF assms] log_inv_restart[OF assms] by blast
qed

theorem hstf_log_maintained_witness:
  "log_inv [(''a'', 5, 6)] (hstf_init 10 (Some (h_disk (hstf_add ''a'' 5 6 (hstf_init 1000 None)))))"
proof -
  have "log_inv ([] @ [(''a'', 5, 6)]) (hstf_add ''a'' 5 6 (hstf_init 1000 None))"
    by (rule log_inv_add[OF log_inv_init_empty])
  then show ?thesis
    using hstf_log_maintained[of "[(''a'', 5, 6)]" "hstf_add ''a'' 5 6 (hstf_init 1000 None)" _ _ _ 10] by simp
qed

end
