(* ===== verification/Crc32.thy ===== *)
theory Crc32
  imports Prelude
begin

unbundle bit_operations_syntax

text \<open>
  The checksum of \<open>libs/crc32.h\<close>: the table of 256 entries the constructor fills and the
  table-driven hash, on \<open>unsigned long\<close> of 64 bits. It is shown equal to the bitwise definition of
  the checksum, and to tell apart strings that differ in one byte.
\<close>

section \<open>The code\<close>

definition crc_step :: "uint64 \<Rightarrow> uint64" where
  "crc_step crc = (if crc AND 1 \<noteq> 0 then drop_bit 1 crc XOR 0xEDB88320 else drop_bit 1 crc)"

definition crc_table :: "uint64 list" where
  "crc_table = map (\<lambda>i. (crc_step ^^ 8) (of_nat i)) [0..<256]"

text \<open>A \<open>char\<close> is signed: it is sign-extended before the exclusive or.\<close>

definition char_ulong :: "char \<Rightarrow> uint64" where
  "char_ulong c = scast (of_char c :: 8 word)"

definition get_hash :: "string \<Rightarrow> uint32" where
  "get_hash buf =
     ucast (foldl (\<lambda>crc c. crc_table ! unat ((crc XOR char_ulong c) AND 0xFF) XOR drop_bit 8 crc) 0xFFFFFFFF buf
            XOR 0xFFFFFFFF)"

section \<open>The bitwise checksum\<close>

definition crc_byte :: "uint64 \<Rightarrow> char \<Rightarrow> uint64" where
  "crc_byte crc c = (crc_step ^^ 8) (crc XOR ucast (of_char c :: 8 word))"

lemma and_1_bit: "(x :: uint64) AND 1 \<noteq> 0 \<longleftrightarrow> bit x 0"
  by (simp add: and_one_eq bit_0 mod_2_eq_odd)

lemma bit_crc_step:
  "bit (crc_step x) n \<longleftrightarrow> bit x (Suc n) \<noteq> (bit x 0 \<and> bit (0xEDB88320 :: uint64) n)"
  by (auto simp: crc_step_def and_1_bit bit_drop_bit_eq bit_xor_iff)

lemma crc_step_xor: "crc_step (x XOR y) = crc_step x XOR crc_step y"
  by (rule bit_eqI) (auto simp: bit_crc_step bit_xor_iff)

lemma crc_steps_xor: "(crc_step ^^ n) (x XOR y) = (crc_step ^^ n) x XOR (crc_step ^^ n) y"
  by (induction n) (simp_all add: crc_step_xor)

lemma crc_steps_high: "(\<And>i. i < n \<Longrightarrow> \<not> bit x i) \<Longrightarrow> (crc_step ^^ n) x = drop_bit n x"
proof (induction n arbitrary: x)
  case (Suc n)
  have "crc_step x = drop_bit 1 x" using Suc.prems[of 0] by (simp add: crc_step_def and_1_bit)
  then have "(crc_step ^^ Suc n) x = (crc_step ^^ n) (drop_bit 1 x)" by (simp add: funpow_swap1)
  also have "\<dots> = drop_bit n (drop_bit 1 x)" using Suc.prems by (intro Suc.IH) (simp add: bit_drop_bit_eq)
  finally show ?case by (simp add: drop_bit_drop_bit)
qed simp

lemma and_255: "(x :: uint64) AND 0xFF = take_bit 8 x"
proof -
  have "(0xFF :: uint64) = mask 8" by (simp add: mask_eq_exp_minus_1)
  then show ?thesis by (simp only: take_bit_eq_mask)
qed

lemma table_entry: "crc_table ! unat (take_bit 8 x) = (crc_step ^^ 8) (take_bit 8 x)"
proof -
  have "unat (take_bit 8 x) < 256" using take_bit_nat_less_exp[of 8 "unat x"] by (simp add: unsigned_take_bit_eq)
  then show ?thesis by (simp add: crc_table_def)
qed

lemma bit_char: "bit (of_char c :: 8 word) n \<Longrightarrow> n < 8"
  by (drule bit_imp_le_length) simp

lemma bit_ulong: "bit (x :: uint64) n \<Longrightarrow> n < 64"
  by (drule bit_imp_le_length) simp

lemma take_bit_char: "take_bit 8 (char_ulong c) = ucast (of_char c :: 8 word)"
proof (rule bit_eqI)
  fix n
  show "bit (take_bit 8 (char_ulong c)) n = bit (ucast (of_char c :: 8 word) :: uint64) n"
  proof (cases "n < 8")
    case True
    then have "min 7 n = n" by simp
    then show ?thesis using True by (simp add: char_ulong_def bit_take_bit_iff bit_signed_iff bit_unsigned_iff)
  next
    case False
    then show ?thesis by (auto simp: bit_take_bit_iff bit_unsigned_iff dest: bit_char)
  qed
qed

lemma low_high_xor: "(z :: uint64) = take_bit 8 z XOR push_bit 8 (drop_bit 8 z)"
proof (rule bit_eqI)
  fix n
  assume "possible_bit TYPE(uint64) n"
  then show "bit z n = bit (take_bit 8 z XOR push_bit 8 (drop_bit 8 z)) n"
    by (cases "n < 8") (simp_all add: bit_take_bit_iff bit_xor_iff bit_push_bit_iff bit_drop_bit_eq not_less)
qed

lemma crc_byte_table:
  "crc_table ! unat ((crc XOR char_ulong c) AND 0xFF) XOR drop_bit 8 crc = crc_byte crc c"
proof -
  let ?u = "ucast (of_char c :: 8 word) :: uint64"
  let ?z = "crc XOR ?u"
  have u: "take_bit 8 ?u = ?u" "drop_bit 8 ?u = 0"
    by (rule bit_eqI; auto simp: bit_take_bit_iff bit_drop_bit_eq bit_unsigned_iff dest: bit_char)+
  have low: "take_bit 8 (crc XOR char_ulong c) = take_bit 8 ?z"
    by (simp add: take_bit_xor take_bit_char u)
  have "?z = take_bit 8 ?z XOR push_bit 8 (drop_bit 8 ?z)"
    by (rule low_high_xor)
  then have "(crc_step ^^ 8) ?z = (crc_step ^^ 8) (take_bit 8 ?z) XOR (crc_step ^^ 8) (push_bit 8 (drop_bit 8 ?z))"
    by (metis crc_steps_xor)
  also have "(crc_step ^^ 8) (push_bit 8 (drop_bit 8 ?z)) = drop_bit 8 (push_bit 8 (drop_bit 8 ?z))"
    by (rule crc_steps_high) (simp add: bit_push_bit_iff bit_xor_iff)
  also have "\<dots> = drop_bit 8 crc"
    by (rule bit_eqI) (auto simp: bit_drop_bit_eq bit_push_bit_iff bit_xor_iff bit_unsigned_iff dest: bit_char bit_ulong)
  finally show ?thesis by (simp only: and_255 low table_entry crc_byte_def)
qed

lemma get_hash_bitwise: "get_hash buf = ucast (foldl crc_byte 0xFFFFFFFF buf XOR 0xFFFFFFFF)"
  unfolding get_hash_def crc_byte_table ..

section \<open>Distinguishing strings\<close>

text \<open>The states of the checksum stay below \<open>2\<^sup>3\<^sup>2\<close>, where a step is injective.\<close>

definition below32 :: "uint64 \<Rightarrow> bool" where "below32 x \<longleftrightarrow> (\<forall>n \<ge> 32. \<not> bit x n)"

lemma below32_poly: "below32 0xEDB88320"
proof -
  have "take_bit 32 (0xEDB88320 :: uint64) = 0xEDB88320" by simp
  then show ?thesis unfolding below32_def by (metis bit_take_bit_iff not_le)
qed

lemma below32_step: "below32 x \<Longrightarrow> below32 (crc_step x)"
  using below32_poly by (auto simp: below32_def bit_crc_step)

lemma below32_steps: "below32 x \<Longrightarrow> below32 ((crc_step ^^ n) x)"
  by (induction n) (simp_all add: below32_step)

lemma below32_xor: "below32 x \<Longrightarrow> below32 y \<Longrightarrow> below32 (x XOR y)"
  by (auto simp: below32_def bit_xor_iff)

lemma below32_char: "below32 (ucast (of_char c :: 8 word))"
  by (auto simp: below32_def bit_unsigned_iff dest: bit_char)

lemma below32_byte: "below32 x \<Longrightarrow> below32 (crc_byte x c)"
  by (simp add: crc_byte_def below32_steps below32_xor below32_char)

lemma crc_step_inj:
  assumes "below32 x" "below32 y" "crc_step x = crc_step y"
  shows "x = y"
proof -
  have poly: "bit (0xEDB88320 :: uint64) 31" by simp
  have b: "bit x (Suc n) \<noteq> (bit x 0 \<and> bit (0xEDB88320 :: uint64) n) \<longleftrightarrow>
      bit y (Suc n) \<noteq> (bit y 0 \<and> bit (0xEDB88320 :: uint64) n)" for n
    using assms(3) unfolding bit_crc_step[symmetric] by simp
  have z: "\<not> bit x 32" "\<not> bit y 32" using assms(1,2) by (auto simp: below32_def)
  have "bit x 0 \<longleftrightarrow> bit y 0" using b[of 31] z poly by simp
  moreover have "bit x (Suc n) \<longleftrightarrow> bit y (Suc n)" for n using b[of n] calculation by auto
  ultimately show ?thesis by (intro bit_eqI) (metis not0_implies_Suc)
qed

lemma crc_steps_inj: "below32 x \<Longrightarrow> below32 y \<Longrightarrow> (crc_step ^^ n) x = (crc_step ^^ n) y \<Longrightarrow> x = y"
  by (induction n) (auto dest: crc_step_inj[OF below32_steps below32_steps])

lemma xor_cancel: "(x :: uint64) XOR y = x XOR z \<longleftrightarrow> y = z" "y XOR x = z XOR x \<longleftrightarrow> y = z"
  by (metis xor.assoc xor_self_eq xor.left_neutral xor.commute)+

lemma crc_byte_inj:
  assumes "below32 x" "below32 y"
  shows "crc_byte x c = crc_byte y c \<Longrightarrow> x = y" "crc_byte x c = crc_byte x d \<Longrightarrow> c = d"
proof -
  show "crc_byte x c = crc_byte y c \<Longrightarrow> x = y"
    unfolding crc_byte_def using crc_steps_inj[OF below32_xor[OF assms(1) below32_char] below32_xor[OF assms(2) below32_char]]
    by (metis xor_cancel(2))
  assume "crc_byte x c = crc_byte x d"
  then have "ucast (of_char c :: 8 word) = (ucast (of_char d :: 8 word) :: uint64)"
    unfolding crc_byte_def using crc_steps_inj[OF below32_xor[OF assms(1) below32_char] below32_xor[OF assms(1) below32_char]]
    by (metis xor_cancel(1))
  then have e: "bit (ucast (of_char c :: 8 word) :: uint64) n = bit (ucast (of_char d :: 8 word) :: uint64) n" for n
    by simp
  have "bit (of_char c :: 8 word) n = bit (of_char d :: 8 word) n" for n
    using e[of n] bit_char[of c n] bit_char[of d n] by (cases "n < 8") (auto simp: bit_unsigned_iff)
  then have "(of_char c :: 8 word) = of_char d" by (intro bit_eqI)
  then have "(of_nat (of_char c) :: 8 word) = of_nat (of_char d)" by (simp only: of_nat_of_char)
  then have "unat (of_nat (of_char c) :: 8 word) = unat (of_nat (of_char d) :: 8 word)" by (rule arg_cong)
  then show "c = d" by (simp only: unat_of_nat) (simp add: take_bit_nat_eq_self)
qed

lemma below32_fold: "below32 x \<Longrightarrow> below32 (foldl crc_byte x s)"
  by (induction s arbitrary: x) (simp_all add: below32_byte)

lemma crc_fold_inj: "below32 x \<Longrightarrow> below32 y \<Longrightarrow> foldl crc_byte x s = foldl crc_byte y s \<Longrightarrow> x = y"
proof (induction s arbitrary: x y)
  case (Cons c s)
  then have "crc_byte x c = crc_byte y c" using below32_byte by simp
  then show ?case using crc_byte_inj(1) Cons.prems(1,2) by blast
qed simp

lemma below32_start: "below32 0xFFFFFFFF"
proof -
  have "take_bit 32 (0xFFFFFFFF :: uint64) = 0xFFFFFFFF" by simp
  then show ?thesis unfolding below32_def by (metis bit_take_bit_iff not_le)
qed

lemma ucast_inj_below32:
  assumes "below32 x" "below32 y" "(ucast x :: uint32) = ucast y"
  shows "x = y"
proof (rule bit_eqI)
  fix n
  have "bit (ucast x :: uint32) n = bit (ucast y :: uint32) n" using assms(3) by simp
  then show "bit x n = bit y n" using assms(1,2) by (cases "n < 32") (auto simp: bit_unsigned_iff below32_def)
qed

section \<open>Properties\<close>


text \<open>Two strings that differ in exactly one byte have different checksums.\<close>

theorem get_hash_detects_byte:
  assumes "c \<noteq> d"
  shows "get_hash (xs @ c # ys) \<noteq> get_hash (xs @ d # ys)"
proof
  assume e: "get_hash (xs @ c # ys) = get_hash (xs @ d # ys)"
  let ?x = "foldl crc_byte 0xFFFFFFFF xs"
  have x: "below32 ?x" by (rule below32_fold[OF below32_start])
  have b: "below32 (foldl crc_byte (crc_byte ?x a) ys)" for a by (rule below32_fold[OF below32_byte[OF x]])
  have "foldl crc_byte (crc_byte ?x c) ys XOR 0xFFFFFFFF = foldl crc_byte (crc_byte ?x d) ys XOR 0xFFFFFFFF"
    using e unfolding get_hash_bitwise foldl_append foldl.simps
    by (rule ucast_inj_below32[OF below32_xor[OF b below32_start] below32_xor[OF b below32_start]])
  then have "foldl crc_byte (crc_byte ?x c) ys = foldl crc_byte (crc_byte ?x d) ys" by (simp only: xor_cancel)
  then have "crc_byte ?x c = crc_byte ?x d" by (rule crc_fold_inj[OF below32_byte[OF x] below32_byte[OF x]])
  then show False using crc_byte_inj(2)[OF x x] assms by blast
qed

theorem get_hash_detects_byte_witness: "get_hash (''da'' @ CHR ''t'' # ''a'') \<noteq> get_hash (''da'' @ CHR ''m'' # ''a'')"
  by (rule get_hash_detects_byte) simp

end
