(* ===== verification/Framing.thy ===== *)
theory Framing
  imports Cpp_Std "HOL-Library.Sublist"
begin

text \<open>
  The frames of the TCP protocol: both sides put a delimiter before and behind every message. Here is
  the server's reader (\<open>process_read\<close> and \<open>process_read2\<close> of \<open>epoll_v2.cpp\<close>, which take the bytes of one
  read and keep what is left for the next) and the client's (\<open>read_bytes\<close> of \<open>tcp_client.cpp\<close>).
\<close>

section \<open>The server's reader\<close>

text \<open>The message so far, the part of a delimiter so far, and the index of the delimiter's last byte seen.\<close>

record message_helper =
  mh_message :: bytes
  mh_del_message :: bytes
  mh_seek_delimeter :: int32

definition mh_clear :: message_helper where
  "mh_clear = \<lparr>mh_message = [], mh_del_message = [], mh_seek_delimeter = -1\<rparr>"

definition delimeter_pos :: "message_helper \<Rightarrow> nat" where
  "delimeter_pos m = size_of_int32 (mh_seek_delimeter m + 1)"

definition next_del :: "char \<Rightarrow> message_helper \<Rightarrow> message_helper" where
  "next_del ch m = m\<lparr>mh_seek_delimeter := mh_seek_delimeter m + 1, mh_del_message := mh_del_message m @ [ch]\<rparr>"

text \<open>A byte that does not go on with the delimiter: what was taken for one belongs to the message.\<close>

definition give_up_del :: "string \<Rightarrow> char \<Rightarrow> message_helper \<Rightarrow> char \<times> message_helper" where
  "give_up_del det del_char m =
     (if mh_del_message m \<noteq> []
      then (det ! 0, m\<lparr>mh_message := mh_message m @ mh_del_message m, mh_del_message := [], mh_seek_delimeter := -1\<rparr>)
      else (del_char, m))"

text \<open>The inner loop: up to the next byte that goes on with the delimiter.\<close>

fun scan_bytes :: "string \<Rightarrow> char \<Rightarrow> bytes \<Rightarrow> message_helper \<Rightarrow> bytes \<times> message_helper" where
  "scan_bytes det del_char [] m = ([], m)"
| "scan_bytes det del_char (ch # buf) m =
     (if ch = del_char then (buf, next_del ch m)
      else (case give_up_del det del_char m of (del_char, m) \<Rightarrow>
              if ch = del_char then (buf, next_del ch m)
              else scan_bytes det del_char buf (m\<lparr>mh_message := mh_message m @ [ch]\<rparr>)))"

definition f_add_message :: "message_helper \<Rightarrow> bytes list \<Rightarrow> bytes list" where
  "f_add_message m ret = (if mh_message m \<noteq> [] then ret @ [mh_message m] else ret)"

partial_function (option) read2_loop :: "string \<Rightarrow> bytes \<Rightarrow> message_helper \<Rightarrow> bytes list \<Rightarrow> (bytes list \<times> message_helper) option" where
  "read2_loop det buf m ret =
     (if buf = [] then Some (ret, m)
      else if delimeter_pos m < length det then
        (case scan_bytes det (det ! delimeter_pos m) buf m of (buf, m) \<Rightarrow>
           if buf = [] \<and> delimeter_pos m \<ge> length det then read2_loop det buf mh_clear (f_add_message m ret)
           else read2_loop det buf m ret)
      else read2_loop det buf mh_clear (f_add_message m ret))"

definition process_read2 :: "message_helper \<Rightarrow> bytes \<Rightarrow> string \<Rightarrow> (bytes list \<times> message_helper) option" where
  "process_read2 m buf det = read2_loop det buf m []"

text \<open>
  The recursive reader. \<open>depth\<close> counts the calls; beyond 30000 a byte that breaks off a delimiter makes
  it return at once.
\<close>

fun scan_rec :: "string \<Rightarrow> nat \<Rightarrow> char \<Rightarrow> bytes \<Rightarrow> message_helper \<Rightarrow> bytes option \<times> message_helper" where
  "scan_rec det depth del_char [] m = (None, m)"
| "scan_rec det depth del_char (ch # buf) m =
     (if ch = del_char then (Some buf, next_del ch m)
      else if mh_del_message m \<noteq> [] \<and> depth > 30000 then (None, m)
      else (case give_up_del det del_char m of (del_char, m) \<Rightarrow>
              if ch = del_char then (Some buf, next_del ch m)
              else scan_rec det depth del_char buf (m\<lparr>mh_message := mh_message m @ [ch]\<rparr>)))"

partial_function (option) f_read :: "string \<Rightarrow> nat \<Rightarrow> bytes \<Rightarrow> message_helper \<Rightarrow> bytes list \<Rightarrow> (bytes list \<times> message_helper) option" where
  "f_read det depth buf m ret =
     (if delimeter_pos m < length det then
        (case scan_rec det (depth + 1) (det ! delimeter_pos m) buf m of
           (None, m) \<Rightarrow> Some (ret, m)
         | (Some buf, m) \<Rightarrow> f_read det (depth + 1) buf m ret)
      else f_read det (depth + 1) buf mh_clear (f_add_message m ret))"

definition process_read :: "message_helper \<Rightarrow> bytes \<Rightarrow> string \<Rightarrow> (bytes list \<times> message_helper) option" where
  "process_read m buf det = f_read det 0 buf m []"

section \<open>The client's reader\<close>

text \<open>
  The bytes received so far and where to go on searching. \<open>read_bytes\<close> hands each complete message to
  \<open>pr\<close>; here they are returned.
\<close>

record client_buffer =
  cb_m :: bytes
  cb_s :: nat

definition check_step :: "string \<Rightarrow> client_buffer \<Rightarrow> (bytes list \<times> client_buffer) + client_buffer" where
  "check_step det b =
     (let m = cb_m b
      in case str_find m det (cb_s b) of
           Some f_del \<Rightarrow>
             if f_del = 0 then Inl ([], \<lparr>cb_m = drop (length det) m, cb_s = 0\<rparr>)
             else if f_del + length det = length m then Inl ([take f_del m], \<lparr>cb_m = [], cb_s = 0\<rparr>)
             else Inl ([take f_del m], \<lparr>cb_m = drop (f_del + length det) m, cb_s = 0\<rparr>)
         | None \<Rightarrow> Inr (b\<lparr>cb_s := (if length m > length det then length m - length det else cb_s b)\<rparr>))"

partial_function (option) check_loop :: "string \<Rightarrow> client_buffer \<Rightarrow> bytes list \<Rightarrow> (bytes list \<times> client_buffer) option" where
  "check_loop det b ret =
     (case check_step det b of
        Inl (ms, b) \<Rightarrow> check_loop det b (ret @ ms)
      | Inr b \<Rightarrow> Some (ret, b))"

definition read_bytes :: "string \<Rightarrow> bytes \<Rightarrow> client_buffer \<Rightarrow> (bytes list \<times> client_buffer) option" where
  "read_bytes det buf b = check_loop det (b\<lparr>cb_m := cb_m b @ buf\<rparr>) []"

declare read2_loop.simps [code] f_read.simps [code] check_loop.simps [code]

section \<open>The server reads byte by byte\<close>

text \<open>Between two bytes the helper holds a proper beginning of the delimiter.\<close>

definition helper_ok :: "string \<Rightarrow> message_helper \<Rightarrow> bool" where
  "helper_ok det m \<longleftrightarrow> mh_seek_delimeter m = of_nat (length (mh_del_message m)) - 1
     \<and> prefix (mh_del_message m) det \<and> length (mh_del_message m) < length det"

definition det_ok :: "string \<Rightarrow> bool" where
  "det_ok det \<longleftrightarrow> det \<noteq> [] \<and> length det < 2 ^ 31"

definition finish_message :: "string \<Rightarrow> message_helper \<Rightarrow> bytes list \<times> message_helper" where
  "finish_message det m = (if length (mh_del_message m) = length det then (f_add_message m [], mh_clear) else ([], m))"

definition byte_step :: "string \<Rightarrow> char \<Rightarrow> message_helper \<Rightarrow> message_helper" where
  "byte_step det ch m =
     (if ch = det ! length (mh_del_message m) then next_del ch m
      else (case give_up_del det (det ! 0) m of (_, m) \<Rightarrow>
              if ch = det ! 0 then next_del ch m else m\<lparr>mh_message := mh_message m @ [ch]\<rparr>))"

fun feed :: "string \<Rightarrow> bytes \<Rightarrow> message_helper \<Rightarrow> bytes list \<times> message_helper" where
  "feed det [] m = ([], m)"
| "feed det (ch # buf) m =
     (case finish_message det (byte_step det ch m) of (r, m) \<Rightarrow> (case feed det buf m of (r', m) \<Rightarrow> (r @ r', m)))"

lemma feed_append: "feed det (xs @ ys) m = (case feed det xs m of (r, m) \<Rightarrow> (case feed det ys m of (r', m) \<Rightarrow> (r @ r', m)))"
  by (induction xs arbitrary: m) (auto split: prod.splits)

lemma helper_ok_clear: "det_ok det \<Longrightarrow> helper_ok det mh_clear"
  by (simp add: helper_ok_def mh_clear_def det_ok_def)

lemma delimeter_pos_eq:
  "mh_seek_delimeter m = of_nat (length (mh_del_message m)) - 1 \<Longrightarrow> length (mh_del_message m) \<le> length det \<Longrightarrow> det_ok det
    \<Longrightarrow> delimeter_pos m = length (mh_del_message m)"
  by (simp add: delimeter_pos_def size_of_int32_nat det_ok_def)

text \<open>A state in which the delimiter is complete.\<close>

definition del_full :: "string \<Rightarrow> message_helper \<Rightarrow> bool" where
  "del_full det m \<longleftrightarrow> mh_seek_delimeter m = of_nat (length (mh_del_message m)) - 1 \<and> mh_del_message m = det"

lemma next_del_ok:
  assumes "helper_ok det m" "ch = det ! length (mh_del_message m)"
  shows "helper_ok det (next_del ch m) \<or> del_full det (next_del ch m)"
proof -
  obtain r where r: "det = mh_del_message m @ r" "r \<noteq> []" using assms(1) by (auto simp: helper_ok_def prefix_def)
  then have "det = (mh_del_message m @ [ch]) @ tl r" using assms(2) by (cases r) auto
  then show ?thesis using assms(1) by (cases "tl r") (auto simp: helper_ok_def del_full_def next_del_def prefix_def)
qed

lemma give_up_ok: "helper_ok det m \<Longrightarrow> det_ok det \<Longrightarrow> helper_ok det (snd (give_up_del det c m)) \<and> mh_del_message (snd (give_up_del det c m)) = []"
  by (auto simp: helper_ok_def give_up_del_def det_ok_def)

lemma byte_step_ok:
  assumes "helper_ok det m" "det_ok det"
  shows "helper_ok det (byte_step det ch m) \<or> del_full det (byte_step det ch m)"
  using assms next_del_ok[OF assms(1)] give_up_ok[OF assms, of "det ! 0"] next_del_ok[of det "snd (give_up_del det (det ! 0) m)" ch]
  by (auto simp: byte_step_def split: prod.splits) (auto simp: helper_ok_def)

lemma finish_ok: "helper_ok det m \<or> del_full det m \<Longrightarrow> det_ok det \<Longrightarrow> helper_ok det (snd (finish_message det m))"
  by (auto simp: finish_message_def helper_ok_clear) (auto simp: del_full_def)

lemma feed_ok: "helper_ok det m \<Longrightarrow> det_ok det \<Longrightarrow> helper_ok det (snd (feed det buf m))"
proof (induction buf arbitrary: m)
  case (Cons c cs)
  then show ?case using finish_ok[OF byte_step_ok[OF Cons.prems, of c]] by (auto split: prod.splits) (metis snd_conv)
qed simp

text \<open>One call of either inner loop.\<close>

lemma finish_helper_ok: "helper_ok det m \<Longrightarrow> finish_message det m = ([], m)"
  by (auto simp: finish_message_def helper_ok_def)

lemma scan_rec_feed:
  assumes "helper_ok det m" "det_ok det" "depth \<le> 30000"
    and "scan_rec det depth (det ! length (mh_del_message m)) buf m = (ro, m')"
  shows "case ro of
      None \<Rightarrow> helper_ok det m' \<and> feed det buf m = ([], m')
    | Some r \<Rightarrow> length r < length buf \<and> (helper_ok det m' \<or> del_full det m')
        \<and> feed det buf m = (case finish_message det m' of (e, m'') \<Rightarrow> (case feed det r m'' of (e', m'') \<Rightarrow> (e @ e', m'')))"
  using assms(1,4)
proof (induction buf arbitrary: m)
  case (Cons c cs)
  let ?b = "byte_step det c m"
  have b: "helper_ok det ?b \<or> del_full det ?b" by (rule byte_step_ok[OF Cons.prems(1) assms(2)])
  consider "ro = Some cs" "m' = ?b"
    | "helper_ok det ?b" "mh_del_message ?b = []" "scan_rec det depth (det ! length (mh_del_message ?b)) cs ?b = (ro, m')"
  proof (cases "c = det ! length (mh_del_message m)")
    case False
    let ?g = "snd (give_up_del det (det ! 0) m)"
    have g: "give_up_del det (det ! length (mh_del_message m)) m = (det ! 0, ?g)" by (auto simp: give_up_del_def)
    have o: "helper_ok det ?g" "mh_del_message ?g = []" using give_up_ok[OF Cons.prems(1) assms(2), of "det ! 0"] by auto
    have B: "?b = (if c = det ! 0 then next_del c ?g else ?g\<lparr>mh_message := mh_message ?g @ [c]\<rparr>)"
      using False by (simp add: byte_step_def split: prod.split)
    show ?thesis
    proof (cases "c = det ! 0")
      case True
      then show ?thesis using that(1) Cons.prems(2) False assms(3) g B by simp
    next
      case F0: False
      then have "mh_del_message ?b = []" "helper_ok det ?b" using B o by (auto simp: helper_ok_def)
      then show ?thesis using that(2) Cons.prems(2) False assms(3) g B F0 by simp
    qed
  qed (use Cons.prems(2) that(1) in \<open>auto simp: byte_step_def\<close>)
  then show ?case
  proof cases
    case 1
    then show ?thesis using b by simp
  next
    case 2
    then show ?thesis using Cons.IH[OF 2(1,3)] by (auto simp: finish_helper_ok split: option.splits prod.splits)
  qed
qed simp

lemma scan_bytes_rec:
  "scan_bytes det del_char buf m = (case scan_rec det 0 del_char buf m of (ro, m') \<Rightarrow> (case ro of None \<Rightarrow> [] | Some r \<Rightarrow> r, m'))"
  by (induction buf arbitrary: del_char m) (auto split: prod.splits)

lemma f_add_message_append: "f_add_message m ret = ret @ f_add_message m []"
  by (simp add: f_add_message_def)

lemma read2_loop_feed:
  assumes "helper_ok det m" "det_ok det"
  shows "read2_loop det buf m ret = Some (ret @ fst (feed det buf m), snd (feed det buf m))"
  using assms(1)
proof (induction "length buf" arbitrary: buf m ret rule: less_induct)
  case less
  show ?case
  proof (cases "buf = []")
    case True
    then show ?thesis by (simp add: read2_loop.simps)
  next
    case False
    have pos: "delimeter_pos m = length (mh_del_message m)" "length (mh_del_message m) < length det"
      using less.prems delimeter_pos_eq[OF _ _ assms(2)] by (auto simp: helper_ok_def)
    obtain ro m' where sc: "scan_rec det 0 (det ! length (mh_del_message m)) buf m = (ro, m')" by fastforce
    note S = scan_rec_feed[OF less.prems assms(2) _ sc, simplified]
    have step: "read2_loop det buf m ret = (let r = (case ro of None \<Rightarrow> [] | Some r \<Rightarrow> r)
        in if r = [] \<and> delimeter_pos m' \<ge> length det then read2_loop det r mh_clear (f_add_message m' ret) else read2_loop det r m' ret)"
      by (subst read2_loop.simps) (simp add: False pos scan_bytes_rec sc Let_def)
    have full: "delimeter_pos m' \<ge> length det \<longleftrightarrow> length (mh_del_message m') = length det" if "helper_ok det m' \<or> del_full det m'"
      using that delimeter_pos_eq[of m' det] assms(2) by (auto simp: helper_ok_def del_full_def)
    have nf: "read2_loop det r m' ret = read2_loop det r mh_clear (f_add_message m' ret)"
      if "r \<noteq> []" "del_full det m'" for r
      using that full by (subst read2_loop.simps) (auto simp: del_full_def)
    have nil: "read2_loop det [] x y = Some (y, x)" for x y by (subst read2_loop.simps) simp
    show ?thesis
    proof (cases ro)
      case None
      then show ?thesis using S full unfolding step Let_def None option.case nil by (auto simp: helper_ok_def)
    next
      case (Some r)
      note S' = S[unfolded Some option.case]
      show ?thesis
      proof (cases "helper_ok det m'")
        case True
        then have "read2_loop det buf m ret = read2_loop det r m' ret"
          using full unfolding step Let_def Some option.case by (auto simp: helper_ok_def)
        then show ?thesis using less.hyps[OF _ True, of r ret] S' True by (auto simp: finish_helper_ok split: prod.splits)
      next
        case False
        then have F: "del_full det m'" using S' by blast
        then have "read2_loop det buf m ret = read2_loop det r mh_clear (f_add_message m' ret)"
          using full nf unfolding step Let_def Some option.case by (cases "r = []") (auto simp: del_full_def)
        then show ?thesis
          using less.hyps[OF _ helper_ok_clear[OF assms(2)], of r "f_add_message m' ret"] S' F f_add_message_append[of m' ret]
          by (auto simp: finish_message_def del_full_def split: prod.splits)
      qed
    qed
  qed
qed

lemma process_read2_feed: "helper_ok det m \<Longrightarrow> det_ok det \<Longrightarrow> process_read2 m buf det = Some (feed det buf m)"
  by (simp add: process_read2_def read2_loop_feed)

lemma f_read_feed:
  assumes "helper_ok det m" "det_ok det" "depth + 2 * length buf < 30000"
  shows "f_read det depth buf m ret = Some (ret @ fst (feed det buf m), snd (feed det buf m))"
  using assms(1,3)
proof (induction "length buf" arbitrary: buf m ret depth rule: less_induct)
  case less
  have pos: "delimeter_pos m = length (mh_del_message m)" "length (mh_del_message m) < length det"
    using less.prems delimeter_pos_eq[OF _ _ assms(2)] by (auto simp: helper_ok_def)
  obtain ro m' where sc: "scan_rec det (depth + 1) (det ! length (mh_del_message m)) buf m = (ro, m')" by fastforce
  have S: "case ro of None \<Rightarrow> helper_ok det m' \<and> feed det buf m = ([], m')
    | Some r \<Rightarrow> length r < length buf \<and> (helper_ok det m' \<or> del_full det m')
        \<and> feed det buf m = (case finish_message det m' of (e, m'') \<Rightarrow> (case feed det r m'' of (e', m'') \<Rightarrow> (e @ e', m'')))"
    using less.prems(2) by (intro scan_rec_feed[OF less.prems(1) assms(2) _ sc]) simp
  have step: "f_read det depth buf m ret = (case ro of None \<Rightarrow> Some (ret, m') | Some r \<Rightarrow> f_read det (depth + 1) r m' ret)"
    using pos sc by (subst f_read.simps) simp
  show ?case
  proof (cases ro)
    case None
    then show ?thesis using S by (simp add: step)
  next
    case (Some r)
    note S' = S[unfolded Some option.case]
    show ?thesis
    proof (cases "helper_ok det m'")
      case True
      then show ?thesis
        using less.hyps[of r m' "depth + 1" ret] S' less.prems(2) by (auto simp: step Some finish_helper_ok split: prod.splits)
    next
      case False
      then have F: "del_full det m'" using S' by blast
      then have "delimeter_pos m' = length det" using delimeter_pos_eq[of m' det] assms(2) by (simp add: del_full_def)
      then have "f_read det (depth + 1) r m' ret = f_read det (depth + 2) r mh_clear (f_add_message m' ret)"
        by (subst f_read.simps) simp
      then show ?thesis
        using less.hyps[of r mh_clear "depth + 2" "f_add_message m' ret"] helper_ok_clear[OF assms(2)] S' F less.prems(2) f_add_message_append[of m' ret]
        by (auto simp: step Some finish_message_def del_full_def split: prod.splits)
    qed
  qed
qed


section \<open>The client cuts at the first delimiter\<close>

definition occ :: "string \<Rightarrow> string \<Rightarrow> nat \<Rightarrow> bool" where
  "occ pat s i \<longleftrightarrow> take (length pat) (drop i s) = pat"

lemma occ_bound: "occ pat s i \<Longrightarrow> pat \<noteq> [] \<Longrightarrow> i + length pat \<le> length s"
proof -
  assume "occ pat s i" "pat \<noteq> []"
  then have "length pat = min (length pat) (length s - i)" "0 < length pat" by (metis occ_def length_drop length_take min.commute, simp)
  then show ?thesis by linarith
qed

lemma occ_Suc [simp]: "occ pat (c # cs) (Suc i) = occ pat cs i"
  by (simp add: occ_def)

lemma occ_append: "i + length pat \<le> length xs \<Longrightarrow> occ pat (xs @ ys) i = occ pat xs i"
  by (simp add: occ_def)

lemma find_at_occ:
  "pat \<noteq> [] \<Longrightarrow> (case find_at pat s k of None \<Rightarrow> (\<forall>i. \<not> occ pat s i) | Some j \<Rightarrow> (\<exists>i. j = k + i \<and> occ pat s i \<and> (\<forall>l < i. \<not> occ pat s l)))"
proof (induction s arbitrary: k)
  case Nil
  then show ?case by (simp add: occ_def)
next
  case (Cons c cs)
  show ?case
  proof (cases "occ pat (c # cs) 0")
    case True
    then show ?thesis by (auto simp: occ_def)
  next
    case False
    then have f: "find_at pat (c # cs) k = find_at pat cs (k + 1)" by (simp add: occ_def)
    show ?thesis
    proof (cases "find_at pat cs (k + 1)")
      case None
      then have "\<not> occ pat (c # cs) i" for i using Cons.IH[OF Cons.prems, of "k + 1"] False by (cases i) auto
      then show ?thesis using f None by simp
    next
      case (Some j)
      then obtain i where i: "j = k + 1 + i" "occ pat cs i" "\<forall>l < i. \<not> occ pat cs l" using Cons.IH[OF Cons.prems, of "k + 1"] by auto
      have "\<not> occ pat (c # cs) l" if "l < Suc i" for l using that i(3) False by (cases l) auto
      then show ?thesis using f Some i by (intro option.split[THEN iffD2]) (auto intro!: exI[of _ "Suc i"])
    qed
  qed
qed

lemma str_find_None: "pat \<noteq> [] \<Longrightarrow> (\<And>i. p \<le> i \<Longrightarrow> \<not> occ pat s i) \<Longrightarrow> str_find s pat p = None"
  using find_at_occ[of pat "drop p s" p]
  by (auto simp: str_find_def occ_def add.commute split: option.splits)

lemma str_find_Some: "pat \<noteq> [] \<Longrightarrow> occ pat s i \<Longrightarrow> p \<le> i \<Longrightarrow> (\<And>l. p \<le> l \<Longrightarrow> l < i \<Longrightarrow> \<not> occ pat s l) \<Longrightarrow> str_find s pat p = Some i"
proof -
  assume A: "pat \<noteq> []" "occ pat s i" "p \<le> i" "\<And>l. p \<le> l \<Longrightarrow> l < i \<Longrightarrow> \<not> occ pat s l"
  have o: "occ pat (drop p s) l = occ pat s (p + l)" for l by (simp add: occ_def add.commute)
  have "p \<le> length s" using occ_bound[OF A(2,1)] A(3) by simp
  moreover have "find_at pat (drop p s) p = Some i"
  proof (cases "find_at pat (drop p s) p")
    case None
    then show ?thesis using find_at_occ[OF A(1), of "drop p s" p] o[of "i - p"] A(2,3) by simp
  next
    case (Some j)
    then obtain l where l: "j = p + l" "occ pat s (p + l)" "\<forall>k < l. \<not> occ pat s (p + k)"
      using find_at_occ[OF A(1), of "drop p s" p] by (auto simp: o)
    have "\<not> p + l < i" using A(4)[of "p + l"] l(2) by auto
    moreover have "\<not> i - p < l" using l(3) A(2,3) by auto
    ultimately have "i = p + l" using A(3) by linarith
    then show ?thesis using Some l by simp
  qed
  ultimately show ?thesis by (simp add: str_find_def)
qed

function cut :: "string \<Rightarrow> bytes \<Rightarrow> bytes list \<times> bytes" where
  "cut det xs =
     (if det = [] then ([], xs)
      else case str_find xs det 0 of
             None \<Rightarrow> ([], xs)
           | Some k \<Rightarrow> (case cut det (drop (k + length det) xs) of (ms, r) \<Rightarrow> ((if k = 0 then [] else [take k xs]) @ ms, r)))"
  by pat_completeness auto
termination
proof (relation "measure (length \<circ> snd)")
  fix det xs :: bytes and k
  assume "det \<noteq> []" "str_find xs det 0 = Some k"
  then have "occ det xs k" using find_at_occ[of det xs 0] by (auto simp: str_find_def)
  then show "((det, drop (k + length det) xs), det, xs) \<in> measure (length \<circ> snd)"
    using occ_bound[of det xs k] \<open>det \<noteq> []\<close> by (cases det) auto
qed simp

declare cut.simps [simp del]

lemma cut_none: "det \<noteq> [] \<Longrightarrow> \<forall>i. \<not> occ det xs i \<Longrightarrow> cut det xs = ([], xs)"
  by (simp add: cut.simps str_find_None)

lemma cut_some:
  "det \<noteq> [] \<Longrightarrow> occ det xs k \<Longrightarrow> \<forall>l < k. \<not> occ det xs l
    \<Longrightarrow> cut det xs = (case cut det (drop (k + length det) xs) of (ms, r) \<Rightarrow> ((if k = 0 then [] else [take k xs]) @ ms, r))"
  by (subst cut.simps) (simp add: str_find_Some)

lemma first_occ: "occ pat s i \<Longrightarrow> \<exists>k \<le> i. occ pat s k \<and> (\<forall>l < k. \<not> occ pat s l)"
  by (intro exI[of _ "LEAST i. occ pat s i"]) (auto intro: LeastI Least_le dest: not_less_Least)

lemma cut_rest: "det \<noteq> [] \<Longrightarrow> \<not> occ det (snd (cut det xs)) i"
proof (induction "length xs" arbitrary: xs rule: less_induct)
  case less
  show ?case
  proof (cases "\<exists>i. occ det xs i")
    case True
    then obtain k where k: "occ det xs k" "\<forall>l < k. \<not> occ det xs l" using first_occ by blast
    then show ?thesis
      using less.hyps[of "drop (k + length det) xs"] occ_bound[OF k(1) less.prems] less.prems cut_some[OF less.prems k]
      by (cases det) (auto split: prod.splits)
  qed (use less.prems cut_none in auto)
qed

lemma cut_append:
  assumes "det \<noteq> []"
  shows "cut det (xs @ ys) = (case cut det xs of (ms, r) \<Rightarrow> (case cut det (r @ ys) of (ms', r') \<Rightarrow> (ms @ ms', r')))"
proof (induction "length xs" arbitrary: xs rule: less_induct)
  case less
  show ?case
  proof (cases "\<exists>i. occ det xs i")
    case True
    then obtain k where k: "occ det xs k" "\<forall>l < k. \<not> occ det xs l" using first_occ by blast
    have b: "k + length det \<le> length xs" using occ_bound[OF k(1) assms] .
    then have "occ det (xs @ ys) k" "\<forall>l < k. \<not> occ det (xs @ ys) l" using k by (auto simp: occ_append)
    from cut_some[OF assms this] cut_some[OF assms k] b show ?thesis
      using less.hyps[of "drop (k + length det) xs"] assms by (cases det) (auto split: prod.splits)
  qed (use assms cut_none[of det xs] in \<open>auto split: prod.splits\<close>)
qed

text \<open>Between two reads the buffer has no delimiter, and the search goes on where one could still begin.\<close>

definition resume :: "string \<Rightarrow> bytes \<Rightarrow> nat" where
  "resume det m = (if length m > length det then length m - length det else 0)"

definition buffer_ok :: "string \<Rightarrow> client_buffer \<Rightarrow> bool" where
  "buffer_ok det b \<longleftrightarrow> (\<forall>i. \<not> occ det (cb_m b) i) \<and> cb_s b = resume det (cb_m b)"

lemma check_loop_cut:
  assumes "det \<noteq> []"
  shows "\<forall>i < cb_s b. \<not> occ det (cb_m b) i \<Longrightarrow> length (cb_m b) \<le> length det \<longrightarrow> cb_s b = 0
    \<Longrightarrow> check_loop det b ret = Some (ret @ fst (cut det (cb_m b)), \<lparr>cb_m = snd (cut det (cb_m b)), cb_s = resume det (snd (cut det (cb_m b)))\<rparr>)"
proof (induction "length (cb_m b)" arbitrary: b ret rule: less_induct)
  case less
  let ?m = "cb_m b"
  show ?case
  proof (cases "\<exists>i. occ det ?m i")
    case False
    then have "str_find ?m det (cb_s b) = None" using str_find_None[OF assms] by blast
    then show ?thesis
      using False cut_none[OF assms, of ?m] less.prems
      by (subst check_loop.simps) (cases b, auto simp: check_step_def Let_def resume_def)
  next
    case True
    then obtain k where k: "occ det ?m k" "\<forall>l < k. \<not> occ det ?m l" using first_occ by blast
    have "cb_s b \<le> k" using k(1) less.prems(1) by (meson not_le_imp_less)
    then have f: "str_find ?m det (cb_s b) = Some k" using str_find_Some[OF assms k(1)] k(2) by blast
    have b: "k + length det \<le> length ?m" "0 < length det" using occ_bound[OF k(1) assms] assms by auto
    have lt: "length (drop (k + length det) ?m) < length ?m" using b unfolding length_drop by linarith
    let ?b = "\<lparr>cb_m = drop (k + length det) ?m, cb_s = 0\<rparr>"
    have "check_step det b = Inl (if k = 0 then [] else [take k ?m], ?b)"
      using f by (auto simp: check_step_def Let_def)
    then have "check_loop det b ret = check_loop det ?b (ret @ (if k = 0 then [] else [take k ?m]))"
      by (subst check_loop.simps) simp
    also have "\<dots> = Some ((ret @ (if k = 0 then [] else [take k ?m])) @ fst (cut det (cb_m ?b)),
        \<lparr>cb_m = snd (cut det (cb_m ?b)), cb_s = resume det (snd (cut det (cb_m ?b)))\<rparr>)"
      using lt by (intro less.hyps) simp_all
    finally show ?thesis using cut_some[OF assms k] by (auto split: prod.splits)
  qed
qed

lemma read_bytes_cut:
  assumes "buffer_ok det b" "det \<noteq> []"
  shows "read_bytes det buf b = Some (fst (cut det (cb_m b @ buf)),
    \<lparr>cb_m = snd (cut det (cb_m b @ buf)), cb_s = resume det (snd (cut det (cb_m b @ buf)))\<rparr>)"
proof -
  let ?b = "b\<lparr>cb_m := cb_m b @ buf\<rparr>"
  have "\<not> occ det (cb_m b @ buf) i" if "i < cb_s b" for i
  proof -
    have "i + length det \<le> length (cb_m b)" using that assms(1) by (auto simp: buffer_ok_def resume_def split: if_splits)
    then show ?thesis using assms(1) by (simp add: occ_append buffer_ok_def)
  qed
  moreover have "length (cb_m b @ buf) \<le> length det \<longrightarrow> cb_s b = 0" using assms(1) by (auto simp: buffer_ok_def resume_def)
  ultimately show ?thesis using check_loop_cut[OF assms(2), of ?b "[]"] by (simp add: read_bytes_def)
qed

section \<open>Frames\<close>

text \<open>
  A delimiter whose first byte does not come again in it, and a message that does not contain it.
\<close>

definition marker :: "string \<Rightarrow> bool" where
  "marker det \<longleftrightarrow> det_ok det \<and> hd det \<notin> set (tl det)"

definition payload_ok :: "string \<Rightarrow> bytes \<Rightarrow> bool" where
  "payload_ok det w \<longleftrightarrow> w \<noteq> [] \<and> \<not> sublist det w"

definition frame :: "string \<Rightarrow> bytes \<Rightarrow> bytes" where
  "frame det w = det @ w @ det"

lemma marker_nth: "marker det \<Longrightarrow> 0 < i \<Longrightarrow> i < length det \<Longrightarrow> det ! i \<noteq> det ! 0"
  by (cases det; cases i) (auto simp: marker_def)

lemma occ_sublist: "occ det w i \<Longrightarrow> sublist det w"
  by (metis occ_def sublist_order.order_trans sublist_drop sublist_take)

lemma first_in_frame:
  assumes "marker det" "\<not> sublist det w" "k < length w"
  shows "\<not> occ det (w @ det) k"
proof
  assume o: "occ det (w @ det) k"
  have d: "det \<noteq> []" using assms(1) by (simp add: marker_def det_ok_def)
  show False
  proof (cases "k + length det \<le> length w")
    case True
    then show False using o assms(2) occ_sublist by (auto simp: occ_append)
  next
    case False
    let ?j = "length w - k"
    have "take (length det) (drop k (w @ det)) ! ?j = det ! 0" using False assms(3) d by (simp add: nth_append)
    then have "det ! ?j = det ! 0" using o by (simp add: occ_def)
    then show False using marker_nth[OF assms(1), of ?j] False assms(3) by simp
  qed
qed

lemma cut_frame:
  assumes "marker det" "payload_ok det w"
  shows "cut det (frame det w) = ([w], [])"
proof -
  have d: "det \<noteq> []" using assms(1) by (simp add: marker_def det_ok_def)
  have "\<forall>i. \<not> occ det [] i" using d by (simp add: occ_def)
  then have n: "cut det [] = ([], [])" using cut_none[OF d] by blast
  have "occ det (w @ det) (length w)" by (simp add: occ_def)
  moreover have "\<forall>l < length w. \<not> occ det (w @ det) l" using first_in_frame assms by (simp add: payload_ok_def)
  ultimately have "cut det (w @ det) = ([w], [])" using cut_some[OF d] n assms(2) by (simp add: payload_ok_def)
  moreover have "occ det (frame det w) 0" by (simp add: occ_def frame_def)
  ultimately show ?thesis using cut_some[OF d, of "frame det w" 0] by (simp add: frame_def)
qed

text \<open>The server's reader keeps what it has read, in order, and gives the message before a delimiter.\<close>

lemma feed_free:
  assumes "det_ok det" "\<not> sublist det (mh_message m @ mh_del_message m @ w)" "helper_ok det m"
  shows "\<exists>m'. feed det w m = ([], m') \<and> mh_message m' @ mh_del_message m' = mh_message m @ mh_del_message m @ w"
  using assms(2,3)
proof (induction w arbitrary: m)
  case (Cons c w)
  let ?b = "byte_step det c m"
  have all: "mh_message ?b @ mh_del_message ?b = mh_message m @ mh_del_message m @ [c]"
    by (auto simp: byte_step_def next_del_def give_up_del_def)
  have "\<not> del_full det ?b"
  proof
    assume "del_full det ?b"
    then have "mh_message m @ mh_del_message m @ c # w = mh_message ?b @ det @ w" using all by (simp add: del_full_def)
    then show False using Cons.prems(1) by (metis sublist_appendI)
  qed
  then have ok: "helper_ok det ?b" using byte_step_ok[OF Cons.prems(2) assms(1)] by blast
  have "\<not> sublist det (mh_message ?b @ mh_del_message ?b @ w)"
    using Cons.prems(1) all by (metis append_Cons append_assoc append_Nil)
  from Cons.IH[OF this ok] show ?case
    using all by (auto simp: finish_helper_ok[OF ok])
qed auto

lemma feed_rest_del:
  assumes "det_ok det" "helper_ok det m"
  shows "feed det (drop (length (mh_del_message m)) det) m = (f_add_message m [], mh_clear)"
  using assms(2)
proof (induction "length det - length (mh_del_message m)" arbitrary: m rule: less_induct)
  case less
  let ?k = "length (mh_del_message m)"
  have k: "?k < length det" using less.prems by (simp add: helper_ok_def)
  have e: "drop ?k det = det ! ?k # drop (Suc ?k) det" using k by (simp add: Cons_nth_drop_Suc)
  have b: "byte_step det (det ! ?k) m = next_del (det ! ?k) m" by (simp add: byte_step_def)
  have a: "f_add_message (next_del (det ! ?k) m) [] = f_add_message m []" by (simp add: f_add_message_def next_del_def)
  show ?case
  proof (cases "helper_ok det (next_del (det ! ?k) m)")
    case True
    then show ?thesis
      using less.hyps[OF _ True] k by (simp add: e b finish_helper_ok a) (simp add: next_del_def)
  next
    case False
    then have "del_full det (next_del (det ! ?k) m)" using next_del_ok[OF less.prems refl] by blast
    then have "length (mh_del_message (next_del (det ! ?k) m)) = length det" "Suc ?k = length det"
      by (auto simp: del_full_def next_del_def) (metis length_append_singleton)
    then show ?thesis by (simp add: e b finish_message_def a)
  qed
qed

lemma feed_det:
  assumes "marker det" "helper_ok det m"
  shows "feed det det m = (let w = mh_message m @ mh_del_message m in if w = [] then [] else [w], mh_clear)"
proof -
  have ok: "det_ok det" "det \<noteq> []" using assms(1) by (auto simp: marker_def det_ok_def)
  show ?thesis
  proof (cases "mh_del_message m = []")
    case True
    then show ?thesis using feed_rest_del[OF ok(1) assms(2)] by (simp add: f_add_message_def)
  next
    case False
    let ?g = "snd (give_up_del det (det ! 0) m)"
    have n: "det ! length (mh_del_message m) \<noteq> det ! 0"
      using marker_nth[OF assms(1)] False assms(2) by (auto simp: helper_ok_def)
    have g: "helper_ok det ?g" "mh_del_message ?g = []" "mh_message ?g = mh_message m @ mh_del_message m"
      using give_up_ok[OF assms(2) ok(1)] False by (auto simp: give_up_del_def)
    have "byte_step det (det ! 0) m = byte_step det (det ! 0) ?g"
      using n g by (auto simp: byte_step_def split: prod.splits)
    then have "feed det det m = feed det det ?g" using ok(2) by (cases det) auto
    then show ?thesis using feed_rest_del[OF ok(1) g(1)] g False by (simp add: f_add_message_def)
  qed
qed

lemma feed_frame:
  assumes "marker det" "payload_ok det w"
  shows "feed det (frame det w) mh_clear = ([w], mh_clear)"
proof -
  have ok: "det_ok det" using assms(1) by (simp add: marker_def)
  have c: "feed det det mh_clear = ([], mh_clear)" using feed_det[OF assms(1) helper_ok_clear[OF ok]] by (simp add: mh_clear_def)
  obtain m where m: "feed det w mh_clear = ([], m)" "mh_message m @ mh_del_message m = w"
    using feed_free[OF ok _ helper_ok_clear[OF ok], of w] assms(2) by (auto simp: payload_ok_def mh_clear_def)
  have "helper_ok det m" using feed_ok[OF helper_ok_clear[OF ok] ok, of w] m(1) by simp
  then have "feed det det m = ([w], mh_clear)" using feed_det[OF assms(1)] m(2) assms(2) by (auto simp: payload_ok_def)
  then show ?thesis using c m(1) by (simp add: frame_def feed_append)
qed

section \<open>Any reader of frames\<close>

text \<open>
  What both readers promise: they return on every piece, two pieces one after the other give what the
  two together give, and a frame gives its message. It follows that the pieces in which a stream
  arrives do not matter.
\<close>

fun read_pieces :: "(bytes \<Rightarrow> 's \<Rightarrow> (bytes list \<times> 's) option) \<Rightarrow> bytes list \<Rightarrow> 's \<Rightarrow> (bytes list \<times> 's) option" where
  "read_pieces rd [] s = Some ([], s)"
| "read_pieces rd (p # ps) s =
     (case rd p s of None \<Rightarrow> None
      | Some (ms, s) \<Rightarrow> (case read_pieces rd ps s of None \<Rightarrow> None | Some (ms', s) \<Rightarrow> Some (ms @ ms', s)))"

locale frame_reader =
  fixes rd :: "bytes \<Rightarrow> 's \<Rightarrow> (bytes list \<times> 's) option" and ok :: "'s \<Rightarrow> bool" and fresh :: 's and det :: string
  assumes fresh_ok: "marker det \<Longrightarrow> ok fresh"
    and reads: "ok s \<Longrightarrow> \<exists>ms s'. rd xs s = Some (ms, s') \<and> ok s'"
    and idle: "ok s \<Longrightarrow> rd [] s = Some ([], s)"
    and joins: "ok s \<Longrightarrow> rd xs s = Some (ms, s1) \<Longrightarrow> rd ys s1 = Some (ms', s2) \<Longrightarrow> rd (xs @ ys) s = Some (ms @ ms', s2)"
    and gives: "marker det \<Longrightarrow> payload_ok det w \<Longrightarrow> rd (frame det w) fresh = Some ([w], fresh)"
begin

lemma pieces_join: "ok s \<Longrightarrow> read_pieces rd ps s = rd (concat ps) s"
proof (induction ps arbitrary: s)
  case (Cons p ps)
  obtain ms s1 where 1: "rd p s = Some (ms, s1)" "ok s1" using reads[OF Cons.prems] by blast
  obtain ms' s2 where 2: "rd (concat ps) s1 = Some (ms', s2)" using reads[OF 1(2)] by blast
  show ?case using 1 2 Cons.IH[OF 1(2)] joins[OF Cons.prems 1(1) 2] by simp
qed (simp add: idle)

lemma frames_given: "marker det \<Longrightarrow> \<forall>w \<in> set ws. payload_ok det w \<Longrightarrow> rd (concat (map (frame det) ws)) fresh = Some (ws, fresh)"
proof (induction ws)
  case (Cons w ws)
  then show ?case using joins[OF fresh_ok gives, of w "concat (map (frame det) ws)" ws fresh] by simp
qed (simp add: idle fresh_ok)

lemma delivered:
  assumes "marker det" "\<forall>w \<in> set ws. payload_ok det w" "concat ps = concat (map (frame det) ws)"
  shows "read_pieces rd ps fresh = Some (ws, fresh)"
  using pieces_join[OF fresh_ok[OF assms(1)], of ps] frames_given[OF assms(1,2)] assms(3) by simp

lemma delivered_so_far:
  assumes "marker det" "\<forall>w \<in> set ws. payload_ok det w" "concat (map (frame det) ws) = concat ps @ rest"
  shows "\<exists>ms s. read_pieces rd ps fresh = Some (ms, s) \<and> prefix ms ws \<and> (rest = [] \<longrightarrow> ms = ws)"
proof -
  have ok: "ok fresh" by (rule fresh_ok[OF assms(1)])
  obtain ms s1 where 1: "rd (concat ps) fresh = Some (ms, s1)" "ok s1" using reads[OF ok] by blast
  obtain ms' s2 where 2: "rd rest s1 = Some (ms', s2)" using reads[OF 1(2)] by blast
  have "ws = ms @ ms'" using joins[OF ok 1(1) 2] frames_given[OF assms(1,2)] assms(3) by simp
  moreover have "rest = [] \<longrightarrow> ms' = []" using 2 idle[OF 1(2)] by auto
  ultimately show ?thesis using 1 pieces_join[OF ok, of ps] by auto
qed

end

interpretation srv: frame_reader "\<lambda>buf m. process_read2 m buf det" "\<lambda>m. marker det \<and> helper_ok det m" mh_clear det for det
proof
  show "marker det \<and> helper_ok det m \<Longrightarrow> \<exists>ms m'. process_read2 m xs det = Some (ms, m') \<and> marker det \<and> helper_ok det m'" for m xs
    using process_read2_feed[of det m xs] feed_ok[of det m xs] by (cases "feed det xs m") (auto simp: marker_def)
  show "marker det \<and> helper_ok det m \<Longrightarrow> process_read2 m xs det = Some (ms, m1) \<Longrightarrow> process_read2 m1 ys det = Some (ms', m2)
      \<Longrightarrow> process_read2 m (xs @ ys) det = Some (ms @ ms', m2)" for m xs ms m1 ys ms' m2
    using process_read2_feed[of det m] process_read2_feed[of det m1 ys] feed_ok[of det m xs] by (auto simp: marker_def feed_append split: prod.splits)
qed (auto simp: marker_def helper_ok_clear process_read2_feed feed_frame)

definition fresh_buffer :: client_buffer where
  "fresh_buffer = \<lparr>cb_m = [], cb_s = 0\<rparr>"

interpretation cli: frame_reader "read_bytes det" "\<lambda>b. marker det \<and> buffer_ok det b" fresh_buffer det for det
proof
  have ne: "marker det \<Longrightarrow> det \<noteq> []" by (simp add: marker_def det_ok_def)
  note R = read_bytes_cut[OF _ ne]
  have ok: "marker det \<Longrightarrow> buffer_ok det \<lparr>cb_m = snd (cut det xs), cb_s = resume det (snd (cut det xs))\<rparr>" for xs
    using cut_rest[OF ne] by (simp add: buffer_ok_def)
  show "marker det \<Longrightarrow> marker det \<and> buffer_ok det fresh_buffer"
    using ne by (simp add: buffer_ok_def fresh_buffer_def resume_def occ_def)
  show "marker det \<and> buffer_ok det b \<Longrightarrow> \<exists>ms b'. read_bytes det xs b = Some (ms, b') \<and> marker det \<and> buffer_ok det b'" for b xs
    using R ok by auto
  show "marker det \<and> buffer_ok det b \<Longrightarrow> read_bytes det [] b = Some ([], b)" for b
    using R[of b "[]"] cut_none[OF ne, of "cb_m b"] by (cases b) (simp add: buffer_ok_def)
  show "marker det \<and> buffer_ok det b \<Longrightarrow> read_bytes det xs b = Some (ms, b1) \<Longrightarrow> read_bytes det ys b1 = Some (ms', b2)
      \<Longrightarrow> read_bytes det (xs @ ys) b = Some (ms @ ms', b2)" for b xs ms b1 ys ms' b2
    using R[of b "xs @ ys"] R[of b xs] R[of b1 ys] ok[of "cb_m b @ xs"] cut_append[OF ne, of "cb_m b @ xs" ys]
    by (auto split: prod.splits)
  show "marker det \<Longrightarrow> payload_ok det w \<Longrightarrow> read_bytes det (frame det w) fresh_buffer = Some ([w], fresh_buffer)" for w
    using R[of fresh_buffer "frame det w"] cut_frame[of det w] ne
    by (simp add: buffer_ok_def fresh_buffer_def resume_def occ_def)
qed


section \<open>Properties\<close>

text \<open>
  C39: the two readers of the server agree. On a buffer of the size the loop reads (1024 bytes; up to
  14999 the limit on the depth of the recursion is not reached) the recursive reader returns the same
  messages as the iterative one and leaves the same rest, for every delimiter.
\<close>

theorem process_read_agrees:
  assumes "helper_ok det m" "det_ok det" "length buf \<le> 14999"
  shows "process_read m buf det = process_read2 m buf det \<and> process_read m buf det \<noteq> None"
  using f_read_feed[OF assms(1,2), of 0 buf "[]"] process_read2_feed[OF assms(1,2), of buf] assms(3) by (simp add: process_read_def)

theorem process_read_agrees_witness:
  "process_read mh_clear ''##hi#a'' ''#'' = process_read2 mh_clear ''##hi#a'' ''#'' \<and> process_read mh_clear ''##hi#a'' ''#'' \<noteq> None"
  by (rule process_read_agrees) (simp_all add: helper_ok_clear det_ok_def)

text \<open>
  A delimiter that begins again inside itself can be missed: after a partial match only the next byte
  is compared with its first one.
\<close>

lemma overlapping_delimiter_missed:
  "process_read2 mh_clear (frame ''aab'' ''a'') ''aab'' = Some ([], \<lparr>mh_message = ''aaab'', mh_del_message = [], mh_seek_delimeter = -1\<rparr>)"
  by code_simp

end
