(* ===== verification/Epoll.thy ===== *)
theory Epoll
  imports Framing Basefunc Bitbase
begin

text \<open>
  The event loop of \<open>epoll_v2\<close>: connections, the queues of bytes to write, the tasks that read and
  write in other threads, the answers handed over by the handlers, and the encryption of a
  connection. What the kernel does - which descriptor is ready, how many bytes it takes or gives - are
  the arguments of the operations; the ciphers are parameters.
\<close>

section \<open>State\<close>

type_synonym fd = int

record secure =
  is_aes :: bool
  is_gost_enc :: bool
  aes_key_of :: string
  aes_iv :: string

definition secure_init :: secure where
  "secure_init = \<lparr>is_aes = False, is_gost_enc = False, aes_key_of = [], aes_iv = []\<rparr>"

record socket_client =
  time_to_send_test_ping :: int
  time_to_auth :: int
  is_authorized :: bool
  count_accepted_on :: uint64
  sc_s :: secure
  sc_m :: message_helper

record sub =
  sub_str :: bytes
  is_crypted :: bool
  is_key_generation :: bool

record m_write =
  t_size_send :: nat
  wr_msg :: bytes
  is_on_waiting_epollout :: bool

text \<open>What a thread of the pool does with a descriptor; while it does the loop leaves it alone.\<close>

datatype task_of = Reading | Writing m_write

record epoll_srv =
  authorized_clients :: "fd \<rightharpoonup> socket_client"
  awaiting_for_write :: "fd \<Rightarrow> m_write list"
  fd_in_process :: "fd \<rightharpoonup> task_of"
  events_clients :: "fd \<rightharpoonup> int32 list"
  mt_messages :: "fd \<rightharpoonup> message_helper"
  encryption_data :: "fd \<rightharpoonup> secure"
  awaiting_authorize_clients :: "fd set"
  key_tasks :: "(fd \<times> uint64 \<times> bytes) list"
  count_accepted :: uint64
  resp :: "fd \<Rightarrow> uint64 \<Rightarrow> sub list"

definition epoll_init :: epoll_srv where
  "epoll_init = \<lparr>authorized_clients = Map.empty, awaiting_for_write = \<lambda>_. [], fd_in_process = Map.empty, events_clients = Map.empty,
     mt_messages = Map.empty, encryption_data = Map.empty, awaiting_authorize_clients = {}, key_tasks = [],
     count_accepted = 0, resp = \<lambda>_ _. []\<rparr>"

text \<open>
  The settings, the ciphers (Crypto++ and \<open>gost_89\<close>) with key and initial vector, and what the
  handshake calls: zlib, the power of two numbers modulo a third (decimal strings) and the digest.
\<close>

record epoll_conf =
  det_string :: string
  echo_string :: string
  ec_is_aes :: bool
  ec_is_gost :: bool
  aes_encrypt :: "bytes \<Rightarrow> string \<Rightarrow> string \<Rightarrow> bytes"
  aes_decrypt :: "bytes \<Rightarrow> string \<Rightarrow> string \<Rightarrow> bytes"
  gost_crypt :: "bytes \<Rightarrow> string \<Rightarrow> bytes"
  gost_decrypt :: "bytes \<Rightarrow> string \<Rightarrow> bytes"
  zlib_decompress :: "bytes \<Rightarrow> bytes"
  dh_pow :: "string \<Rightarrow> string \<Rightarrow> string \<Rightarrow> string"
  md5_hex :: "string \<Rightarrow> string"

section \<open>Ciphers of a connection\<close>

definition encrypt_for :: "epoll_conf \<Rightarrow> secure \<Rightarrow> bytes \<Rightarrow> bytes" where
  "encrypt_for cfg s msg =
     (let msg = (if is_gost_enc s then gost_crypt cfg msg (aes_key_of s @ aes_iv s) else msg)
      in aes_encrypt cfg msg (aes_key_of s) (aes_iv s))"

definition decrypt_for :: "epoll_conf \<Rightarrow> secure \<Rightarrow> bytes \<Rightarrow> bytes" where
  "decrypt_for cfg s str =
     (let str = aes_decrypt cfg str (aes_key_of s) (aes_iv s)
      in if is_gost_enc s then gost_decrypt cfg str (aes_key_of s @ aes_iv s) else str)"

section \<open>Answers\<close>

text \<open>\<open>responser::add\<close>: a handler's answer, encrypted with the data of its connection when it has a key.\<close>

definition responser_put :: "fd \<Rightarrow> uint64 \<Rightarrow> sub \<Rightarrow> epoll_srv \<Rightarrow> epoll_srv" where
  "responser_put fd cnt m st = st\<lparr>resp := (resp st)(fd := (resp st fd)(cnt := resp st fd cnt @ [m]))\<rparr>"

definition responser_add :: "epoll_conf \<Rightarrow> fd \<Rightarrow> uint64 \<Rightarrow> secure option \<Rightarrow> bytes \<Rightarrow> bool \<Rightarrow> epoll_srv \<Rightarrow> epoll_srv" where
  "responser_add cfg fd cnt s msg crypted st =
     (let (msg, crypted) = (case s of
        Some s \<Rightarrow> if \<not> crypted \<and> is_aes s \<and> aes_key_of s \<noteq> [] then (encrypt_for cfg s msg, True) else (msg, crypted)
      | None \<Rightarrow> (msg, crypted))
      in responser_put fd cnt \<lparr>sub_str = msg, is_crypted = crypted, is_key_generation = False\<rparr> st)"

text \<open>What an operation does that can be seen from outside.\<close>

datatype label =
    L_accept fd
  | L_remove fd
  | L_push fd bytes
  | L_sent fd bytes
  | L_recv fd bytes
  | L_msg fd bytes bytes
  | L_plain fd bytes

text \<open>\<open>push_message\<close>: the delimiter, the message and the delimiter, for a connected client.\<close>

definition sub_text :: "epoll_conf \<Rightarrow> secure \<Rightarrow> sub \<Rightarrow> bytes" where
  "sub_text cfg s m = (if \<not> is_crypted m \<and> is_aes s then encrypt_for cfg s (sub_str m) else sub_str m)"

definition new_write :: "bytes \<Rightarrow> m_write" where
  "new_write msg = \<lparr>t_size_send = 0, wr_msg = msg, is_on_waiting_epollout = False\<rparr>"

definition push_message :: "epoll_conf \<Rightarrow> fd \<Rightarrow> sub \<Rightarrow> epoll_srv \<Rightarrow> label list \<times> epoll_srv" where
  "push_message cfg fd m st =
     (case authorized_clients st fd of
        None \<Rightarrow> ([], st)
      | Some c \<Rightarrow>
          (let str = sub_text cfg (sc_s c) m
           in ([L_push fd str], st\<lparr>awaiting_for_write := (awaiting_for_write st)(fd := awaiting_for_write st fd
                @ [new_write (det_string cfg), new_write str, new_write (det_string cfg)])\<rparr>)))"

definition plain :: "bytes \<Rightarrow> sub" where
  "plain msg = \<lparr>sub_str = msg, is_crypted = False, is_key_generation = False\<rparr>"

section \<open>Connections\<close>

definition accept_client :: "fd \<Rightarrow> epoll_srv \<Rightarrow> epoll_srv" where
  "accept_client fd st =
     (let cnt = count_accepted st + 1
      in st\<lparr>count_accepted := cnt, authorized_clients := (authorized_clients st)(fd \<mapsto>
           \<lparr>time_to_send_test_ping = 0, time_to_auth = 20000, is_authorized = False, count_accepted_on = cnt,
            sc_s = secure_init, sc_m = mh_clear\<rparr>),
           awaiting_authorize_clients := insert fd (awaiting_authorize_clients st)\<rparr>)"

definition remove_client :: "fd \<Rightarrow> epoll_srv \<Rightarrow> epoll_srv" where
  "remove_client fd st = st\<lparr>awaiting_for_write := (awaiting_for_write st)(fd := []),
     authorized_clients := (authorized_clients st)(fd := None), events_clients := (events_clients st)(fd := None),
     awaiting_authorize_clients := awaiting_authorize_clients st - {fd},
     mt_messages := (mt_messages st)(fd := None), encryption_data := (encryption_data st)(fd := None)\<rparr>"

section \<open>Writing\<close>

text \<open>Short messages at the front of the queue that have not been begun are put together.\<close>

fun merge_short :: "m_write list \<Rightarrow> bytes \<Rightarrow> nat \<Rightarrow> bytes \<times> nat" where
  "merge_short [] one remove_i = (one, remove_i)"
| "merge_short (w # ws) one remove_i =
     (if t_size_send w \<noteq> 0 then (one, remove_i)
      else if length (wr_msg w) < 1024 * 1024 \<and> length one < 1024 * 1024 then merge_short ws (one @ wr_msg w) (remove_i + 1)
      else (one, remove_i))"

definition split_short_messages :: "m_write list \<Rightarrow> m_write list" where
  "split_short_messages msgs =
     (case merge_short msgs [] 0 of (one, remove_i) \<Rightarrow> if remove_i > 1 then new_write one # drop remove_i msgs else msgs)"

definition write_to_fd :: "fd \<Rightarrow> epoll_srv \<Rightarrow> epoll_srv" where
  "write_to_fd fd st =
     (case split_short_messages (awaiting_for_write st fd) of
        [] \<Rightarrow> st
      | w # ws \<Rightarrow>
          if fd_in_process st fd = None
          then st\<lparr>awaiting_for_write := (awaiting_for_write st)(fd := ws), fd_in_process := (fd_in_process st)(fd \<mapsto> Writing w)\<rparr>
          else st\<lparr>awaiting_for_write := (awaiting_for_write st)(fd := w # ws)\<rparr>)"

text \<open>The task: one call of \<open>send\<close>, with what it returns; \<open>Again\<close> is \<open>EAGAIN\<close> or \<open>EWOULDBLOCK\<close>.\<close>

datatype send_result = Sent nat | Again | Send_error

datatype todo = T_ok | T_remove | T_set_epoll_out

definition send_task :: "m_write \<Rightarrow> send_result \<Rightarrow> todo \<times> m_write \<times> bytes" where
  "send_task w r =
     (if wr_msg w = [] then (T_ok, w, [])
      else case r of
             Again \<Rightarrow> (T_set_epoll_out, w, [])
           | Send_error \<Rightarrow> (T_remove, w, [])
           | Sent n \<Rightarrow>
               (let w' = w\<lparr>t_size_send := t_size_send w + n\<rparr>; taken = take n (drop (t_size_send w) (wr_msg w))
                in if n = 0 then (T_remove, w', taken)
                   else if t_size_send w' = length (wr_msg w) then (T_ok, w', taken)
                   else if t_size_send w' < length (wr_msg w) then (T_set_epoll_out, w', taken)
                   else (T_remove, w', taken)))"

definition write_finished :: "fd \<Rightarrow> todo \<Rightarrow> m_write \<Rightarrow> epoll_srv \<Rightarrow> label list \<times> epoll_srv" where
  "write_finished fd t w st =
     (let st = st\<lparr>fd_in_process := (fd_in_process st)(fd := None)\<rparr>
      in case t of
           T_ok \<Rightarrow> ([], st)
         | T_set_epoll_out \<Rightarrow>
             ([], st\<lparr>awaiting_for_write := (awaiting_for_write st)(fd :=
                \<lparr>t_size_send = t_size_send w, wr_msg = wr_msg w, is_on_waiting_epollout = True\<rparr> # awaiting_for_write st fd)\<rparr>)
         | T_remove \<Rightarrow> ([L_remove fd], remove_client fd st))"

definition on_epollout :: "fd \<Rightarrow> epoll_srv \<Rightarrow> epoll_srv" where
  "on_epollout fd st =
     (case awaiting_for_write st fd of
        [] \<Rightarrow> st
      | w # ws \<Rightarrow> st\<lparr>awaiting_for_write := (awaiting_for_write st)(fd := w\<lparr>is_on_waiting_epollout := False\<rparr> # ws)\<rparr>)"

section \<open>Reading\<close>

text \<open>
  \<open>process_message\<close> before the encryption stands: the first message starts the key exchange in another
  thread, whose result comes back as two answers; the next has to be \<open>ok_aes\<close> under the key.
\<close>

definition parse_keys :: "bytes \<Rightarrow> (string \<times> string \<times> string) res" where
  "parse_keys keys =
     (let size_of_p = (chars_to_numeric (take 4 keys) :: int32)
      in if size_of_int32 (7 + size_of_p) < length keys then
           bind_res (substr keys 4 1) (\<lambda>g.
           bind_res (substr keys 5 (size_of_int32 size_of_p)) (\<lambda>p.
           bind_res (substr_from keys (size_of_int32 (5 + size_of_p))) (\<lambda>A. Inr (g, p, A))))
         else Inl Out_of_range)"

text \<open>The key and the answer, for the secret \<open>b\<close> the server has drawn; every exception is caught.\<close>

definition key_exchange :: "epoll_conf \<Rightarrow> bytes \<Rightarrow> string \<Rightarrow> (string \<times> bytes) option" where
  "key_exchange cfg str b =
     (let keys = uncompress_number (zlib_decompress cfg str)
      in if length keys > 4 then
           (case parse_keys keys of
              Inl _ \<Rightarrow> None
            | Inr (g, p, A) \<Rightarrow> Some (md5_hex cfg (dh_pow cfg A b p), compress_number (dh_pow cfg g b p)))
         else None)"

definition exchange_keys :: "epoll_conf \<Rightarrow> fd \<Rightarrow> uint64 \<Rightarrow> bytes \<Rightarrow> string \<Rightarrow> epoll_srv \<Rightarrow> epoll_srv" where
  "exchange_keys cfg fd cnt str b st =
     (case key_exchange cfg str b of
        None \<Rightarrow> st
      | Some (k, answer) \<Rightarrow>
          responser_put fd cnt (plain answer)
            (responser_put fd cnt \<lparr>sub_str = k, is_crypted = False, is_key_generation = True\<rparr> st))"

definition process_message :: "epoll_conf \<Rightarrow> fd \<Rightarrow> bytes \<Rightarrow> epoll_srv \<Rightarrow> label list \<times> epoll_srv" where
  "process_message cfg fd str st =
     (case authorized_clients st fd of
        None \<Rightarrow> ([], st)
      | Some c \<Rightarrow>
          if ec_is_aes cfg then
            (if \<not> is_aes (sc_s c) then
               (if aes_key_of (sc_s c) = [] then ([], st\<lparr>key_tasks := key_tasks st @ [(fd, count_accepted_on c, str)]\<rparr>)
                else if aes_decrypt cfg str (aes_key_of (sc_s c)) (aes_iv (sc_s c)) = ''ok_aes'' then
                  (let s1 = (sc_s c)\<lparr>is_aes := True\<rparr>;
                       (ls, st) = push_message cfg fd (plain ''ok_aes'')
                          (st\<lparr>authorized_clients := (authorized_clients st)(fd \<mapsto> c\<lparr>sc_s := s1\<rparr>)\<rparr>);
                       s2 = (if ec_is_gost cfg then s1\<lparr>is_gost_enc := True\<rparr> else s1)
                   in (ls, st\<lparr>authorized_clients := (authorized_clients st)(fd \<mapsto> c\<lparr>sc_s := s2\<rparr>),
                              encryption_data := (encryption_data st)(fd \<mapsto> s2)\<rparr>))
                else ([], st))
             else ([L_plain fd (decrypt_for cfg (sc_s c) str)], st))
          else ([L_plain fd str], st))"

fun process_messages :: "epoll_conf \<Rightarrow> fd \<Rightarrow> bytes list \<Rightarrow> epoll_srv \<Rightarrow> label list \<times> epoll_srv" where
  "process_messages cfg fd [] st = ([], st)"
| "process_messages cfg fd (m # ms) st =
     (case process_message cfg fd m st of (ls, st) \<Rightarrow> (case process_messages cfg fd ms st of (ls', st) \<Rightarrow> (ls @ ls', st)))"

text \<open>
  The end of a task that has read \<open>bytes\<close>: under a key they are cut and decrypted in the task, with
  what the last task has left; before that they are cut and handled by the loop.
\<close>

definition read_finished :: "epoll_conf \<Rightarrow> fd \<Rightarrow> bytes \<Rightarrow> epoll_srv \<Rightarrow> (label list \<times> epoll_srv) option" where
  "read_finished cfg fd bytes st =
     (let st = st\<lparr>fd_in_process := (fd_in_process st)(fd := None)\<rparr>;
          cr = (case encryption_data st fd of Some cr \<Rightarrow> cr | None \<Rightarrow> secure_init);
          m = (case mt_messages st fd of Some m \<Rightarrow> m | None \<Rightarrow> mh_clear)
      in if aes_key_of cr \<noteq> [] then
           (case process_read2 m bytes (det_string cfg) of
              None \<Rightarrow> None
            | Some (strs, m') \<Rightarrow>
                Some (L_recv fd bytes # (if authorized_clients st fd = None then [] else map (\<lambda>str. L_msg fd str (decrypt_for cfg cr str)) strs),
                  if mh_del_message m' \<noteq> [] \<or> mh_message m' \<noteq> [] then st\<lparr>mt_messages := (mt_messages st)(fd \<mapsto> m')\<rparr>
                  else st\<lparr>mt_messages := (mt_messages st)(fd := None)\<rparr>))
         else
           (case authorized_clients st fd of
              None \<Rightarrow> Some ([], st)
            | Some c \<Rightarrow>
                (case process_read2 (sc_m c) bytes (det_string cfg) of
                   None \<Rightarrow> None
                 | Some (parsed, m') \<Rightarrow>
                     Some (process_messages cfg fd parsed
                       (st\<lparr>authorized_clients := (authorized_clients st)(fd \<mapsto> c\<lparr>sc_m := m'\<rparr>)\<rparr>)))))"

section \<open>The other work of the loop\<close>

text \<open>
  The answers for a descriptor: only those made for the connection that has it now; a new key is set,
  everything else is queued. Answers for other connections are dropped.
\<close>

definition set_key :: "fd \<Rightarrow> string \<Rightarrow> epoll_srv \<Rightarrow> epoll_srv" where
  "set_key fd k st = st\<lparr>authorized_clients := (authorized_clients st)(fd :=
     map_option (\<lambda>c. c\<lparr>sc_s := (sc_s c)\<lparr>aes_key_of := k, aes_iv := take 16 k\<rparr>\<rparr>) (authorized_clients st fd))\<rparr>"

fun deliver_subs :: "epoll_conf \<Rightarrow> fd \<Rightarrow> sub list \<Rightarrow> epoll_srv \<Rightarrow> label list \<times> epoll_srv" where
  "deliver_subs cfg fd [] st = ([], st)"
| "deliver_subs cfg fd (m # ms) st =
     (case (if is_key_generation m then ([], set_key fd (sub_str m) st) else push_message cfg fd m st) of
        (ls, st) \<Rightarrow> (case deliver_subs cfg fd ms st of (ls', st) \<Rightarrow> (ls @ ls', st)))"

definition send_responces :: "epoll_conf \<Rightarrow> fd \<Rightarrow> epoll_srv \<Rightarrow> label list \<times> epoll_srv" where
  "send_responces cfg fd st =
     (let data = resp st fd; st = st\<lparr>resp := (resp st)(fd := \<lambda>_. [])\<rparr>
      in case authorized_clients st fd of
           None \<Rightarrow> ([], st)
         | Some c \<Rightarrow> deliver_subs cfg fd (data (count_accepted_on c)) st)"

text \<open>A request to listen is kept when the client has none yet; no types means all.\<close>

definition add_listener :: "fd \<Rightarrow> int32 list \<Rightarrow> epoll_srv \<Rightarrow> epoll_srv" where
  "add_listener fd types st =
     (if authorized_clients st fd \<noteq> None \<and> events_clients st fd = None
      then st\<lparr>events_clients := (events_clients st)(fd \<mapsto> types)\<rparr> else st)"

definition send_event :: "epoll_conf \<Rightarrow> int32 \<Rightarrow> bytes \<Rightarrow> fd \<Rightarrow> epoll_srv \<Rightarrow> label list \<times> epoll_srv" where
  "send_event cfg ty data fd st =
     (case events_clients st fd of
        None \<Rightarrow> ([], st)
      | Some types \<Rightarrow> if types = [] \<or> ty \<in> set types then push_message cfg fd (plain data) st else ([], st))"

text \<open>Clients that do not authorise in time are removed, unless a thread works on them.\<close>

definition kick_unautorized :: "int \<Rightarrow> fd \<Rightarrow> epoll_srv \<Rightarrow> label list \<times> epoll_srv" where
  "kick_unautorized ms fd st =
     (if fd \<in> awaiting_authorize_clients st then
        (case authorized_clients st fd of
           None \<Rightarrow> if fd_in_process st fd \<noteq> None then ([], st) else ([L_remove fd], remove_client fd st)
         | Some c \<Rightarrow>
             if is_authorized c then ([], st\<lparr>awaiting_authorize_clients := awaiting_authorize_clients st - {fd}\<rparr>)
             else (let c = c\<lparr>time_to_auth := time_to_auth c - ms\<rparr>;
                       st = st\<lparr>authorized_clients := (authorized_clients st)(fd \<mapsto> c)\<rparr>
                   in if time_to_auth c \<le> 0 \<and> fd_in_process st fd = None then ([L_remove fd], remove_client fd st) else ([], st)))
      else ([], st))"

definition echo_service :: "epoll_conf \<Rightarrow> int \<Rightarrow> fd \<Rightarrow> epoll_srv \<Rightarrow> label list \<times> epoll_srv" where
  "echo_service cfg ms fd st =
     (case authorized_clients st fd of
        None \<Rightarrow> ([], st)
      | Some c \<Rightarrow>
          if echo_string cfg = [] then ([], st)
          else (let t = time_to_send_test_ping c + ms
                in if t > 30000 \<and> fd_in_process st fd = None then
                     (let st = st\<lparr>authorized_clients := (authorized_clients st)(fd \<mapsto> c\<lparr>time_to_send_test_ping := 0\<rparr>)\<rparr>
                      in if awaiting_for_write st fd = [] then push_message cfg fd (plain (echo_string cfg)) st else ([], st))
                   else ([], st\<lparr>authorized_clients := (authorized_clients st)(fd \<mapsto> c\<lparr>time_to_send_test_ping := t\<rparr>)\<rparr>)))"

text \<open>Which queues are written: connected, not in a task, and not waiting for the kernel.\<close>

definition write_phase :: "fd \<Rightarrow> epoll_srv \<Rightarrow> epoll_srv" where
  "write_phase fd st =
     (if fd_in_process st fd \<noteq> None then st
      else case awaiting_for_write st fd of
             [] \<Rightarrow> st
           | w # ws \<Rightarrow>
               if authorized_clients st fd = None then st\<lparr>awaiting_for_write := (awaiting_for_write st)(fd := [])\<rparr>
               else if \<not> is_on_waiting_epollout w then write_to_fd fd st else st)"

section \<open>Runs\<close>

text \<open>
  What can happen next, in any order: the loop's work on one descriptor, the end of a task with what
  the kernel has returned, and the calls of the handlers.
\<close>

datatype ep_op =
    Accept fd | Hang_up fd | Start_read fd | End_read fd bytes | End_read_closed fd
  | Write fd | End_write fd send_result | Epollout fd
  | Answer fd uint64 "secure option" bytes bool | Key_task nat string | Responces fd
  | Listener fd "int32 list" | Ev int32 bytes fd | Authorize fd | Kick int fd | Echo int fd

definition ep_exec :: "epoll_conf \<Rightarrow> ep_op \<Rightarrow> epoll_srv \<Rightarrow> (label list \<times> epoll_srv) option" where
  "ep_exec cfg oper st =
     (case oper of
        Accept fd \<Rightarrow> if authorized_clients st fd = None \<and> fd_in_process st fd = None then Some ([L_accept fd], accept_client fd st) else None
      | Hang_up fd \<Rightarrow> if fd_in_process st fd = None then Some ([L_remove fd], remove_client fd st) else None
      | Start_read fd \<Rightarrow> if authorized_clients st fd \<noteq> None \<and> fd_in_process st fd = None
            then Some ([], st\<lparr>fd_in_process := (fd_in_process st)(fd \<mapsto> Reading)\<rparr>) else None
      | End_read fd bytes \<Rightarrow> if fd_in_process st fd = Some Reading then read_finished cfg fd bytes st else None
      | End_read_closed fd \<Rightarrow> if fd_in_process st fd = Some Reading
            then Some ([L_remove fd], remove_client fd (st\<lparr>fd_in_process := (fd_in_process st)(fd := None)\<rparr>)) else None
      | Write fd \<Rightarrow> Some ([], write_phase fd st)
      | End_write fd r \<Rightarrow>
          (case fd_in_process st fd of
             Some (Writing w) \<Rightarrow>
               if (case r of Sent n \<Rightarrow> n \<le> length (wr_msg w) - t_size_send w | _ \<Rightarrow> True) then
                 (case send_task w r of (t, w', taken) \<Rightarrow>
                    (case write_finished fd t w' st of (ls, st) \<Rightarrow> Some (L_sent fd taken # ls, st)))
               else None
           | _ \<Rightarrow> None)
      | Epollout fd \<Rightarrow> if fd_in_process st fd = None then Some ([], on_epollout fd st) else None
      | Answer fd cnt s msg crypted \<Rightarrow> Some ([], responser_add cfg fd cnt s msg crypted st)
      | Key_task i b \<Rightarrow> if i < length (key_tasks st)
            then (case key_tasks st ! i of (fd, cnt, str) \<Rightarrow>
                    Some ([], exchange_keys cfg fd cnt str b (st\<lparr>key_tasks := take i (key_tasks st) @ drop (i + 1) (key_tasks st)\<rparr>)))
            else None
      | Responces fd \<Rightarrow> Some (send_responces cfg fd st)
      | Listener fd types \<Rightarrow> Some ([], add_listener fd types st)
      | Ev ty data fd \<Rightarrow> Some (send_event cfg ty data fd st)
      | Authorize fd \<Rightarrow> Some ([], st\<lparr>authorized_clients := (authorized_clients st)(fd := map_option (\<lambda>c. c\<lparr>is_authorized := True\<rparr>) (authorized_clients st fd))\<rparr>)
      | Kick ms fd \<Rightarrow> Some (kick_unautorized ms fd st)
      | Echo ms fd \<Rightarrow> Some (echo_service cfg ms fd st))"

text \<open>A run and what was seen of it.\<close>

inductive ep_run :: "epoll_conf \<Rightarrow> label list \<Rightarrow> epoll_srv \<Rightarrow> bool" for cfg where
  ep_start: "ep_run cfg [] epoll_init"
| ep_step: "ep_run cfg tr st \<Longrightarrow> ep_exec cfg oper st = Some (ls, st') \<Longrightarrow> ep_run cfg (tr @ ls) st'"

section \<open>The bytes of a connection\<close>

text \<open>What a trace says of the connection a descriptor stands for now.\<close>

fun upd_pushed :: "fd \<Rightarrow> label \<Rightarrow> bytes list \<Rightarrow> bytes list" where
  "upd_pushed fd (L_accept f) ms = (if f = fd then [] else ms)"
| "upd_pushed fd (L_remove f) ms = (if f = fd then [] else ms)"
| "upd_pushed fd (L_push f m) ms = (if f = fd then ms @ [m] else ms)"
| "upd_pushed fd _ ms = ms"

fun upd_sent :: "fd \<Rightarrow> label \<Rightarrow> bytes \<Rightarrow> bytes" where
  "upd_sent fd (L_accept f) b = (if f = fd then [] else b)"
| "upd_sent fd (L_remove f) b = (if f = fd then [] else b)"
| "upd_sent fd (L_sent f t) b = (if f = fd then b @ t else b)"
| "upd_sent fd _ b = b"

definition pushed :: "fd \<Rightarrow> label list \<Rightarrow> bytes list" where
  "pushed fd tr = fold (upd_pushed fd) tr []"

definition sent :: "fd \<Rightarrow> label list \<Rightarrow> bytes" where
  "sent fd tr = fold (upd_sent fd) tr []"

definition rest_of :: "m_write \<Rightarrow> bytes" where
  "rest_of w = drop (t_size_send w) (wr_msg w)"

definition pending :: "epoll_srv \<Rightarrow> fd \<Rightarrow> bytes" where
  "pending st fd = (case fd_in_process st fd of Some (Writing w) \<Rightarrow> rest_of w | _ \<Rightarrow> []) @ concat (map rest_of (awaiting_for_write st fd))"

definition queue_ok :: "epoll_srv \<Rightarrow> fd \<Rightarrow> bool" where
  "queue_ok st fd \<longleftrightarrow> (authorized_clients st fd = None \<longrightarrow> awaiting_for_write st fd = [] \<and> fd_in_process st fd = None)"

definition keeps :: "epoll_conf \<Rightarrow> fd \<Rightarrow> label list \<Rightarrow> epoll_srv \<Rightarrow> epoll_srv \<Rightarrow> bool" where
  "keeps cfg fd ls st st' \<longleftrightarrow> (\<forall>ms b. concat (map (frame (det_string cfg)) ms) = b @ pending st fd \<and> queue_ok st fd \<longrightarrow>
     concat (map (frame (det_string cfg)) (fold (upd_pushed fd) ls ms)) = fold (upd_sent fd) ls b @ pending st' fd \<and> queue_ok st' fd)"

lemma keeps_trans: "keeps cfg fd ls st st1 \<Longrightarrow> keeps cfg fd ls' st1 st2 \<Longrightarrow> keeps cfg fd (ls @ ls') st st2"
  by (simp add: keeps_def) metis

text \<open>Operations that leave the queue and the tasks of a descriptor alone.\<close>

definition same_queue :: "fd \<Rightarrow> epoll_srv \<Rightarrow> epoll_srv \<Rightarrow> bool" where
  "same_queue fd st st' \<longleftrightarrow> (authorized_clients st' fd = None \<longleftrightarrow> authorized_clients st fd = None)
     \<and> awaiting_for_write st' fd = awaiting_for_write st fd \<and> fd_in_process st' fd = fd_in_process st fd"

lemma keeps_same: "same_queue fd st st' \<Longrightarrow> keeps cfg fd [] st st'"
  by (simp add: keeps_def same_queue_def pending_def queue_ok_def)

lemma rest_of_new [simp]: "rest_of (new_write m) = m"
  by (simp add: rest_of_def new_write_def)

lemma push_keeps: "push_message cfg f m st = (ls, st') \<Longrightarrow> keeps cfg fd ls st st'"
  by (auto simp: push_message_def Let_def keeps_def pending_def queue_ok_def frame_def split: option.splits)

lemma merge_short_take:
  "merge_short ws one k = (one', n) \<Longrightarrow> \<exists>j \<le> length ws. n = k + j \<and> one' = one @ concat (map rest_of (take j ws))"
proof (induction ws arbitrary: one k)
  case (Cons w ws)
  show ?case
  proof (cases "t_size_send w = 0 \<and> length (wr_msg w) < 1024 * 1024 \<and> length one < 1024 * 1024")
    case True
    then obtain j where "j \<le> length ws" "n = k + 1 + j" "one' = (one @ wr_msg w) @ concat (map rest_of (take j ws))"
      using Cons.IH[of "one @ wr_msg w" "k + 1"] Cons.prems by auto
    moreover have "rest_of w = wr_msg w" using True by (simp add: rest_of_def)
    ultimately show ?thesis by (intro exI[of _ "Suc j"]) simp
  next
    case False
    then show ?thesis using Cons.prems by (intro exI[of _ 0]) (auto split: if_splits)
  qed
qed simp

lemma split_short_rest: "concat (map rest_of (split_short_messages ws)) = concat (map rest_of ws)"
proof -
  obtain one n where m: "merge_short ws [] 0 = (one, n)" by fastforce
  then have "one = concat (map rest_of (take n ws))" using merge_short_take[OF m] by auto
  then have "concat (map rest_of (new_write one # drop n ws)) = concat (map rest_of (take n ws @ drop n ws))" by (simp del: append_take_drop_id)
  then show ?thesis by (simp add: split_short_messages_def m)
qed

lemma split_short_Nil: "split_short_messages [] = []"
  by (simp add: split_short_messages_def)

lemma write_to_fd_keeps: "fd_in_process st f = None \<Longrightarrow> authorized_clients st f \<noteq> None \<Longrightarrow> keeps cfg fd [] st (write_to_fd f st)"
proof -
  assume A: "fd_in_process st f = None" "authorized_clients st f \<noteq> None"
  have "pending (write_to_fd f st) fd = pending st fd"
    using split_short_rest[of "awaiting_for_write st f"] A
    by (cases "split_short_messages (awaiting_for_write st f)") (auto simp: write_to_fd_def pending_def)
  moreover have "queue_ok (write_to_fd f st) fd = queue_ok st fd"
    using A by (auto simp: write_to_fd_def queue_ok_def split: list.splits)
  ultimately show ?thesis by (simp add: keeps_def)
qed

lemma remove_keeps:
  "fd_in_process st f = None \<Longrightarrow> keeps cfg fd [L_remove f] st (remove_client f st)"
  by (auto simp: keeps_def remove_client_def pending_def queue_ok_def)

lemma accept_keeps:
  "fd_in_process st f = None \<Longrightarrow> authorized_clients st f = None \<Longrightarrow> keeps cfg fd [L_accept f] st (accept_client f st)"
  by (auto simp: keeps_def accept_client_def pending_def queue_ok_def Let_def)

lemma end_write_keeps:
  assumes "fd_in_process st f = Some (Writing w)" "case r of Sent n \<Rightarrow> n \<le> length (wr_msg w) - t_size_send w | _ \<Rightarrow> True"
    and "send_task w r = (t, w', taken)" "write_finished f t w' st = (ls, st')"
  shows "keeps cfg fd (L_sent f taken # ls) st st'"
proof -
  have r: "rest_of w = taken @ rest_of w'" "t = T_ok \<longrightarrow> rest_of w' = []"
    using assms(2,3) append_take_drop_id[of _ "drop (t_size_send w) (wr_msg w)"]
    by (auto simp: send_task_def rest_of_def Let_def add.commute split: if_splits send_result.splits)
  show ?thesis
    using assms(1,4) r
    by (cases t) (auto simp: write_finished_def Let_def keeps_def pending_def queue_ok_def remove_client_def rest_of_def)
qed

lemma process_message_keeps: "process_message cfg f str st = (ls, st') \<Longrightarrow> keeps cfg fd ls st st'"
  by (auto simp: process_message_def Let_def push_message_def keeps_def pending_def queue_ok_def frame_def
      split: option.splits if_splits)

lemma keeps_after: "same_queue fd st st1 \<Longrightarrow> keeps cfg fd ls st1 st2 \<Longrightarrow> keeps cfg fd ls st st2"
  using keeps_trans[OF keeps_same] by fastforce

lemma process_messages_keeps: "process_messages cfg f strs st = (ls, st') \<Longrightarrow> keeps cfg fd ls st st'"
proof (induction strs arbitrary: st ls)
  case (Cons m ms)
  then show ?case by (auto split: prod.splits intro!: keeps_trans dest: process_message_keeps)
qed (simp add: keeps_same same_queue_def)

lemma deliver_subs_keeps: "deliver_subs cfg f ms st = (ls, st') \<Longrightarrow> keeps cfg fd ls st st'"
proof (induction ms arbitrary: st ls)
  case (Cons m ms)
  show ?case
  proof (cases "is_key_generation m")
    case True
    then have "deliver_subs cfg f ms (set_key f (sub_str m) st) = (ls, st')" using Cons.prems by (simp split: prod.splits)
    moreover have "same_queue fd st (set_key f (sub_str m) st)" by (simp add: same_queue_def set_key_def)
    ultimately show ?thesis using keeps_after Cons.IH by blast
  next
    case False
    then show ?thesis using Cons.prems by (auto split: prod.splits intro!: keeps_trans dest: push_keeps Cons.IH)
  qed
qed (simp add: keeps_same same_queue_def)

lemma read_finished_keeps:
  assumes "fd_in_process st f = Some Reading" "read_finished cfg f bytes st = Some (ls, st')"
  shows "keeps cfg fd ls st st'"
proof -
  let ?s = "st\<lparr>fd_in_process := (fd_in_process st)(f := None)\<rparr>"
  have "pending ?s fd = pending st fd" using assms(1) by (auto simp: pending_def)
  then have k: "keeps cfg fd [] st ?s" by (auto simp: keeps_def queue_ok_def)
  have m: "fold (upd_pushed fd) (map (\<lambda>str. L_msg f str (g str)) xs) y = y" "fold (upd_sent fd) (map (\<lambda>str. L_msg f str (g str)) xs) z = z" for g xs y z
    by (induction xs) auto
  have g: "keeps cfg fd (L_recv f bytes # (if b then [] else map (\<lambda>str. L_msg f str (g str)) xs)) st1 st2" if "same_queue fd st1 st2" for b g xs st1 st2
    using that by (simp add: keeps_def m pending_def queue_ok_def same_queue_def)
  have "keeps cfg fd ls ?s st'"
  proof (cases "aes_key_of (case encryption_data st f of Some cr \<Rightarrow> cr | None \<Rightarrow> secure_init) = []")
    case True
    then consider "ls = []" "st' = ?s"
      | c parsed m' where "process_messages cfg f parsed (?s\<lparr>authorized_clients := (authorized_clients st)(f \<mapsto> c\<lparr>sc_m := m'\<rparr>)\<rparr>) = (ls, st')"
          "authorized_clients st f = Some c"
      using assms(2) by (auto simp: read_finished_def Let_def split: option.splits prod.splits)
    then show ?thesis
    proof cases
      case 2
      then show ?thesis by (intro keeps_after[OF _ process_messages_keeps[OF 2(1)]]) (auto simp: same_queue_def)
    qed (simp add: keeps_same same_queue_def)
  next
    case False
    then show ?thesis
      using assms(2) by (auto simp: read_finished_def Let_def same_queue_def simp del: list.map split: option.splits prod.splits intro!: g)
  qed
  then show ?thesis using keeps_trans[OF k] by simp
qed


lemma responser_put_same: "same_queue fd st (responser_put f cnt m st)"
  by (simp add: same_queue_def responser_put_def)

lemma responser_add_same: "same_queue fd st (responser_add cfg f cnt s msg cr st)"
  by (auto simp: responser_add_def Let_def responser_put_same split: option.splits)

lemma exchange_keys_same: "same_queue fd st (exchange_keys cfg f cnt str b st)"
  by (auto simp: exchange_keys_def responser_put_def same_queue_def split: option.splits)

lemma send_responces_keeps: "send_responces cfg f st = (ls, st') \<Longrightarrow> keeps cfg fd ls st st'"
proof -
  let ?s = "st\<lparr>resp := (resp st)(f := \<lambda>_. [])\<rparr>"
  assume "send_responces cfg f st = (ls, st')"
  then have "(ls, st') = ([], ?s) \<or> (\<exists>ms. deliver_subs cfg f ms ?s = (ls, st'))"
    by (auto simp: send_responces_def Let_def split: option.splits)
  then have "keeps cfg fd ls ?s st'" using deliver_subs_keeps by (auto simp: keeps_same same_queue_def)
  then show ?thesis by (rule keeps_after[rotated]) (simp add: same_queue_def)
qed

lemma add_listener_same: "same_queue fd st (add_listener f types st)"
  by (simp add: same_queue_def add_listener_def)

lemma send_event_keeps: "send_event cfg ty data f st = (ls, st') \<Longrightarrow> keeps cfg fd ls st st'"
  by (auto simp: send_event_def same_queue_def split: option.splits if_splits intro: keeps_same push_keeps)

lemma kick_keeps: "kick_unautorized ms f st = (ls, st') \<Longrightarrow> keeps cfg fd ls st st'"
  by (auto simp: kick_unautorized_def Let_def split: option.splits if_splits
      intro!: remove_keeps keeps_same keeps_after[OF _ remove_keeps]) (auto simp: same_queue_def)

lemma echo_keeps: "echo_service cfg ms f st = (ls, st') \<Longrightarrow> keeps cfg fd ls st st'"
  by (auto simp: echo_service_def Let_def split: option.splits if_splits
      intro!: keeps_same keeps_after[OF _ push_keeps]) (auto simp: same_queue_def)

lemma write_phase_keeps: "keeps cfg fd [] st (write_phase f st)"
  using write_to_fd_keeps[of st f cfg fd]
  by (auto simp: write_phase_def keeps_same same_queue_def split: list.splits) (auto simp: keeps_def queue_ok_def pending_def)

lemma on_epollout_keeps: "fd_in_process st f = None \<Longrightarrow> keeps cfg fd [] st (on_epollout f st)"
  by (auto simp: on_epollout_def keeps_def pending_def queue_ok_def rest_of_def split: list.splits)

lemma end_read_closed_keeps:
  assumes "fd_in_process st f = Some Reading"
  shows "keeps cfg fd [L_remove f] st (remove_client f (st\<lparr>fd_in_process := (fd_in_process st)(f := None)\<rparr>))"
  using assms by (auto simp: keeps_def remove_client_def pending_def queue_ok_def)

lemma ep_exec_keeps: "ep_exec cfg oper st = Some (ls, st') \<Longrightarrow> keeps cfg fd ls st st'"
proof (cases oper)
  case (End_write f r)
  assume "ep_exec cfg oper st = Some (ls, st')"
  then show ?thesis
    using End_write by (auto simp: ep_exec_def split: option.splits task_of.splits if_splits prod.splits intro!: end_write_keeps)
next
  case (Start_read f)
  assume "ep_exec cfg oper st = Some (ls, st')"
  then show ?thesis
    using Start_read by (auto simp: ep_exec_def keeps_def pending_def queue_ok_def split: if_splits)
next
  case (Key_task i b)
  assume "ep_exec cfg oper st = Some (ls, st')"
  then show ?thesis
    using Key_task by (auto simp: ep_exec_def split: if_splits prod.splits intro!: keeps_after[OF _ keeps_same[OF exchange_keys_same]])
      (simp add: same_queue_def)
next
  case (Authorize f)
  assume "ep_exec cfg oper st = Some (ls, st')"
  then show ?thesis using Authorize by (auto simp: ep_exec_def same_queue_def intro!: keeps_same)
qed (auto simp: ep_exec_def split: if_splits
    intro: accept_keeps remove_keeps read_finished_keeps end_read_closed_keeps write_phase_keeps on_epollout_keeps
      keeps_same[OF responser_add_same] keeps_same[OF add_listener_same] send_responces_keeps send_event_keeps kick_keeps echo_keeps)

lemma queue_ok_init: "queue_ok epoll_init fd"
  by (simp add: queue_ok_def epoll_init_def)

lemma run_stream:
  "ep_run cfg tr st \<Longrightarrow> concat (map (frame (det_string cfg)) (pushed fd tr)) = sent fd tr @ pending st fd \<and> queue_ok st fd"
proof (induction rule: ep_run.induct)
  case ep_start
  then show ?case by (simp add: pushed_def sent_def pending_def queue_ok_init) (simp add: epoll_init_def)
next
  case (ep_step tr st oper ls st')
  then show ?case using ep_exec_keeps[OF ep_step.hyps(2), of fd] by (auto simp: keeps_def pushed_def sent_def)
qed

section \<open>The messages of a connection\<close>

text \<open>The bytes read under the key of a connection, and the messages found in them.\<close>

fun upd_recv :: "fd \<Rightarrow> label \<Rightarrow> bytes \<Rightarrow> bytes" where
  "upd_recv fd (L_accept f) b = (if f = fd then [] else b)"
| "upd_recv fd (L_remove f) b = (if f = fd then [] else b)"
| "upd_recv fd (L_recv f x) b = (if f = fd then b @ x else b)"
| "upd_recv fd _ b = b"

fun upd_msgs :: "fd \<Rightarrow> label \<Rightarrow> bytes list \<Rightarrow> bytes list" where
  "upd_msgs fd (L_accept f) ms = (if f = fd then [] else ms)"
| "upd_msgs fd (L_remove f) ms = (if f = fd then [] else ms)"
| "upd_msgs fd (L_msg f x y) ms = (if f = fd then ms @ [x] else ms)"
| "upd_msgs fd _ ms = ms"

definition received :: "fd \<Rightarrow> label list \<Rightarrow> bytes" where
  "received fd tr = fold (upd_recv fd) tr []"

definition messages_of :: "fd \<Rightarrow> label list \<Rightarrow> bytes list" where
  "messages_of fd tr = fold (upd_msgs fd) tr []"

definition helper_of :: "epoll_srv \<Rightarrow> fd \<Rightarrow> message_helper" where
  "helper_of st fd = (case mt_messages st fd of Some m \<Rightarrow> m | None \<Rightarrow> mh_clear)"

definition input_ok :: "epoll_conf \<Rightarrow> fd \<Rightarrow> epoll_srv \<Rightarrow> bytes \<Rightarrow> bytes list \<Rightarrow> bool" where
  "input_ok cfg fd st b ms \<longleftrightarrow> queue_ok st fd \<and> (authorized_clients st fd = None \<longrightarrow> mt_messages st fd = None)
     \<and> feed (det_string cfg) b mh_clear = (ms, helper_of st fd)"

text \<open>Operations that read nothing under a key.\<close>

definition silent :: "label \<Rightarrow> bool" where
  "silent l \<longleftrightarrow> (case l of L_push _ _ \<Rightarrow> True | L_sent _ _ \<Rightarrow> True | L_plain _ _ \<Rightarrow> True | _ \<Rightarrow> False)"

definition same_input :: "label list \<Rightarrow> epoll_srv \<Rightarrow> epoll_srv \<Rightarrow> bool" where
  "same_input ls st st' \<longleftrightarrow> (\<forall>l \<in> set ls. silent l) \<and> mt_messages st' = mt_messages st
     \<and> (\<forall>f. authorized_clients st' f = None \<longleftrightarrow> authorized_clients st f = None)"

lemma same_input_trans: "same_input ls st st1 \<Longrightarrow> same_input ls' st1 st2 \<Longrightarrow> same_input (ls @ ls') st st2"
  by (auto simp: same_input_def)

lemma silent_fold: "\<forall>l \<in> set ls. silent l \<Longrightarrow> fold (upd_recv fd) ls b = b \<and> fold (upd_msgs fd) ls ms = ms"
proof (induction ls arbitrary: b ms)
  case (Cons l ls)
  then have "upd_recv fd l b = b" "upd_msgs fd l ms = ms" by (cases l; auto simp: silent_def)+
  then show ?case using Cons by simp
qed simp

lemma push_same_input: "push_message cfg f m st = (ls, st') \<Longrightarrow> same_input ls st st'"
  by (auto simp: push_message_def Let_def same_input_def silent_def split: option.splits)

lemma process_message_same_input: "process_message cfg f str st = (ls, st') \<Longrightarrow> same_input ls st st'"
  by (auto simp: process_message_def Let_def push_message_def same_input_def silent_def split: option.splits if_splits)

lemma process_messages_same_input: "process_messages cfg f strs st = (ls, st') \<Longrightarrow> same_input ls st st'"
proof (induction strs arbitrary: st ls)
  case (Cons m ms)
  then show ?case by (auto split: prod.splits intro!: same_input_trans dest: process_message_same_input)
qed (simp add: same_input_def)

lemma deliver_subs_same_input: "deliver_subs cfg f ms st = (ls, st') \<Longrightarrow> same_input ls st st'"
proof (induction ms arbitrary: st ls)
  case (Cons m ms)
  obtain l1 s1 where 1: "(if is_key_generation m then ([], set_key f (sub_str m) st) else push_message cfg f m st) = (l1, s1)" by fastforce
  have "same_input l1 st s1" using 1 push_same_input by (auto simp: same_input_def set_key_def split: if_splits)
  moreover obtain l2 where "deliver_subs cfg f ms s1 = (l2, st')" "ls = l1 @ l2" using Cons.prems 1 by (auto split: prod.splits)
  ultimately show ?case using Cons.IH same_input_trans by blast
qed (simp add: same_input_def)

lemma send_responces_same_input: "send_responces cfg f st = (ls, st') \<Longrightarrow> same_input ls st st'"
  by (auto simp: send_responces_def Let_def split: option.splits dest!: deliver_subs_same_input) (auto simp: same_input_def)

lemma echo_same_input: "echo_service cfg ms f st = (ls, st') \<Longrightarrow> same_input ls st st'"
  by (auto simp: echo_service_def Let_def split: option.splits if_splits dest!: push_same_input) (auto simp: same_input_def)

lemma write_phase_same_input: "same_input [] st (write_phase f st)"
  by (auto simp: write_phase_def write_to_fd_def same_input_def split: list.splits)

lemma write_finished_cases:
  "write_finished f t w st = (ls, st') \<Longrightarrow> t \<noteq> T_remove \<and> same_input ls st st'
    \<or> (ls, st') = ([L_remove f], remove_client f (st\<lparr>fd_in_process := (fd_in_process st)(f := None)\<rparr>))"
  by (cases t) (auto simp: write_finished_def Let_def same_input_def)


lemma same_input_ok: "same_input ls st st' \<Longrightarrow> queue_ok st' fd \<Longrightarrow> input_ok cfg fd st b ms
    \<Longrightarrow> input_ok cfg fd st' (fold (upd_recv fd) ls b) (fold (upd_msgs fd) ls ms)"
  using silent_fold[of ls fd b ms] by (auto simp: same_input_def input_ok_def helper_of_def)

lemma remove_input_ok:
  assumes "input_ok cfg fd st b ms" "queue_ok (remove_client f st1) fd" "mt_messages st1 = mt_messages st" "authorized_clients st1 = authorized_clients st"
  shows "input_ok cfg fd (remove_client f st1) (if f = fd then [] else b) (if f = fd then [] else ms)"
  using assms by (auto simp: input_ok_def helper_of_def remove_client_def)

lemma fold_messages:
  "fold (upd_recv fd) (map (\<lambda>str. L_msg f str (g str)) xs) b = b"
  "fold (upd_msgs fd) (map (\<lambda>str. L_msg f str (g str)) xs) ms = (if f = fd then ms @ xs else ms)"
  by (induction xs arbitrary: ms) auto

lemma read_input_ok:
  assumes "read_finished cfg f bytes st = Some (ls, st')" "fd_in_process st f = Some Reading" "queue_ok st' fd"
    and "input_ok cfg fd st b ms" "det_ok (det_string cfg)"
  shows "input_ok cfg fd st' (fold (upd_recv fd) ls b) (fold (upd_msgs fd) ls ms)"
proof (cases "aes_key_of (case encryption_data st f of Some cr \<Rightarrow> cr | None \<Rightarrow> secure_init) = []")
  case True
  then have "same_input ls st st'"
    using assms(1)
    by (auto simp: read_finished_def Let_def split: option.splits prod.splits dest!: process_messages_same_input)
      (auto simp: same_input_def split: if_splits)
  then show ?thesis using same_input_ok assms(3,4) by blast
next
  case False
  let ?det = "det_string cfg"
  show ?thesis
  proof (cases "f = fd")
    case same: True
    have h: "feed ?det b mh_clear = (ms, helper_of st fd)" using assms(4) by (simp add: input_ok_def)
    then have ok: "helper_ok ?det (helper_of st fd)" using feed_ok[OF helper_ok_clear[OF assms(5)] assms(5), of b] by simp
    obtain strs m' where F: "feed ?det bytes (helper_of st fd) = (strs, m')" by fastforce
    then have pr: "process_read2 (helper_of st fd) bytes ?det = Some (strs, m')" using process_read2_feed[OF ok assms(5)] by simp
    have "helper_ok ?det m'" using feed_ok[OF ok assms(5), of bytes] F by simp
    then have clear: "mh_del_message m' = [] \<Longrightarrow> mh_message m' = [] \<Longrightarrow> m' = mh_clear"
      by (cases m') (simp add: helper_ok_def mh_clear_def)
    have c: "authorized_clients st fd \<noteq> None" using assms(2,4) same by (auto simp: input_ok_def queue_ok_def)
    have "feed ?det (b @ bytes) mh_clear = (ms @ strs, m')" using h F by (simp add: feed_append)
    then show ?thesis
      using assms(1,3) pr False c clear same
      by (auto simp: read_finished_def Let_def input_ok_def helper_of_def fold_messages split: if_splits)
  next
    case diff: False
    then show ?thesis
      using assms(1,3,4) False
      by (auto simp: read_finished_def Let_def input_ok_def helper_of_def fold_messages split: option.splits if_splits prod.splits)
  qed
qed

lemma ep_exec_input:
  assumes "ep_exec cfg oper st = Some (ls, st')" "queue_ok st' fd" "input_ok cfg fd st b ms" "det_ok (det_string cfg)"
  shows "input_ok cfg fd st' (fold (upd_recv fd) ls b) (fold (upd_msgs fd) ls ms)"
proof -
  consider f bytes where "oper = End_read f bytes" | f where "oper = Accept f"
    | f st1 ls' where "ls = ls' @ [L_remove f]" "\<forall>l \<in> set ls'. silent l" "st' = remove_client f st1" "mt_messages st1 = mt_messages st" "\<forall>f. (authorized_clients st1 f = None) = (authorized_clients st f = None)"
    | "same_input ls st st'"
  proof (cases oper)
    case (End_write f r)
    then show ?thesis
      using assms(1) that(3)[of "[L_sent f _]"] that(4)
      by (auto simp: ep_exec_def silent_def same_input_def split: option.splits task_of.splits if_splits prod.splits dest!: write_finished_cases)
  next
    case (Kick k f)
    then show ?thesis
      using assms(1) that(3)[of "[]"] that(4)
      by (auto simp: ep_exec_def kick_unautorized_def Let_def same_input_def split: option.splits if_splits)
  next
    case (Echo k f)
    then show ?thesis using assms(1) that(4) echo_same_input by (auto simp: ep_exec_def)
  next
    case (Ev ty data f)
    then show ?thesis
      using assms(1) that(4) push_same_input by (auto simp: ep_exec_def send_event_def same_input_def split: option.splits if_splits)
  next
    case (Responces f)
    then show ?thesis using assms(1) that(4) send_responces_same_input by (auto simp: ep_exec_def)
  next
    case (Write f)
    then show ?thesis using assms(1) that(4) write_phase_same_input by (auto simp: ep_exec_def)
  qed (use assms(1) that in \<open>auto simp: ep_exec_def same_input_def on_epollout_def responser_add_def responser_put_def exchange_keys_def
      add_listener_def Let_def split: if_splits option.splits prod.splits list.splits\<close>)
  then show ?thesis
  proof cases
    case (1 f bytes)
    then show ?thesis using read_input_ok assms by (auto simp: ep_exec_def split: if_splits)
  next
    case (2 f)
    then show ?thesis
      using assms by (auto simp: ep_exec_def accept_client_def Let_def input_ok_def helper_of_def split: if_splits)
  next
    case (3 f st1 ls')
    have "fold (upd_recv fd) ls b = (if f = fd then [] else b)" "fold (upd_msgs fd) ls ms = (if f = fd then [] else ms)"
      using 3(1) silent_fold[OF 3(2), of fd b ms] by auto
    then show ?thesis using assms(2,3) 3(3-5) by (auto simp: input_ok_def helper_of_def remove_client_def)
  next
    case 4
    then show ?thesis using same_input_ok assms(2,3) by blast
  qed
qed

lemma run_input:
  "ep_run cfg tr st \<Longrightarrow> det_ok (det_string cfg) \<Longrightarrow> input_ok cfg fd st (received fd tr) (messages_of fd tr)"
proof (induction rule: ep_run.induct)
  case ep_start
  then show ?case by (simp add: input_ok_def received_def messages_of_def queue_ok_init) (simp add: helper_of_def epoll_init_def)
next
  case (ep_step tr st oper ls st')
  have "queue_ok st' fd" using run_stream[OF ep_run.ep_step[OF ep_step.hyps(1,2)]] by blast
  then show ?case using ep_exec_input[OF ep_step.hyps(2)] ep_step by (simp add: received_def messages_of_def)
qed


section \<open>An example run\<close>

fun ep_execs :: "epoll_conf \<Rightarrow> ep_op list \<Rightarrow> epoll_srv \<Rightarrow> (label list \<times> epoll_srv) option" where
  "ep_execs cfg [] st = Some ([], st)"
| "ep_execs cfg (x # xs) st =
     (case ep_exec cfg x st of None \<Rightarrow> None
      | Some (ls, st) \<Rightarrow> (case ep_execs cfg xs st of None \<Rightarrow> None | Some (ls', st) \<Rightarrow> Some (ls @ ls', st)))"

lemma ep_execs_run: "ep_run cfg tr st \<Longrightarrow> ep_execs cfg xs st = Some (ls, st') \<Longrightarrow> ep_run cfg (tr @ ls) st'"
proof (induction xs arbitrary: tr st ls)
  case (Cons x xs)
  then obtain l1 s1 l2 where "ep_exec cfg x st = Some (l1, s1)" "ep_execs cfg xs s1 = Some (l2, st')" "ls = l1 @ l2"
    by (auto split: option.splits)
  then show ?case using Cons.IH[OF ep_run.ep_step[OF Cons.prems(1)]] by simp
qed simp

definition sample_epoll :: epoll_conf where
  "sample_epoll = \<lparr>det_string = ''#'', echo_string = [], ec_is_aes = True, ec_is_gost = False,
     aes_encrypt = \<lambda>x _ _. x, aes_decrypt = \<lambda>x _ _. x, gost_crypt = \<lambda>x _. x, gost_decrypt = \<lambda>x _. x,
     zlib_decompress = \<lambda>x. x, dh_pow = \<lambda>x y z. ''4'', md5_hex = \<lambda>k. ''key''\<rparr>"

lemma sample_epoll_fields:
  "det_string sample_epoll = ''#''" "echo_string sample_epoll = []" "ec_is_aes sample_epoll" "\<not> ec_is_gost sample_epoll"
  "aes_encrypt sample_epoll x k v = x" "aes_decrypt sample_epoll x k v = x"
  by (simp_all add: sample_epoll_def)

lemma sample_marker: "marker ''#''"
  by (simp add: marker_def det_ok_def)

lemma sample_payload: "payload_ok ''#'' ''hi''"
  by (simp add: payload_ok_def sublist_def append_eq_Cons_conv Cons_eq_append_conv)

text \<open>A short answer, half of which the kernel takes at once.\<close>

definition sample_answer :: "ep_op list" where
  "sample_answer = [Accept 5, Answer 5 1 None ''hi'' False, Responces 5, Write 5, End_write 5 (Sent 2), Epollout 5, Write 5, End_write 5 (Sent 2)]"

lemma sample_answer_run:
  "\<exists>st. ep_run sample_epoll [L_accept 5, L_push 5 ''hi'', L_sent 5 ''#h'', L_sent 5 ''i#''] st \<and> pending st 5 = []"
proof -
  have "\<exists>st. ep_execs sample_epoll sample_answer epoll_init = Some ([L_accept 5, L_push 5 ''hi'', L_sent 5 ''#h'', L_sent 5 ''i#''], st) \<and> pending st 5 = []"
    by (simp add: sample_answer_def ep_exec_def accept_client_def epoll_init_def responser_add_def responser_put_def Let_def
        send_responces_def push_message_def sub_text_def secure_init_def sample_epoll_def write_phase_def write_to_fd_def new_write_def
        split_short_messages_def send_task_def write_finished_def on_epollout_def pending_def)
  then show ?thesis using ep_execs_run[OF ep_run.ep_start] by fastforce
qed

text \<open>A handshake and a message that arrives in two pieces.\<close>

definition sample_keys :: bytes where
  "sample_keys = numeric_to_chars (2 :: int32) 4 @ ''2'' @ ''11'' @ ''444''"

definition sample_request :: "ep_op list" where
  "sample_request = [Accept 5, Start_read 5, End_read 5 (''#'' @ sample_keys @ ''#''), Key_task 0 ''2'', Responces 5, Start_read 5, End_read 5 ''#ok_aes#'',
     Start_read 5, End_read 5 ''#h'', Start_read 5, End_read 5 ''i#'']"

lemma sample_reads:
  "process_read2 mh_clear (''#'' @ sample_keys @ ''#'') ''#'' = Some ([sample_keys], mh_clear)"
  "process_read2 mh_clear ''#ok_aes#'' ''#'' = Some ([''ok_aes''], mh_clear)"
  "process_read2 mh_clear ''#h'' ''#'' = Some ([], mh_clear\<lparr>mh_message := ''h''\<rparr>)"
  "process_read2 (mh_clear\<lparr>mh_message := ''h''\<rparr>) ''i#'' ''#'' = Some ([''hi''], mh_clear)"
  by code_simp+

lemma sample_exchange: "key_exchange sample_epoll sample_keys ''2'' = Some (''key'', ''4'')"
  by code_simp

lemma sample_request_run:
  "\<exists>st. ep_run sample_epoll [L_accept 5, L_push 5 ''4'', L_push 5 ''ok_aes'', L_recv 5 ''#h'', L_recv 5 ''i#'', L_msg 5 ''hi'' ''hi''] st"
proof -
  have "\<exists>st. ep_execs sample_epoll sample_request epoll_init =
      Some ([L_accept 5, L_push 5 ''4'', L_push 5 ''ok_aes'', L_recv 5 ''#h'', L_recv 5 ''i#'', L_msg 5 ''hi'' ''hi''], st)"
    by (simp add: sample_request_def ep_exec_def accept_client_def epoll_init_def read_finished_def responser_put_def Let_def secure_init_def
        sample_reads[simplified] process_message_def exchange_keys_def sample_exchange send_responces_def set_key_def push_message_def
        sub_text_def plain_def encrypt_for_def decrypt_for_def sample_epoll_fields)
  then show ?thesis using ep_execs_run[OF ep_run.ep_start] by fastforce
qed

section \<open>Properties\<close>








end
