(* ===== verification/W_Type.thy ===== *)
theory W_Type
  imports Bitbase Date_Time
begin

text \<open>
  The types files carry in their headers, the status codes of the server and the decoding of a file
  message at the client, \<open>rssdisk_w_type.hpp\<close>. The enumeration has an \<open>int\<close> behind it and is
  cast from numbers read from files, so it can hold any number.
\<close>

section \<open>Enumerations\<close>

datatype w_type = insert_only | updatable | insert_only_without_compress | updatable_without_compress
  | jdb | jdb_formed | jdb_data | w_none | edb_t | ajdb | cdb | cdbm | appendable | w_other int

definition w_type_of :: "int \<Rightarrow> w_type" where
  "w_type_of i =
     (if i = 0 then insert_only else if i = 1 then updatable else if i = 2 then insert_only_without_compress
      else if i = 3 then updatable_without_compress else if i = 4 then jdb else if i = 5 then jdb_formed
      else if i = 6 then jdb_data else if i = 7 then w_none else if i = 8 then edb_t else if i = 9 then ajdb
      else if i = 10 then cdb else if i = 11 then cdbm else if i = 12 then appendable else w_other i)"

fun w_int :: "w_type \<Rightarrow> int" where
  "w_int insert_only = 0"
| "w_int updatable = 1"
| "w_int insert_only_without_compress = 2"
| "w_int updatable_without_compress = 3"
| "w_int jdb = 4"
| "w_int jdb_formed = 5"
| "w_int jdb_data = 6"
| "w_int w_none = 7"
| "w_int edb_t = 8"
| "w_int ajdb = 9"
| "w_int cdb = 10"
| "w_int cdbm = 11"
| "w_int appendable = 12"
| "w_int (w_other i) = i"

lemma w_int_of [simp]: "w_int (w_type_of i) = i"
  by (simp add: w_type_of_def)

text \<open>\<open>enum_to_string::get\<close>; an unknown value gets the empty string.\<close>

fun enum_to_string :: "w_type \<Rightarrow> string" where
  "enum_to_string insert_only = ''w_type::insert_only''"
| "enum_to_string updatable = ''w_type::updatable''"
| "enum_to_string insert_only_without_compress = ''w_type::insert_only_without_compress''"
| "enum_to_string updatable_without_compress = ''w_type::updatable_without_compress''"
| "enum_to_string jdb = ''w_type::jdb''"
| "enum_to_string jdb_formed = ''w_type::jdb_formed''"
| "enum_to_string jdb_data = ''w_type::jdb_data''"
| "enum_to_string w_none = ''w_type::none''"
| "enum_to_string edb_t = ''w_type::edb''"
| "enum_to_string ajdb = ''w_type::ajdb''"
| "enum_to_string cdb = ''w_type::cdb''"
| "enum_to_string cdbm = ''w_type::cdbm''"
| "enum_to_string appendable = ''w_type::appendable''"
| "enum_to_string (w_other i) = []"

datatype status = st_ok | to_small_content_size | all_directories_are_full | cant_write_file_to_disk
  | file_name_must_not_be_empty | cant_read_file | file_not_found | file_busy | too_long_filename
  | auth_failed | incorrect_secure_key | write_is_disabled | read_is_disabled | subfolder_not_found
  | setting_not_found | errorstr

fun status_int :: "status \<Rightarrow> int" where
  "status_int st_ok = 1"
| "status_int to_small_content_size = 2"
| "status_int all_directories_are_full = 3"
| "status_int cant_write_file_to_disk = 4"
| "status_int file_name_must_not_be_empty = 5"
| "status_int cant_read_file = 6"
| "status_int file_not_found = 7"
| "status_int file_busy = 8"
| "status_int too_long_filename = 9"
| "status_int auth_failed = 10"
| "status_int incorrect_secure_key = 11"
| "status_int write_is_disabled = 12"
| "status_int read_is_disabled = 13"
| "status_int subfolder_not_found = 14"
| "status_int setting_not_found = 15"
| "status_int errorstr = 16"

definition status_texts :: "(int \<times> string) list" where
  "status_texts =
     [(1, ''ok''), (2, ''to_small_content_size''), (3, ''all_directories_are_full''),
      (4, ''cant_write_file_to_disk''), (5, ''file_name_must_not_be_empty''), (6, ''cant_read_file''),
      (7, ''file_not_found''), (8, ''file_busy''), (9, ''too_long_filename''), (10, ''auth_failed''),
      (11, ''incorrect_secure_key''), (12, ''write_is_disabled''), (13, ''read_is_disabled''),
      (14, ''subfolder_not_found''), (15, ''setting_not_found''), (16, ''errorstr'')]"

definition response_get :: "int \<Rightarrow> string" where
  "response_get s = (case map_of status_texts s of Some t \<Rightarrow> t | None \<Rightarrow> [])"

text \<open>Two-digit numbers, as the headers and the status have them.\<close>

definition two_digits :: "int \<Rightarrow> string" where
  "two_digits i = (let s = to_string i in if length s = 1 then ''0'' @ s else s)"

text \<open>\<open>server::response::set\<close>: the status and, when it is not \<open>ok\<close>, its text.\<close>

definition response_set :: "status \<Rightarrow> string \<times> string option" where
  "response_set s =
     (two_digits (status_int s), if status_int s \<noteq> 1 then Some (response_get (status_int s)) else None)"

section \<open>Reading a message\<close>

record read_info =
  file_type :: w_type
  file_tms :: int64
  file_crc32 :: int64
  file_created :: date_time
  ttl_days :: "16 word"
  ri_header :: bytes
  ri_content :: bytes

definition read_info_init :: read_info where
  "read_info_init = \<lparr>file_type = insert_only, file_tms = 0, file_crc32 = 0, file_created = date_time_init,
     ttl_days = -1, ri_header = [], ri_content = []\<rparr>"

text \<open>
  Reading \<open>s[i]\<close>: the terminating zero at the end of the string, and whatever the memory holds
  after it; \<open>oob\<close> stands for that.
\<close>

definition char_at :: "(nat \<Rightarrow> char) \<Rightarrow> bytes \<Rightarrow> nat \<Rightarrow> char" where
  "char_at oob s i = (if i < length s then s ! i else if i = length s then CHR 0x00 else oob i)"

text \<open>
  The scan for the time to live: at most ten characters up to a blank. Its condition
  \<open>i < size, n < 10\<close> tests \<open>n\<close> only.
\<close>

fun scan_ttl :: "(nat \<Rightarrow> char) \<Rightarrow> bytes \<Rightarrow> nat \<Rightarrow> nat \<Rightarrow> bytes \<Rightarrow> nat \<times> bytes" where
  "scan_ttl oob s i 0 ttl = (i, ttl)"
| "scan_ttl oob s i (Suc n) ttl =
     (if char_at oob s i = CHR '' '' then (i + 1, ttl)
      else scan_ttl oob s (i + 1) n (ttl @ [char_at oob s i]))"

definition stoi_short :: "string \<Rightarrow> 16 word \<Rightarrow> bool \<times> 16 word" where
  "stoi_short str l = (case std_stoi str of Inl _ \<Rightarrow> (False, l) | Inr v \<Rightarrow> (True, word_of_int v))"

definition tail_content :: "(nat \<Rightarrow> char) \<Rightarrow> bytes \<Rightarrow> nat \<Rightarrow> read_info \<Rightarrow> read_info" where
  "tail_content oob message start_from ri =
     (let (start_from, ttl) = scan_ttl oob message start_from 10 [];
          ri = ri\<lparr>ttl_days := snd (stoi_short ttl (ttl_days ri))\<rparr>
      in if length message > start_from then
           ri\<lparr>ri_header := take start_from message, ri_content := drop start_from message\<rparr>
         else ri)"

definition created_of :: "bytes \<Rightarrow> read_info \<Rightarrow> read_info" where
  "created_of s ri =
     ri\<lparr>file_created := snd (parse_date_time s ''yyyy-MM-dd HH:mm:ss'' date_and_time (file_created ri))\<rparr>"

definition fetch_content :: "(nat \<Rightarrow> char) \<Rightarrow> bytes \<Rightarrow> nat \<Rightarrow> read_info \<Rightarrow> read_info res" where
  "fetch_content oob message start_from ri =
     bind_res (substr message start_from 2) (\<lambda>ty.
       let start_from = start_from + 2;
           ri = ri\<lparr>file_type := w_type_of (sint (snd (stoi_int ty 0)))\<rparr>
       in if file_type ri = cdb then
            bind_res (substr message 16 8) (\<lambda>tms. bind_res (substr message 24 8) (\<lambda>crc.
            bind_res (substr_from message 32) (\<lambda>c.
              Inr (ri\<lparr>file_tms := chars_to_numeric tms, file_crc32 := chars_to_numeric crc, ri_content := c\<rparr>))))
          else if file_type ri = updatable \<or> file_type ri = updatable_without_compress
              \<or> file_type ri = jdb \<or> file_type ri = ajdb then
            bind_res (substr message start_from 8) (\<lambda>tms. bind_res (substr message (start_from + 8) 8) (\<lambda>crc.
            bind_res (substr message (start_from + 16) 19) (\<lambda>created.
              Inr (tail_content oob message (start_from + 35)
                (created_of created (ri\<lparr>file_tms := chars_to_numeric tms, file_crc32 := chars_to_numeric crc\<rparr>))))))
          else if file_type ri = appendable then
            bind_res (substr message start_from 8) (\<lambda>tms. bind_res (substr message (start_from + 8) 19) (\<lambda>created.
              Inr (tail_content oob message (start_from + 27)
                (created_of created (ri\<lparr>file_tms := chars_to_numeric tms\<rparr>)))))
          else
            bind_res (substr message start_from 19) (\<lambda>created.
              Inr (tail_content oob message (start_from + 19) (created_of created ri))))"

section \<open>Headers are read back\<close>

lemma two_digits_length: "0 \<le> i \<Longrightarrow> i \<le> 99 \<Longrightarrow> length (two_digits i) = 2"
  by (cases "i < 10") (simp_all add: two_digits_def to_string_def nat_to_string_length nat_less_iff le_nat_iff Let_def)

lemma two_digits_stoi:
  assumes "0 \<le> i" "i \<le> 99"
  shows "stoi_int (two_digits i) l = (True, word_of_int i)"
proof -
  have d: "two_digits i \<noteq> []" "\<forall>c \<in> set (two_digits i). isdigit c" "digits_val (two_digits i) = nat i"
    using to_string_digits[OF assms(1)] by (auto simp: two_digits_def Let_def isdigit_def digits_val_def digit_val_def)
  then have "strtol (two_digits i) = Some i" using strtol_digits(1)[of "two_digits i" "[]"] assms(1) by simp
  then show ?thesis using assms by (simp add: stoi_int_def std_stoi_def stol_range_def)
qed

lemma scan_ttl_found:
  assumes "CHR '' '' \<notin> set ttl" "length ttl < n" "length pre = i"
  shows "scan_ttl oob (pre @ ttl @ '' '' @ rest) i n acc = (i + length ttl + 1, acc @ ttl)"
  using assms
proof (induction ttl arbitrary: pre i n acc)
  case Nil
  then show ?case by (cases n) (simp_all add: char_at_def nth_append)
next
  case (Cons c ttl)
  then obtain n' where n: "n = Suc n'" by (cases n) simp_all
  have "scan_ttl oob ((pre @ [c]) @ ttl @ '' '' @ rest) (i + 1) n' (acc @ [c]) = (i + 1 + length ttl + 1, (acc @ [c]) @ ttl)"
    using Cons.prems n by (intro Cons.IH) auto
  moreover have "char_at oob (pre @ (c # ttl) @ '' '' @ rest) i = c" using Cons.prems(3) by (simp add: char_at_def nth_append)
  ultimately show ?case using Cons.prems n by auto
qed

end
