(* ===== verification/Disk_Helper.thy ===== *)
theory Disk_Helper
  imports W_Type
begin

text \<open>
  The file operations of \<open>disk_helper.hpp\<close> on a file system that maps paths to contents. Whether a
  path can be opened for writing is a parameter. Sizes are computed as the code does: \<open>size_t\<close> and
  \<open>int64\<close> as 64-bit words, block counts truncated to \<open>int32\<close>.
\<close>

section \<open>Operations\<close>

type_synonym fsys = "string \<rightharpoonup> bytes"

text \<open>\<open>tellg\<close> of a stream that is not open is \<open>-1\<close>.\<close>

definition get_file_size :: "fsys \<Rightarrow> string \<Rightarrow> uint64" where
  "get_file_size fs f = (case fs f of None \<Rightarrow> -1 | Some c \<Rightarrow> of_nat (length c))"

definition is_file_exists :: "fsys \<Rightarrow> string \<Rightarrow> bool" where
  "is_file_exists fs f \<longleftrightarrow> fs f \<noteq> None"

text \<open>Bytes of \<open>count\<close> blocks, with the count truncated to 32 bits.\<close>

definition block_bytes :: "uint64 \<Rightarrow> int64 \<Rightarrow> uint64" where
  "block_bytes count fs_block_size = scast (ucast count :: int32) * fs_block_size"

definition round_up :: "uint64 \<Rightarrow> int64 \<Rightarrow> uint64" where
  "round_up sz fs_block_size = (if sz \<noteq> 0 then block_bytes (sz div fs_block_size + 1) fs_block_size else 0)"

text \<open>There is no guard here: a block size of zero divides by zero.\<close>

definition get_file_size_fs_block_size :: "fsys \<Rightarrow> string \<Rightarrow> int64 \<Rightarrow> int64 res" where
  "get_file_size_fs_block_size fs f fs_block_size =
     (if fs_block_size = 0 then Inl Div_trap
      else Inr (block_bytes (get_file_size fs f div fs_block_size + 1) fs_block_size))"

definition file_text :: "string list \<Rightarrow> date_time \<Rightarrow> int32 \<Rightarrow> bytes \<Rightarrow> bytes" where
  "file_text headers now ttl content = concat headers @ get_date_time now @ to_string (sint ttl) @ '' '' @ content"

definition write_file_to_disk ::
  "(string \<Rightarrow> bool) \<Rightarrow> date_time \<Rightarrow> string \<Rightarrow> string \<Rightarrow> bytes \<Rightarrow> int32 \<Rightarrow> int32 \<Rightarrow> int64 \<Rightarrow> string list \<Rightarrow> bool
    \<Rightarrow> fsys \<Rightarrow> bool \<times> int32 \<times> fsys" where
  "write_file_to_disk writable now path file_name content sz ttl fs_block_size headers write_headers fs =
     (let f = path @ file_name; old_size = get_file_size fs f
      in if content \<noteq> [] then
           (if \<not> writable f then (False, sz, fs)
            else
              (let new_size = of_nat (length content);
                   new_size = (if write_headers
                     then new_size + 20 + of_nat (length (to_string (sint ttl))) + of_nat (length (concat headers)) else new_size);
                   fs = fs(f \<mapsto> (if write_headers then file_text headers now ttl content else content));
                   (old_size, new_size) = (if fs_block_size \<noteq> 0
                     then (round_up old_size fs_block_size, round_up new_size fs_block_size) else (old_size, new_size))
               in (True, sz + ucast (new_size - old_size), fs)))
         else
           (let old_size = (if fs_block_size \<noteq> 0 then round_up old_size fs_block_size else old_size)
            in (True, sz + ucast (- old_size), fs(f := None))))"

definition read_file :: "fsys \<Rightarrow> string \<Rightarrow> string \<Rightarrow> bytes \<Rightarrow> nat \<Rightarrow> bool \<times> bytes" where
  "read_file fs path file_name content max_bytes_read =
     (case fs (path @ file_name) of
        None \<Rightarrow> (False, content)
      | Some c \<Rightarrow>
          (True, take (if max_bytes_read \<noteq> 0 \<and> max_bytes_read < length c then max_bytes_read else length c) c))"

definition append_to_file :: "(string \<Rightarrow> bool) \<Rightarrow> string \<Rightarrow> bytes \<Rightarrow> fsys \<Rightarrow> bool \<times> fsys" where
  "append_to_file writable f content fs =
     (if \<not> writable f then (False, fs)
      else (True, fs(f \<mapsto> (case fs f of None \<Rightarrow> [] | Some c \<Rightarrow> c) @ content)))"

definition disk_write :: "(string \<Rightarrow> bool) \<Rightarrow> string \<Rightarrow> bytes \<Rightarrow> fsys \<Rightarrow> bool \<times> fsys" where
  "disk_write writable f content fs = (if \<not> writable f then (False, fs) else (True, fs(f \<mapsto> content)))"

text \<open>\<open>std::remove\<close>.\<close>

definition fs_remove :: "string \<Rightarrow> fsys \<Rightarrow> fsys" where
  "fs_remove f fs = fs(f := None)"

text \<open>
  Walking a directory: the entries the iterator yields, each a directory or a file of some size.
\<close>

record dir_entry =
  is_directory :: bool
  entry_name :: string
  entry_size :: int64

definition get_dir_size :: "dir_entry list \<Rightarrow> int64 \<Rightarrow> int64" where
  "get_dir_size entries fs_block_size =
     foldl (\<lambda>sz e. if is_directory e then sz
              else if fs_block_size \<noteq> 0
                then sz + block_bytes (word_of_int (cdiv (sint (entry_size e)) (sint fs_block_size) + 1)) fs_block_size
                else sz + entry_size e) 0 entries"

definition list_dir :: "dir_entry list \<Rightarrow> string \<Rightarrow> string list" where
  "list_dir entries contain =
     map entry_name (filter (\<lambda>e. \<not> is_directory e \<and> (contain = [] \<or> str_find (entry_name e) contain 0 \<noteq> None)) entries)"

text \<open>\<open>stem\<close>: the name up to its last dot, unless that is its first character.\<close>

definition stem :: "string \<Rightarrow> string" where
  "stem s = (let r = dropWhile (\<lambda>c. c \<noteq> CHR ''.'') (rev s)
             in if r = [] \<or> tl r = [] \<or> s = ''..'' then s else rev (tl r))"

definition list_dirs :: "dir_entry list \<Rightarrow> string list" where
  "list_dirs entries = map (\<lambda>e. stem (entry_name e)) (filter is_directory entries)"

section \<open>Accounting\<close>

text \<open>Bytes a file of \<open>n\<close> bytes takes in blocks of \<open>B\<close> bytes, and all files together.\<close>

definition file_blocks :: "nat \<Rightarrow> nat \<Rightarrow> nat" where
  "file_blocks B n = (if n = 0 then 0 else B * (n div B + 1))"

definition used :: "nat \<Rightarrow> fsys \<Rightarrow> int" where
  "used B fs = (\<Sum>f \<in> dom fs. int (file_blocks B (length (the (fs f)))))"

lemma word_div_of_nat:
  assumes "n < 2 ^ 64" "m < 2 ^ 64"
  shows "(of_nat n :: uint64) div of_nat m = of_nat (n div m)"
  using assms by (simp add: word_arith_nat_div unat_of_nat take_bit_nat_eq_self)

lemma ucast_of_nat_64: "(ucast (of_nat m :: uint64) :: int32) = of_nat m"
  by (simp add: unsigned_of_nat of_nat_take_bit take_bit_word_eq_self)

lemma block_bytes_small:
  assumes "m < 2 ^ 31"
  shows "block_bytes (of_nat m) (of_nat B) = of_nat (B * m)"
proof -
  have "(scast (of_nat m :: int32) :: 64 word) = of_int (sint (of_nat m :: int32))" by (simp only: of_int_sint)
  also have "\<dots> = of_nat m" unfolding sint_of_nat_32[OF assms] by simp
  finally show ?thesis by (simp add: block_bytes_def ucast_of_nat_64)
qed


lemma round_up_small:
  assumes "n < 2 ^ 31 - 1" "0 < B" "B < 2 ^ 63"
  shows "round_up (of_nat n) (of_nat B) = of_nat (file_blocks B n)"
proof (cases "n = 0")
  case False
  have nz: "(of_nat n :: uint64) \<noteq> 0" using assms False by (simp add: of_nat_eq_0_iff unat_of_nat word_unat_eq_iff take_bit_nat_eq_self)
  have "n div B + 1 < 2 ^ 31" using assms div_le_dividend[of n B] by linarith
  then have "block_bytes (of_nat (n div B + 1)) (of_nat B) = of_nat (B * (n div B + 1))" by (rule block_bytes_small)
  moreover have "(of_nat n :: uint64) div of_nat B = of_nat (n div B)" using assms by (intro word_div_of_nat) simp_all
  ultimately show ?thesis using False nz by (simp add: round_up_def file_blocks_def add.commute)
qed (simp add: round_up_def file_blocks_def)

lemma pred_div_Suc:
  fixes P Q :: nat
  assumes "0 < P" "0 < Q"
  shows "(P * Q - 1) div Q + 1 = P"
proof -
  obtain p where p: "P = Suc p" using assms(1) gr0_implies_Suc by blast
  obtain q where q: "Q = Suc q" using assms(2) gr0_implies_Suc by blast
  have "P * Q - 1 = q + p * Q" by (simp add: p q)
  moreover have "(q + p * Q) div Q = p + q div Q" using assms(2) by (intro div_mult_self1) simp
  moreover have "q div Q = 0" by (simp add: q)
  ultimately have "(P * Q - 1) div Q = p" by simp
  then show ?thesis by (simp add: p)
qed

lemma round_up_missing:
  assumes "k \<le> 32"
  shows "round_up (-1) (of_nat (2 ^ k)) = 0"
proof -
  have "(of_nat (2 ^ 64 - 1) :: uint64) = of_nat (2 ^ 64) - 1" by (subst of_nat_diff) simp_all
  also have "(of_nat (2 ^ 64) :: uint64) = 0" by (simp add: word_exp_length_eq_0)
  finally have m: "(-1 :: uint64) = of_nat (2 ^ 64 - 1)" by simp
  have "k < 64" using assms by simp
  then have "2 ^ k < (2 :: nat) ^ 64" by (intro power_strict_increasing) simp_all
  then have d: "(-1 :: uint64) div of_nat (2 ^ k) = of_nat ((2 ^ 64 - 1) div 2 ^ k)" unfolding m by (intro word_div_of_nat) simp_all
  have e: "(2 :: nat) ^ 64 = 2 ^ (64 - k) * 2 ^ k" using \<open>k < 64\<close> by (simp flip: power_add)
  have "(2 ^ 64 - 1) div 2 ^ k + 1 = (2 :: nat) ^ (64 - k)"
    unfolding e by (rule pred_div_Suc) simp_all
  then have c: "(-1 :: uint64) div of_nat (2 ^ k) + 1 = of_nat (2 ^ (64 - k))" unfolding d by (metis of_nat_1 of_nat_add)
  have "64 - k = 32 + (32 - k)" using assms by simp
  then have "(2 :: nat) ^ (64 - k) = 2 ^ 32 * 2 ^ (32 - k)" by (simp only: power_add)
  then have "(of_nat (2 ^ (64 - k)) :: int32) = of_nat (2 ^ 32) * of_nat (2 ^ (32 - k))" by (simp only: of_nat_mult)
  also have "(of_nat (2 ^ 32) :: int32) = 0" by simp
  finally have "(ucast (of_nat (2 ^ (64 - k)) :: uint64) :: int32) = 0" unfolding ucast_of_nat_64 by simp
  then show ?thesis by (simp add: round_up_def block_bytes_def c del: of_nat_power)
qed


lemma used_upd:
  assumes "finite (dom fs)"
  shows "used B (fs(f \<mapsto> c)) = used B (fs(f := None)) + int (file_blocks B (length c))"
proof -
  let ?D = "dom fs - {f}"
  have d: "dom (fs(f \<mapsto> c)) = insert f ?D" "dom (fs(f := None)) = ?D" by auto
  have "(\<Sum>g \<in> ?D. int (file_blocks B (length (the ((fs(f \<mapsto> c)) g))))) =
      (\<Sum>g \<in> ?D. int (file_blocks B (length (the ((fs(f := None)) g)))))"
    by (rule sum.cong) simp_all
  moreover have "(\<Sum>g \<in> insert f ?D. int (file_blocks B (length (the ((fs(f \<mapsto> c)) g))))) =
      int (file_blocks B (length c)) + (\<Sum>g \<in> ?D. int (file_blocks B (length (the ((fs(f \<mapsto> c)) g)))))"
    using assms by (subst sum.insert) simp_all
  ultimately show ?thesis unfolding used_def d by simp
qed

definition old_blocks :: "nat \<Rightarrow> fsys \<Rightarrow> string \<Rightarrow> nat" where
  "old_blocks B fs f = (case fs f of None \<Rightarrow> 0 | Some c \<Rightarrow> file_blocks B (length c))"

lemma used_remove:
  assumes "finite (dom fs)"
  shows "used B (fs(f := None)) = used B fs - int (old_blocks B fs f)"
proof (cases "fs f")
  case None
  then have "fs(f := None) = fs" by auto
  then show ?thesis using None by (simp add: old_blocks_def)
next
  case (Some c)
  then have "fs = fs(f \<mapsto> c)" by auto
  then have "used B fs = used B (fs(f := None)) + int (file_blocks B (length c))" using used_upd[OF assms, of B f c] by simp
  then show ?thesis using Some by (simp add: old_blocks_def)
qed

text \<open>Sizes for which the 32-bit counts are exact.\<close>

definition small_file :: "fsys \<Rightarrow> string \<Rightarrow> bool" where
  "small_file fs f \<longleftrightarrow> (case fs f of None \<Rightarrow> True | Some c \<Rightarrow> length c < 2 ^ 31 - 1)"

lemma round_up_file_size:
  assumes "small_file fs f" "k \<le> 32"
  shows "round_up (get_file_size fs f) (of_nat (2 ^ k)) = of_nat (old_blocks (2 ^ k) fs f)"
proof (cases "fs f")
  case None
  then show ?thesis using round_up_missing[OF assms(2)] by (simp add: get_file_size_def old_blocks_def)
next
  case (Some c)
  have "(2 :: nat) ^ k < 2 ^ 63" using assms(2) by (intro power_strict_increasing) simp_all
  then show ?thesis using Some assms(1) round_up_small[of "length c" "2 ^ k"]
    by (simp add: get_file_size_def old_blocks_def small_file_def)
qed

lemma length_file_text:
  assumes "normal now" "1000 \<le> year (dt_date now)" "year (dt_date now) \<le> 9999"
  shows "length (file_text headers now ttl content) =
    length content + 20 + length (to_string (sint ttl)) + length (concat headers)"
  by (simp add: file_text_def length_printed[OF assms])

lemma power_64_nz: "k \<le> 32 \<Longrightarrow> (of_nat (2 ^ k) :: int64) \<noteq> 0"
proof
  assume "k \<le> 32" "(of_nat (2 ^ k) :: int64) = 0"
  then have "unat (of_nat (2 ^ k) :: int64) = 0" by simp
  moreover have "(2 :: nat) ^ k < 2 ^ 64" using \<open>k \<le> 32\<close> by (intro power_strict_increasing) simp_all
  ultimately show False by (simp add: unat_of_nat take_bit_nat_eq_self del: of_nat_power)
qed

lemma ucast_of_int_64: "(ucast (of_int i :: uint64) :: int32) = of_int i"
  by (simp add: unsigned_of_int of_int_take_bit take_bit_word_eq_self)

lemma ucast_diff_64: "(ucast (of_nat a - of_nat b :: uint64) :: int32) = of_int (int a - int b)"
proof -
  have "(of_nat a - of_nat b :: uint64) = of_int (int a - int b)" by simp
  then show ?thesis by (simp only: ucast_of_int_64)
qed

lemma write_file_result:
  assumes "normal now" "1000 \<le> year (dt_date now)" "year (dt_date now) \<le> 9999"
    and "finite (dom fs)" "small_file fs (path @ name)" "k \<le> 32"
    and "length (file_text headers now ttl content) < 2 ^ 31 - 1"
    and "write_file_to_disk writable now path name content sz ttl (of_nat (2 ^ k)) headers True fs = (True, sz', fs')"
  shows "fs' = fs(path @ name := if content = [] then None else Some (file_text headers now ttl content))
    \<and> sz' = sz + of_int (used (2 ^ k) fs' - used (2 ^ k) fs)"
proof -
  let ?f = "path @ name" and ?B = "2 ^ k :: nat"
  have nz: "(of_nat ?B :: int64) \<noteq> 0" by (rule power_64_nz[OF assms(6)])
  have old: "round_up (get_file_size fs ?f) (of_nat ?B) = of_nat (old_blocks ?B fs ?f)"
    by (rule round_up_file_size[OF assms(5,6)])
  have rem: "used ?B (fs(?f := None)) = used ?B fs - int (old_blocks ?B fs ?f)" by (rule used_remove[OF assms(4)])
  show ?thesis
  proof (cases "content = []")
    case True
    then have "fs' = fs(?f := None)" "sz' = sz + ucast (- (of_nat (old_blocks ?B fs ?f) :: uint64))"
      using assms(8) nz old by (auto simp: write_file_to_disk_def Let_def)
    then show ?thesis using True rem ucast_diff_64[of 0 "old_blocks ?B fs ?f"] by simp
  next
    case False
    let ?c = "file_text headers now ttl content"
    have lt: "(2 :: nat) ^ k < 2 ^ 63" using assms(6) by (intro power_strict_increasing) simp_all
    have "round_up (of_nat (length ?c)) (of_nat ?B) = of_nat (file_blocks ?B (length ?c))"
      using round_up_small[OF assms(7) _ lt] by simp
    then have new: "round_up (of_nat (length content) + 20 + of_nat (length (to_string (sint ttl)))
        + of_nat (length (concat headers))) (of_nat ?B) = of_nat (file_blocks ?B (length ?c))"
      unfolding length_file_text[OF assms(1-3)] of_nat_add by (simp del: of_nat_power)
    have "fs' = fs(?f \<mapsto> ?c)" "sz' = sz + ucast (of_nat (file_blocks ?B (length ?c)) - of_nat (old_blocks ?B fs ?f) :: uint64)"
      using assms(8) nz False unfolding write_file_to_disk_def Let_def old new
      by (auto simp: new simp del: of_nat_power split: if_splits)
    moreover from this have "used ?B fs' - used ?B fs = int (file_blocks ?B (length ?c)) - int (old_blocks ?B fs ?f)"
      using used_upd[OF assms(4), of ?B ?f ?c] rem by simp
    ultimately show ?thesis using False by (simp only: ucast_diff_64 if_False)
  qed
qed

section \<open>Properties\<close>


definition sample_now :: date_time where
  "sample_now = \<lparr>dt_date = \<lparr>year = 2024, month = 3, day = 1, day_of_year = 61, valid_date = True\<rparr>,
     dt_time = \<lparr>hour = 7, minute = 5, second = 9, thousend_second = 0, valid_time = True\<rparr>\<rparr>"

lemma sample_now_ok: "normal sample_now" "year (dt_date sample_now) = 2024"
  by (simp_all add: sample_now_def normal_def Let_def month_ok_def count_days_in_month_def)


end
