(* ===== verification/Locked_Files.thy ===== *)
theory Locked_Files
  imports Prelude
begin

text \<open>
  The per-file lock of \<open>disk_server.hpp\<close>: \<open>locked_files\<close> counts the threads inside a file in an
  8-bit counter and remembers the thread that updates it. Each critical section under the mutex is
  one atomic operation here; \<open>add\<close> is its entry section followed by the polling loop of a writer.
  Threads are steps of a transition system over these operations.
\<close>

section \<open>Operations\<close>

type_synonym tid = nat

record locked_files =
  files :: "string \<rightharpoonup> 8 word"
  pending_update :: "string \<rightharpoonup> tid"

definition lf_init :: locked_files where
  "lf_init = \<lparr>files = Map.empty, pending_update = Map.empty\<rparr>"

text \<open>\<open>++files[file_name]\<close>: a missing counter starts at zero, and 255 wraps to zero.\<close>

definition lf_inc :: "string \<Rightarrow> locked_files \<Rightarrow> locked_files" where
  "lf_inc f l = l\<lparr>files := (files l)(f \<mapsto> (case files l f of None \<Rightarrow> 1 | Some n \<Rightarrow> n + 1))\<rparr>"

definition lf_erase :: "tid \<Rightarrow> string \<Rightarrow> locked_files \<Rightarrow> locked_files" where
  "lf_erase t f l =
     (let l = (if pending_update l f = Some t then l\<lparr>pending_update := (pending_update l)(f := None)\<rparr> else l)
      in case files l f of
           None \<Rightarrow> l
         | Some n \<Rightarrow> (if n - 1 = 0 then l\<lparr>files := (files l)(f := None)\<rparr>
                      else l\<lparr>files := (files l)(f \<mapsto> n - 1)\<rparr>))"

text \<open>The first section of \<open>add\<close>: refused, inside, or (a writer) waiting for the readers to leave.\<close>

datatype add_result = Refused | Entered | Waits

definition lf_add :: "tid \<Rightarrow> string \<Rightarrow> bool \<Rightarrow> locked_files \<Rightarrow> add_result \<times> locked_files" where
  "lf_add t f is_write l =
     (if pending_update l f \<noteq> None then (Refused, l)
      else if is_write then
        (let l = l\<lparr>pending_update := (pending_update l)(f \<mapsto> t)\<rparr>
         in if files l f = None then (Entered, lf_inc f l) else (Waits, l))
      else (Entered, lf_inc f l))"

text \<open>One round of the loop a waiting writer runs.\<close>

definition lf_poll :: "string \<Rightarrow> locked_files \<Rightarrow> locked_files option" where
  "lf_poll f l = (if files l f = None then Some (lf_inc f l) else None)"

section \<open>The lock as an interface\<close>

text \<open>What the file server relies on: a refusal changes nothing, leaving undoes entering, an idle file
  can be entered, and a writer keeps everybody else out.\<close>

locale file_lock =
  fixes add :: "'t \<Rightarrow> 'f \<Rightarrow> bool \<Rightarrow> 'l \<Rightarrow> add_result \<times> 'l" and erase :: "'t \<Rightarrow> 'f \<Rightarrow> 'l \<Rightarrow> 'l"
    and counted :: "'l \<Rightarrow> bool" and idle :: "'f \<Rightarrow> 'l \<Rightarrow> bool"
  assumes refused: "add t f w l = (Refused, l') \<Longrightarrow> l' = l"
    and released: "counted l \<Longrightarrow> add t f w l = (Entered, l') \<Longrightarrow> erase t f l' = l"
    and enters: "idle f l \<Longrightarrow> \<exists>l'. add t f w l = (Entered, l')"
    and excludes: "add t f True l = (Entered, l') \<Longrightarrow> add u f w l' = (Refused, l')"
begin

lemma turn: "idle f l \<Longrightarrow> counted l \<Longrightarrow> \<exists>l'. add t f w l = (Entered, l') \<and> erase t f l' = l"
  using enters released by blast

lemma next_turn:
  "idle f l \<Longrightarrow> counted l \<Longrightarrow>
    \<exists>l'. add t f True l = (Entered, l') \<and> add u f w l' = (Refused, l') \<and> (\<exists>l2. add u f w (erase t f l') = (Entered, l2))"
  using turn[of f l t True] enters excludes by metis

end

definition lf_counted :: "locked_files \<Rightarrow> bool" where
  "lf_counted l \<longleftrightarrow> (\<forall>f. files l f \<noteq> Some 0)"

definition lf_idle :: "string \<Rightarrow> locked_files \<Rightarrow> bool" where
  "lf_idle f l \<longleftrightarrow> pending_update l f = None \<and> files l f = None"

lemma lf_erase_add:
  assumes "lf_counted l" "lf_add t f w l = (Entered, l')"
  shows "lf_erase t f l' = l"
proof -
  have "files l f = None \<or> (\<exists>n. files l f = Some n \<and> n \<noteq> 0)"
    using assms(1) by (cases "files l f") (auto simp: lf_counted_def)
  then show ?thesis
    using assms(2)
    by (cases l) (auto simp: lf_add_def lf_erase_def lf_inc_def Let_def fun_upd_idem split: if_splits option.splits)
qed

interpretation lk: file_lock lf_add lf_erase lf_counted lf_idle
proof
  show "lf_add t f w l = (Refused, l') \<Longrightarrow> l' = l" for t f w l l'
    by (auto simp: lf_add_def Let_def split: if_splits)
  show "lf_counted l \<Longrightarrow> lf_add t f w l = (Entered, l') \<Longrightarrow> lf_erase t f l' = l" for t f w l l'
    by (rule lf_erase_add)
  show "lf_idle f l \<Longrightarrow> \<exists>l'. lf_add t f w l = (Entered, l')" for t f w l
    by (auto simp: lf_add_def lf_idle_def Let_def)
  show "lf_add t f True l = (Entered, l') \<Longrightarrow> lf_add u f w l' = (Refused, l')" for t u f w l l'
    by (auto simp: lf_add_def lf_inc_def Let_def split: if_splits)
qed

section \<open>Threads\<close>

datatype pc = Out | Waiting string | Reading string | Writing string

record lf_sys =
  lf :: locked_files
  pcs :: "tid \<Rightarrow> pc"

definition sys_init :: lf_sys where "sys_init = \<lparr>lf = lf_init, pcs = (\<lambda>_. Out)\<rparr>"

inductive lf_step :: "nat \<Rightarrow> lf_sys \<Rightarrow> lf_sys \<Rightarrow> bool" for N where
  add_refused: "t < N \<Longrightarrow> pcs s t = Out \<Longrightarrow> lf_add t f w (lf s) = (Refused, l) \<Longrightarrow> lf_step N s (s\<lparr>lf := l\<rparr>)"
| add_read: "t < N \<Longrightarrow> pcs s t = Out \<Longrightarrow> lf_add t f False (lf s) = (Entered, l) \<Longrightarrow>
    lf_step N s \<lparr>lf = l, pcs = (pcs s)(t := Reading f)\<rparr>"
| add_write: "t < N \<Longrightarrow> pcs s t = Out \<Longrightarrow> lf_add t f True (lf s) = (Entered, l) \<Longrightarrow>
    lf_step N s \<lparr>lf = l, pcs = (pcs s)(t := Writing f)\<rparr>"
| add_wait: "t < N \<Longrightarrow> pcs s t = Out \<Longrightarrow> lf_add t f True (lf s) = (Waits, l) \<Longrightarrow>
    lf_step N s \<lparr>lf = l, pcs = (pcs s)(t := Waiting f)\<rparr>"
| poll_enter: "pcs s t = Waiting f \<Longrightarrow> lf_poll f (lf s) = Some l \<Longrightarrow>
    lf_step N s \<lparr>lf = l, pcs = (pcs s)(t := Writing f)\<rparr>"
| poll_again: "pcs s t = Waiting f \<Longrightarrow> lf_poll f (lf s) = None \<Longrightarrow> lf_step N s s"
| leave: "pcs s t = Reading f \<or> pcs s t = Writing f \<Longrightarrow>
    lf_step N s \<lparr>lf = lf_erase t f (lf s), pcs = (pcs s)(t := Out)\<rparr>"

inductive lf_reach :: "nat \<Rightarrow> lf_sys \<Rightarrow> bool" for N where
  reach_init: "lf_reach N sys_init"
| reach_step: "lf_reach N s \<Longrightarrow> lf_step N s s' \<Longrightarrow> lf_reach N s'"

section \<open>The invariant\<close>

definition holders :: "lf_sys \<Rightarrow> string \<Rightarrow> tid set" where
  "holders s f = {t. pcs s t = Reading f \<or> pcs s t = Writing f}"

definition lf_inv :: "nat \<Rightarrow> lf_sys \<Rightarrow> bool" where
  "lf_inv N s \<longleftrightarrow>
     (\<forall>t \<ge> N. pcs s t = Out)
     \<and> (\<forall>f. files (lf s) f = (if holders s f = {} then None else Some (of_nat (card (holders s f)))))
     \<and> (\<forall>f t. pending_update (lf s) f = Some t \<longleftrightarrow> pcs s t = Waiting f \<or> pcs s t = Writing f)
     \<and> (\<forall>f t. pcs s t = Writing f \<longrightarrow> holders s f = {t})"

lemma lf_invD:
  assumes "lf_inv N s"
  shows "N \<le> t \<Longrightarrow> pcs s t = Out"
    "files (lf s) f = (if holders s f = {} then None else Some (of_nat (card (holders s f))))"
    "pending_update (lf s) f = Some t \<longleftrightarrow> pcs s t = Waiting f \<or> pcs s t = Writing f"
    "pcs s t = Writing f \<Longrightarrow> holders s f = {t}"
  using assms unfolding lf_inv_def by blast+

lemma holders_bound: "lf_inv N s \<Longrightarrow> holders s f \<subseteq> {..<N}"
proof
  fix t
  assume "lf_inv N s" "t \<in> holders s f"
  then have "pcs s t \<noteq> Out" by (auto simp: holders_def)
  then show "t \<in> {..<N}" using lf_invD(1)[OF \<open>lf_inv N s\<close>, of t] by (meson lessThan_iff not_less)
qed

lemma finite_holders: "lf_inv N s \<Longrightarrow> finite (holders s f)"
  by (rule finite_subset[OF holders_bound]) simp_all

lemma card_holders: "lf_inv N s \<Longrightarrow> card (holders s f) \<le> N"
  using card_mono[OF finite_lessThan holders_bound, of N s f] by simp

text \<open>How the holders change when one thread moves.\<close>

lemma holders_upd:
  "holders \<lparr>lf = l, pcs = (pcs s)(t := p)\<rparr> f =
     (if p = Reading f \<or> p = Writing f then insert t (holders s f) else holders s f - {t})"
  by (auto simp: holders_def)

lemma lf_inv_enter:
  assumes inv: "lf_inv N s" and t: "t < N" "pcs s t = Out \<or> pcs s t = Waiting f"
    and p: "p = Reading f \<or> p = Writing f \<and> holders s f = {}"
    and pend: "\<And>g u. pending_update l g = Some u \<longleftrightarrow>
      (if u = t then p = Writing g else pcs s u = Waiting g \<or> pcs s u = Writing g)"
    and free: "p = Reading f \<Longrightarrow> \<forall>u. pcs s u \<noteq> Writing f"
    and fl: "files l = files (lf_inc f (lf s))"
  shows "lf_inv N \<lparr>lf = l, pcs = (pcs s)(t := p)\<rparr>"
proof -
  have nt: "t \<notin> holders s g" for g using t(2) by (auto simp: holders_def)
  have h: "holders \<lparr>lf = l, pcs = (pcs s)(t := p)\<rparr> g = (if g = f then insert t (holders s f) else holders s g)" for g
    using p nt by (auto simp: holders_upd)
  have "files l g = (if (if g = f then insert t (holders s f) else holders s g) = {} then None
      else Some (of_nat (card (if g = f then insert t (holders s f) else holders s g))))" for g
    using lf_invD(2)[OF inv, of g] nt[of f] finite_holders[OF inv, of f]
    by (auto simp: fl lf_inc_def)
  moreover have "holders s g = {u}" if "u \<noteq> t" "pcs s u = Writing g" for g u using lf_invD(4)[OF inv that(2)] .
  ultimately show ?thesis
    using t(1) lf_invD(1)[OF inv] p free nt
    by (auto simp: lf_inv_def h pend)
qed

lemma lf_inv_wait:
  assumes inv: "lf_inv N s" and t: "t < N" "pcs s t = Out" and free: "pending_update (lf s) f = None"
  shows "lf_inv N \<lparr>lf = (lf s)\<lparr>pending_update := (pending_update (lf s))(f \<mapsto> t)\<rparr>, pcs = (pcs s)(t := Waiting f)\<rparr>"
proof -
  have "pcs s u \<noteq> Waiting f \<and> pcs s u \<noteq> Writing f" for u using lf_invD(3)[OF inv, of f u] free by simp
  moreover have "holders s g - {t} = holders s g" for g using t(2) by (auto simp: holders_def)
  ultimately show ?thesis
    using t lf_invD[OF inv] by (auto simp: lf_inv_def holders_upd)
qed

lemma of_nat_8_zero: "n < 256 \<Longrightarrow> (of_nat n :: 8 word) = 0 \<longleftrightarrow> n = 0"
  using unat_of_nat[of n, where ?'a = 8] by (auto simp: take_bit_nat_eq_self dest: arg_cong[of _ _ unat])

lemma files_erase:
  assumes "files l f = Some (of_nat n)" "0 < n" "n \<le> 256"
  shows "files (lf_erase t f l) = (files l)(f := if n = 1 then None else Some (of_nat (n - 1)))"
proof -
  have "of_nat n - 1 = (of_nat (n - 1) :: 8 word)" using assms(2) by (simp add: of_nat_diff)
  moreover have "of_nat (n - 1) = (0 :: 8 word) \<longleftrightarrow> n = 1" using of_nat_8_zero[of "n - 1"] assms(2,3) by auto
  ultimately show ?thesis using assms(1) by (auto simp: lf_erase_def Let_def)
qed

lemma pending_erase:
  "pending_update (lf_erase t f l) =
     (if pending_update l f = Some t then (pending_update l)(f := None) else pending_update l)"
  by (auto simp: lf_erase_def Let_def split: option.split)

lemma lf_inv_leave:
  assumes inv: "lf_inv N s" and N: "N \<le> 256" and t: "pcs s t = Reading f \<or> pcs s t = Writing f"
  shows "lf_inv N \<lparr>lf = lf_erase t f (lf s), pcs = (pcs s)(t := Out)\<rparr>"
proof -
  let ?n = "card (holders s f)"
  have th: "t \<in> holders s f" using t by (simp add: holders_def)
  then have n: "0 < ?n" "?n \<le> 256"
    using finite_holders[OF inv] card_holders[OF inv, of f] N by (auto simp: card_gt_0_iff intro: le_trans)
  have fl: "files (lf s) f = Some (of_nat ?n)" using lf_invD(2)[OF inv, of f] th by auto
  have h: "holders s g - {t} = holders s g" if "g \<noteq> f" for g
    using t that by (auto simp: holders_def)
  have e2: "card (holders s f - {t}) = ?n - 1" using th by (rule card_Diff_singleton)
  have "holders s f - {t} = {} \<longleftrightarrow> card (holders s f - {t}) = 0"
    by (rule card_0_eq[symmetric]) (rule finite_Diff[OF finite_holders[OF inv]])
  then have e1: "holders s f - {t} = {} \<longleftrightarrow> ?n = 1" using n(1) unfolding e2 by linarith
  have files: "files (lf_erase t f (lf s)) g =
      (if holders s g - {t} = {} then None else Some (of_nat (card (holders s g - {t}))))" for g
  proof (cases "g = f")
    case True
    then show ?thesis unfolding files_erase[OF fl n] True by (simp only: fun_upd_apply if_True refl e1 e2)
  next
    case False
    then show ?thesis unfolding files_erase[OF fl n] h[OF False] using lf_invD(2)[OF inv, of g] by simp
  qed
  have pend: "pending_update (lf_erase t f (lf s)) g = Some u \<longleftrightarrow> u \<noteq> t \<and> (pcs s u = Waiting g \<or> pcs s u = Writing g)" for g u
  proof -
    have "pcs s u = Waiting f \<or> pcs s u = Writing f \<Longrightarrow> pcs s t = Writing f \<Longrightarrow> u = t"
      using lf_invD(3)[OF inv, of f u] lf_invD(3)[OF inv, of f t] by simp
    then show ?thesis using t lf_invD(3)[OF inv, of g u] lf_invD(3)[OF inv, of f t] by (auto simp: pending_erase)
  qed
  have "holders s g = {u}" if "pcs s u = Writing g" for g u using lf_invD(4)[OF inv that] .
  then show ?thesis
    using lf_invD(1)[OF inv] by (auto simp: lf_inv_def holders_upd files pend)
qed

lemma lf_step_inv:
  assumes "lf_step N s s'" "lf_inv N s" "N \<le> 256"
  shows "lf_inv N s'"
  using assms(1)
proof cases
  case (add_refused t f w l)
  then have "l = lf s" by (auto simp: lf_add_def Let_def split: if_splits)
  then show ?thesis using add_refused assms(2) by (simp add: lf_inv_def holders_def)
next
  case (add_read t f l)
  then have l: "pending_update (lf s) f = None" "l = lf_inc f (lf s)" by (auto simp: lf_add_def split: if_splits)
  have nw: "pcs s u \<noteq> Waiting f \<and> pcs s u \<noteq> Writing f" for u using lf_invD(3)[OF assms(2), of f u] l(1) by simp
  show ?thesis unfolding add_read(1)
  proof (rule lf_inv_enter[OF assms(2) add_read(2), where f = f])
    show "pending_update l g = Some u \<longleftrightarrow>
        (if u = t then Reading f = Writing g else pcs s u = Waiting g \<or> pcs s u = Writing g)" for g u
      using lf_invD(3)[OF assms(2), of g u] add_read(3) l(2) by (simp add: lf_inc_def)
  qed (use add_read l nw in simp_all)
next
  case (add_write t f l)
  then have l: "pending_update (lf s) f = None" "files (lf s) f = None"
    "l = lf_inc f ((lf s)\<lparr>pending_update := (pending_update (lf s))(f \<mapsto> t)\<rparr>)"
    by (auto simp: lf_add_def Let_def split: if_splits)
  have e: "holders s f = {}" using lf_invD(2)[OF assms(2), of f] l(2) by (simp split: if_splits)
  have nw: "pcs s u \<noteq> Waiting f \<and> pcs s u \<noteq> Writing f" for u using lf_invD(3)[OF assms(2), of f u] l(1) by simp
  show ?thesis unfolding add_write(1)
  proof (rule lf_inv_enter[OF assms(2) add_write(2), where f = f])
    show "pending_update l g = Some u \<longleftrightarrow>
        (if u = t then Writing f = Writing g else pcs s u = Waiting g \<or> pcs s u = Writing g)" for g u
      using lf_invD(3)[OF assms(2), of g u] add_write(3) l(3) nw[of u] by (auto simp: lf_inc_def)
  qed (use add_write l e in \<open>simp_all add: lf_inc_def\<close>)
next
  case (add_wait t f l)
  then have "pending_update (lf s) f = None" "l = (lf s)\<lparr>pending_update := (pending_update (lf s))(f \<mapsto> t)\<rparr>"
    by (auto simp: lf_add_def Let_def split: if_splits)
  then show ?thesis using lf_inv_wait[OF assms(2) add_wait(2,3)] add_wait(1) by simp
next
  case (poll_enter t f l)
  then have l: "files (lf s) f = None" "l = lf_inc f (lf s)" by (auto simp: lf_poll_def split: if_splits)
  have e: "holders s f = {}" using lf_invD(2)[OF assms(2), of f] l(1) by (simp split: if_splits)
  have t: "t < N" using lf_invD(1)[OF assms(2), of t] poll_enter(2) by (metis not_less pc.distinct(1))
  show ?thesis unfolding poll_enter(1)
  proof (rule lf_inv_enter[OF assms(2) t, where f = f])
    show "pending_update l g = Some u \<longleftrightarrow>
        (if u = t then Writing f = Writing g else pcs s u = Waiting g \<or> pcs s u = Writing g)" for g u
      using lf_invD(3)[OF assms(2), of g u] poll_enter(2) l(2) by (auto simp: lf_inc_def)
  qed (use poll_enter l e in simp_all)
next
  case (poll_again t f)
  then show ?thesis using assms(2) by simp
next
  case (leave t f)
  then show ?thesis using lf_inv_leave[OF assms(2,3)] by simp
qed

lemma lf_reach_inv: "lf_reach N s \<Longrightarrow> N \<le> 256 \<Longrightarrow> lf_inv N s"
proof (induction rule: lf_reach.induct)
  case reach_init
  then show ?case by (simp add: lf_inv_def sys_init_def lf_init_def holders_def)
next
  case (reach_step s s')
  then show ?case using lf_step_inv by blast
qed


section \<open>Properties\<close>

text \<open>
  C5: with at most 256 threads the lock is exclusive: in every reachable state a thread that writes
  a file is alone in it, whatever the other threads read, write or wait for.
\<close>

theorem lf_mutual_exclusion:
  assumes "lf_reach N s" "N \<le> 256" "pcs s t = Writing f" "u \<noteq> t"
  shows "pcs s u \<noteq> Reading f \<and> pcs s u \<noteq> Writing f"
  using lf_invD(4)[OF lf_reach_inv[OF assms(1,2)] assms(3)] assms(4) by (auto simp: holders_def)

theorem lf_mutual_exclusion_witness:
  "\<exists>s. lf_reach 2 s \<and> pcs s 0 = Writing ''1/a'' \<and> pcs s 1 \<noteq> Reading ''1/a'' \<and> pcs s 1 \<noteq> Writing ''1/a''"
proof -
  let ?l = "lf_inc ''1/a'' (lf_init\<lparr>pending_update := [''1/a'' \<mapsto> 0]\<rparr>)"
  let ?s = "\<lparr>lf = ?l, pcs = (pcs sys_init)(0 := Writing ''1/a'')\<rparr>"
  have "lf_step 2 sys_init ?s"
    by (rule lf_step.add_write) (simp_all add: sys_init_def lf_add_def lf_init_def Let_def)
  then have r: "lf_reach 2 ?s" by (rule reach_step[OF reach_init])
  have "pcs ?s 1 \<noteq> Reading ''1/a'' \<and> pcs ?s 1 \<noteq> Writing ''1/a''"
    by (rule lf_mutual_exclusion[OF r, of 0]) simp_all
  then show ?thesis using r by (intro exI[of _ ?s]) simp
qed

text \<open>
  C35: a waiting writer gets its turn: while it waits nobody else is let in, no step adds a reader,
  and once the readers have left its next poll succeeds.
\<close>

theorem lf_writer_progress:
  assumes "lf_reach N s" "N \<le> 256" "pcs s t = Waiting f"
  shows "(\<forall>u w. fst (lf_add u f w (lf s)) = Refused)
    \<and> (\<forall>s'. lf_step N s s' \<longrightarrow> {u. pcs s' u = Reading f} \<subseteq> {u. pcs s u = Reading f})
    \<and> ((\<forall>u. pcs s u \<noteq> Reading f) \<longrightarrow> (\<exists>l. lf_poll f (lf s) = Some l))"
proof -
  note inv = lf_reach_inv[OF assms(1,2)]
  have p: "pending_update (lf s) f = Some t" using lf_invD(3)[OF inv, of f t] assms(3) by simp
  then have r: "lf_add u f w (lf s) = (Refused, lf s)" for u w by (simp add: lf_add_def)
  have "{u. pcs s' u = Reading f} \<subseteq> {u. pcs s u = Reading f}" if "lf_step N s s'" for s'
    using that
  proof cases
    case (add_read t' f' l)
    then have "f' \<noteq> f" using r[of t' False] by auto
    then show ?thesis using add_read by auto
  qed auto
  moreover have "lf_poll f (lf s) = Some (lf_inc f (lf s))" if "\<forall>u. pcs s u \<noteq> Reading f"
  proof -
    have "pcs s u \<noteq> Writing f" for u using lf_invD(3)[OF inv, of f u] p assms(3) by auto
    then have "holders s f = {}" using that by (auto simp: holders_def)
    then show ?thesis using lf_invD(2)[OF inv, of f] by (simp add: lf_poll_def)
  qed
  ultimately show ?thesis using r by auto
qed

theorem lf_writer_progress_witness:
  "\<exists>s. lf_reach 2 s \<and> pcs s 1 = Waiting ''1/a'' \<and> fst (lf_add 0 ''1/a'' False (lf s)) = Refused"
proof -
  let ?l = "lf_inc ''1/a'' lf_init" and ?p = "(pcs sys_init)(0 := Reading ''1/a'')"
  let ?l' = "?l\<lparr>pending_update := [''1/a'' \<mapsto> 1]\<rparr>"
  let ?s = "\<lparr>lf = ?l', pcs = ?p(1 := Waiting ''1/a'')\<rparr>"
  have "lf_step 2 sys_init \<lparr>lf = ?l, pcs = ?p\<rparr>"
    by (rule lf_step.add_read) (simp_all add: sys_init_def lf_add_def lf_init_def lf_inc_def)
  then have "lf_reach 2 \<lparr>lf = ?l, pcs = ?p\<rparr>" by (rule reach_step[OF reach_init])
  moreover have "lf_step 2 \<lparr>lf = ?l, pcs = ?p\<rparr> \<lparr>lf = ?l', pcs = (pcs \<lparr>lf = ?l, pcs = ?p\<rparr>)(1 := Waiting ''1/a'')\<rparr>"
    by (rule lf_step.add_wait) (simp_all add: sys_init_def lf_add_def lf_init_def lf_inc_def Let_def)
  ultimately have r: "lf_reach 2 ?s" using reach_step by simp
  then show ?thesis using lf_writer_progress[OF r, of 1 "''1/a''"] by (intro exI[of _ ?s]) simp
qed

text \<open>The state after \<open>n\<close> readers have entered a file.\<close>

lemma files_after_reads:
  "pending_update (fold (\<lambda>t l. snd (lf_add t f False l)) [0..<n] lf_init) = Map.empty
   \<and> files (fold (\<lambda>t l. snd (lf_add t f False l)) [0..<n] lf_init) f = (if n = 0 then None else Some (of_nat n))"
  by (induction n) (auto simp: lf_init_def lf_add_def lf_inc_def)

text \<open>
  C36: the bound on the threads is needed: the counter has 8 bits, so when 257 threads read a file and
  one of them leaves, the lock forgets the 256 that remain and lets a writer in at once.
\<close>

theorem lf_counter_wraps:
  "let l = lf_erase 0 f (fold (\<lambda>t l. snd (lf_add t f False l)) [0..<257] lf_init)
   in files l f = None \<and> fst (lf_add w f True l) = Entered"
proof -
  let ?l = "fold (\<lambda>t l. snd (lf_add t f False l)) [0..<257] lf_init"
  have "files ?l f = Some 1" "pending_update ?l = Map.empty" using files_after_reads[of f 257] by simp_all
  then show ?thesis by (simp add: lf_erase_def lf_add_def Let_def del: fold_simps upt_conv_Cons)
qed

end
