(* ===== verification/Disk_Server.thy ===== *)
theory Disk_Server
  imports Disk_Helper Locked_Files Basefunc
begin

text \<open>
  The file server of \<open>disk_server.cpp\<close>: accepting, reading and removing files, each under the lock
  of its file. A call runs to its end in one step here; the interleaving with other threads is the
  subject of the lock's own theory. The environment - clock, \<open>std::hash\<close>, decryption, the document
  database and the boost checksum of a file - is a record of parameters.
\<close>

section \<open>State and environment\<close>

record directory =
  d_enabled :: bool
  d_p :: string
  d_max_size_b :: int64
  d_curr_size_b :: int64
  d_fs_block_size_b :: int64

definition inc_curr_disk_size :: "int32 \<Rightarrow> directory \<Rightarrow> directory" where
  "inc_curr_disk_size sz d = d\<lparr>d_curr_size_b := d_curr_size_b d + scast sz\<rparr>"

record server_conf =
  enable_read :: bool
  enable_write :: bool
  conf_auth :: string
  aes_key :: string
  ttl_p :: string
  tcp_threads :: int
  dir_names :: "string list"

record server =
  dirs :: "string \<rightharpoonup> directory"
  disk :: fsys
  lock_to_write :: locked_files
  oplog :: "(string \<times> int64 \<times> int64) list"

record db_content =
  db_title :: bytes
  db_body :: bytes
  db_version :: int
  db_append :: bool
  db_error :: bool

record senv =
  writable :: "string \<Rightarrow> bool"
  now :: date_time
  str_hash :: "string \<Rightarrow> nat"
  decrypt :: "bytes \<Rightarrow> bytes"
  create_db :: "fsys \<Rightarrow> string \<Rightarrow> bytes \<Rightarrow> bytes \<Rightarrow> w_type \<Rightarrow> db_content"
  jdb_fetch :: "fsys \<Rightarrow> string \<Rightarrow> string \<Rightarrow> int \<Rightarrow> bytes"
  hash_of_file :: "bytes \<Rightarrow> int32"
  mem_after :: "nat \<Rightarrow> char"
  this_thread :: tid

definition get_segment_folder :: "senv \<Rightarrow> string \<Rightarrow> int" where
  "get_segment_folder e filename = int (str_hash e filename mod 1000)"

definition j_extension_name :: string where "j_extension_name = ''.jdb_data''"

definition split_subfolder :: "string \<Rightarrow> string \<times> string" where
  "split_subfolder file_name =
     (case str_find file_name ''/'' 0 of
        Some i \<Rightarrow> (take i file_name, drop (i + 1) file_name) | None \<Rightarrow> ([], file_name))"

definition segment_name :: "senv \<Rightarrow> string \<Rightarrow> string" where
  "segment_name e file_name = to_string (get_segment_folder e file_name) @ ''/'' @ file_name"

section \<open>The header of a file sent to the server\<close>

record header =
  h_auth :: string
  h_file_name :: string
  h_ttl_days :: string
  h_flags :: string
  h_filled :: nat
  h_start :: nat
  h_auth_ok :: bool
  h_max_auth :: nat
  h_stable :: nat

definition header_init :: header where
  "header_init = \<lparr>h_auth = [], h_file_name = [], h_ttl_days = [], h_flags = [], h_filled = 0, h_start = 0,
     h_auth_ok = True, h_max_auth = 256, h_stable = 0\<rparr>"

definition flags_type :: "string \<Rightarrow> w_type" where
  "flags_type flags = w_type_of (sint (snd (stoi_int flags 0)))"

text \<open>The bytes that follow the type in the flags and may be blanks.\<close>

definition stable_bytes :: "w_type \<Rightarrow> nat \<Rightarrow> nat" where
  "stable_bytes w old =
     (if w = updatable \<or> w = updatable_without_compress \<or> w = jdb \<or> w = ajdb \<or> w = jdb_formed then 16
      else if w = appendable then 8 else old)"

fun parse_header :: "bool \<Rightarrow> string \<Rightarrow> nat \<Rightarrow> bytes \<Rightarrow> header \<Rightarrow> header" where
  "parse_header need_check_auth auth i [] h = h"
| "parse_header need_check_auth auth i (c # cs) h =
     (if c = CHR '' '' \<and> h_stable h = 0 then
        (if need_check_auth \<and> h_filled h = 0 \<and> auth \<noteq> [] \<and> auth \<noteq> h_auth h then h\<lparr>h_auth_ok := False\<rparr>
         else (let h = h\<lparr>h_start := i\<rparr>
               in if h_filled h = 3 then h
                  else parse_header need_check_auth auth (i + 1) cs (h\<lparr>h_filled := h_filled h + 1\<rparr>)))
      else
        (let h = (if h_stable h > 0 then h\<lparr>h_stable := h_stable h - 1\<rparr> else h)
         in if h_filled h = 0 then
              (if h_max_auth h = 0 then h\<lparr>h_auth_ok := False\<rparr>
               else parse_header need_check_auth auth (i + 1) cs
                      (h\<lparr>h_max_auth := h_max_auth h - 1, h_auth := h_auth h @ [c]\<rparr>))
            else if h_filled h = 1 then
              parse_header need_check_auth auth (i + 1) cs (h\<lparr>h_file_name := h_file_name h @ [c]\<rparr>)
            else if h_filled h = 2 then
              parse_header need_check_auth auth (i + 1) cs (h\<lparr>h_ttl_days := h_ttl_days h @ [c]\<rparr>)
            else
              (let h = h\<lparr>h_flags := h_flags h @ [c]\<rparr>
               in parse_header need_check_auth auth (i + 1) cs
                    (if length (h_flags h) = 2 then h\<lparr>h_stable := stable_bytes (flags_type (h_flags h)) (h_stable h)\<rparr>
                     else h))))"

text \<open>The headers a file of some type gets, and whether its write goes to the replication log.\<close>

definition file_headers :: "w_type \<Rightarrow> string \<Rightarrow> string list \<times> bool" where
  "file_headers w flags =
     (if w = updatable \<or> w = updatable_without_compress \<or> w = jdb \<or> w = ajdb \<or> w = jdb_formed then
        (if length flags = 18 then
           ([if w = jdb_formed then ''0'' @ to_string (w_int jdb) else two_digits (w_int w),
             take 8 (drop 2 flags), take 8 (drop 10 flags)], w \<noteq> ajdb)
         else ([], False))
      else if w = insert_only_without_compress then ([''0'' @ to_string (w_int w)], False)
      else if w = appendable then
        (if length flags = 10 then ([to_string (w_int w), take 8 (drop 2 flags)], False) else ([], False))
      else ([], False))"

section \<open>Accepting a file\<close>

record accept_res =
  r_status :: status
  r_bytes_written :: int32
  r_file_name :: string
  r_headers :: string
  r_jdb :: "(int32 \<times> string) option"
  r_ttl_success :: "bool option"

definition failed :: "status \<Rightarrow> accept_res" where
  "failed s = \<lparr>r_status = s, r_bytes_written = 0, r_file_name = [], r_headers = [], r_jdb = None, r_ttl_success = None\<rparr>"

definition upd_dir :: "string \<Rightarrow> (directory \<Rightarrow> directory) \<Rightarrow> server \<Rightarrow> server" where
  "upd_dir sub f s = s\<lparr>dirs := (\<lambda>k. if k = sub then map_option f (dirs s k) else dirs s k)\<rparr>"

text \<open>
  The content of a document database: a settings block of a given length and the data. Too short a
  message leaves nothing to write and is no failure.
\<close>

definition jdb_write ::
  "senv \<Rightarrow> string \<Rightarrow> string \<Rightarrow> string \<Rightarrow> directory \<Rightarrow> w_type \<Rightarrow> nat \<Rightarrow> bytes \<Rightarrow> server
    \<Rightarrow> bool \<times> bytes \<times> bool \<times> (int32 \<times> string) option \<times> server" where
  "jdb_write e sub base_filename file_name d w start content s =
     (if length content > start + 6 then
        (let sz_of_sett = unat (chars_to_numeric (take 4 (drop (start + 1) content)) :: uint32)
         in if length content > start + 5 + sz_of_sett then
              (let jdb_sett = take sz_of_sett (drop (start + 5) content);
                   jdb_data = drop (start + 5 + sz_of_sett) content;
                   db = create_db e (disk s) (d_p d @ file_name) jdb_data jdb_sett w
               in if db_error db then (False, db_title db, db_append db, None, s)
                  else if db_version db = 1 then (True, db_title db @ db_body db, db_append db, None, s)
                  else if db_version db = 2 then
                    (let (ok, bytes, fs) =
                           (if db_append db then
                              (let (ok, fs) = append_to_file (writable e) (d_p d @ file_name @ j_extension_name) (db_body db) (disk s)
                               in (ok, of_nat (length (db_body db)), fs))
                            else write_file_to_disk (writable e) (now e) (d_p d) (file_name @ j_extension_name)
                                   (db_body db) 0 0 (d_fs_block_size_b d) [] False (disk s));
                         s = s\<lparr>disk := fs\<rparr>
                     in if ok then (True, db_title db, db_append db, Some (bytes, base_filename @ j_extension_name),
                                    upd_dir sub (inc_curr_disk_size bytes) s)
                        else (False, db_title db, db_append db, None, s))
                  else (True, db_title db, db_append db, None, s))
            else (True, [], False, None, s))
      else (True, [], False, None, s))"

text \<open>Noting the file in the list of its last day: the shared file, or one of the per-thread ones.\<close>

fun ttl_retry :: "senv \<Rightarrow> string \<Rightarrow> bytes \<Rightarrow> nat \<Rightarrow> nat \<Rightarrow> fsys \<Rightarrow> bool \<times> fsys" where
  "ttl_retry e path line i 0 fs = (False, fs)"
| "ttl_retry e path line i (Suc n) fs =
     (case append_to_file (writable e) (path @ to_string (int i)) line fs of
        (True, fs) \<Rightarrow> (True, fs)
      | (False, fs) \<Rightarrow> ttl_retry e path line (i + 1) n fs)"

definition ttl_note :: "senv \<Rightarrow> server_conf \<Rightarrow> string \<Rightarrow> int32 \<Rightarrow> fsys \<Rightarrow> bool \<times> fsys" where
  "ttl_note e cfg item ttl fs =
     (let path_ttl = ttl_p cfg @ get_date ''-'' (add_days (sint ttl) (now e)) @ ''/ttl'';
          line = item @ [CHR 0x0A]
      in case append_to_file (writable e) path_ttl line fs of
           (True, fs) \<Rightarrow> (True, fs)
         | (False, fs) \<Rightarrow> ttl_retry e path_ttl line 0 (nat (tcp_threads cfg)) fs)"

text \<open>The write itself, when the file may be written and its content is known.\<close>

definition store_file ::
  "senv \<Rightarrow> server_conf \<Rightarrow> string \<Rightarrow> string \<Rightarrow> string \<Rightarrow> directory \<Rightarrow> w_type \<Rightarrow> int32 \<Rightarrow> string list \<Rightarrow> bool \<Rightarrow> bool
    \<Rightarrow> bytes \<Rightarrow> (int32 \<times> string) option \<Rightarrow> server \<Rightarrow> (accept_res \<times> server) res" where
  "store_file e cfg sub base_filename file_name d w ttl headers is_oplog is_append to_write jdb_res s =
     (let headers = (if headers = [] then [''00''] else headers);
          written =
            (if w = appendable \<and> is_file_exists (disk s) (d_p d @ file_name) then
               (let (ok, fs) = append_to_file (writable e) (d_p d @ file_name) to_write (disk s)
                in if to_write \<noteq> [] \<and> d_fs_block_size_b d = 0 then Inl Div_trap
                   else Inr (ok, (ucast (block_bytes
                          (if to_write \<noteq> [] then of_nat (length to_write) div d_fs_block_size_b d + 1 else 0)
                          (d_fs_block_size_b d)) :: int32), fs))
             else Inr (write_file_to_disk (writable e) (now e) (d_p d) file_name to_write 0 ttl
                        (d_fs_block_size_b d) headers True (disk s)))
      in bind_res written (\<lambda>(ok, bytes_written, fs).
           if ok then
             (let s = s\<lparr>disk := fs\<rparr>;
                  s = (if is_oplog
                       then s\<lparr>oplog := oplog s @ [(base_filename, chars_to_numeric (headers ! 1), chars_to_numeric (headers ! 2))]\<rparr>
                       else s);
                  s = upd_dir sub (inc_curr_disk_size bytes_written) s;
                  (ttl_success, s) =
                    (if 0 < sint ttl \<and> \<not> is_append
                     then (case ttl_note e cfg (d_p d @ file_name) ttl (disk s) of (b, fs) \<Rightarrow> (Some b, s\<lparr>disk := fs\<rparr>))
                     else (None, s))
              in Inr (\<lparr>r_status = st_ok, r_bytes_written = bytes_written, r_file_name = base_filename,
                       r_headers = concat headers, r_jdb = jdb_res, r_ttl_success = ttl_success\<rparr>, s))
           else Inr ((failed cant_write_file_to_disk)\<lparr>r_jdb := jdb_res\<rparr>, s\<lparr>disk := fs\<rparr>)))"

text \<open>What happens under the lock of the file.\<close>

definition accept_locked ::
  "senv \<Rightarrow> server_conf \<Rightarrow> string \<Rightarrow> string \<Rightarrow> string \<Rightarrow> header \<Rightarrow> bytes \<Rightarrow> server \<Rightarrow> (accept_res \<times> server) res" where
  "accept_locked e cfg sub base_filename file_name h content s =
     (case dirs s sub of
        None \<Rightarrow> Inr (failed subfolder_not_found, s)
      | Some d \<Rightarrow>
          (let wr_enabled = (is_file_exists (disk s) (d_p d @ file_name)
                 \<or> d_enabled d \<and> sint (d_curr_size_b d) < sint (d_max_size_b d))
           in if \<not> wr_enabled then Inr (failed all_directories_are_full, s)
              else
                (let ttl = snd (stoi_int (h_ttl_days h) 0)
                 in if length (h_flags h) \<ge> 2 then
                      (let w = flags_type (take 2 (h_flags h));
                           (headers, is_oplog) = file_headers w (h_flags h)
                       in if w = jdb \<or> w = ajdb then
                            (case jdb_write e sub base_filename file_name d w (h_start h) content s of
                               (ok, to_write, is_append, jdb_res, s) \<Rightarrow>
                                 if ok then store_file e cfg sub base_filename file_name d w ttl headers is_oplog is_append
                                              to_write jdb_res s
                                 else Inr ((failed cant_write_file_to_disk)\<lparr>r_jdb := jdb_res\<rparr>, s))
                          else store_file e cfg sub base_filename file_name d w ttl headers is_oplog False
                                 (drop (h_start h + 1) content) None s)
                    else store_file e cfg sub base_filename file_name d w_none ttl [] False False
                           (drop (h_start h + 1) content) None s)))"

text \<open>
  Running a body under the lock of a file: refused at once, run and released, or (\<open>None\<close>) waiting
  for the readers of the file.
\<close>

definition with_lock ::
  "tid \<Rightarrow> string \<Rightarrow> bool \<Rightarrow> 'r \<Rightarrow> (server \<Rightarrow> ('r \<times> server) res) \<Rightarrow> server \<Rightarrow> ('r option \<times> server) res" where
  "with_lock t f is_write busy body s =
     (case lf_add t f is_write (lock_to_write s) of
        (Refused, l) \<Rightarrow> Inr (Some busy, s\<lparr>lock_to_write := l\<rparr>)
      | (Waits, l) \<Rightarrow> Inr (None, s\<lparr>lock_to_write := l\<rparr>)
      | (Entered, l) \<Rightarrow> bind_res (body (s\<lparr>lock_to_write := l\<rparr>)) (\<lambda>(r, s).
          Inr (Some r, s\<lparr>lock_to_write := lf_erase t f (lock_to_write s)\<rparr>)))"

definition accept_file ::
  "senv \<Rightarrow> server_conf \<Rightarrow> bytes \<Rightarrow> bool \<Rightarrow> bool \<Rightarrow> server \<Rightarrow> (accept_res option \<times> server) res" where
  "accept_file e cfg content need_check_auth need_check_aes s =
     (if length content > 2 then
        (if enable_write cfg then
           (let content = (if need_check_aes \<and> aes_key cfg \<noteq> [] then decrypt e content else content)
            in if length content > 2 then
                 (let h = parse_header need_check_auth (conf_auth cfg) 0 content header_init
                  in if length (h_file_name h) > 64 then Inr (Some (failed too_long_filename), s)
                     else if \<not> h_auth_ok h then Inr (Some (failed auth_failed), s)
                     else
                       (let (sub, file_name) = split_subfolder (h_file_name h)
                        in if file_name = [] then Inr (Some (failed file_name_must_not_be_empty), s)
                           else with_lock (this_thread e) (segment_name e file_name) True (failed file_busy)
                                  (accept_locked e cfg sub (h_file_name h) (segment_name e file_name) h content) s))
               else Inr (Some (failed incorrect_secure_key), s))
         else Inr (Some (failed write_is_disabled), s))
      else Inr (Some (failed to_small_content_size), s))"

section \<open>Reading files\<close>

definition read_body ::
  "senv \<Rightarrow> server_conf \<Rightarrow> string \<Rightarrow> string \<Rightarrow> bool \<Rightarrow> string \<Rightarrow> int \<Rightarrow> bytes \<Rightarrow> server \<Rightarrow> ((status \<times> bytes) \<times> server) res" where
  "read_body e cfg sub qry is_jdb jdb_query ro content s =
     Inr ((if enable_read cfg then
             (case dirs s sub of
                None \<Rightarrow> (file_not_found, content)
              | Some d \<Rightarrow>
                  if is_file_exists (disk s) (d_p d @ qry) then
                    (let (ok, content) = (if is_jdb then (True, jdb_fetch e (disk s) (d_p d @ qry) jdb_query ro)
                                          else read_file (disk s) (d_p d) qry content 0)
                     in (if ok \<and> content \<noteq> [] then st_ok else if content \<noteq> [] then errorstr else cant_read_file, content))
                  else (file_not_found, content))
           else (read_is_disabled, content)), s)"

definition server_read_file ::
  "senv \<Rightarrow> server_conf \<Rightarrow> string \<Rightarrow> bytes \<Rightarrow> int \<Rightarrow> server \<Rightarrow> ((status \<times> bytes) option \<times> server) res" where
  "server_read_file e cfg file_name content ro s =
     (let (sub, file_name) = split_subfolder file_name;
          (is_jdb, jdb_query, file_name) = (case str_find file_name ''?jdb'' 0 of
             Some i \<Rightarrow> (True, drop (i + 4) file_name, take i file_name) | None \<Rightarrow> (False, [], file_name));
          qry = segment_name e file_name
      in with_lock (this_thread e) qry False (file_busy, content) (read_body e cfg sub qry is_jdb jdb_query ro content) s)"

text \<open>
  The header of a file: its first bytes up to the time to live, or the checksum of the data of a
  document database. The scan for the blank has the condition \<open>i < size, n < 10\<close> again.
\<close>

fun scan_blank :: "(nat \<Rightarrow> char) \<Rightarrow> bytes \<Rightarrow> nat \<Rightarrow> nat \<Rightarrow> nat" where
  "scan_blank oob s i 0 = i"
| "scan_blank oob s i (Suc n) = (if char_at oob s i = CHR '' '' then i else scan_blank oob s (i + 1) n)"

definition info_header :: "(nat \<Rightarrow> char) \<Rightarrow> bytes \<Rightarrow> bytes" where
  "info_header oob content =
     (let w = w_type_of (sint (snd (stoi_int (take 2 content) 7)));
          l = (if w = updatable \<or> w = updatable_without_compress \<or> w = jdb \<or> w = ajdb then 18 else 2);
          l_last_ttl = scan_blank oob content (l + 20) 10
      in if l_last_ttl < length content then take l_last_ttl content else take 18 content)"

definition info_body :: "senv \<Rightarrow> server_conf \<Rightarrow> string \<Rightarrow> string \<Rightarrow> bytes \<Rightarrow> server \<Rightarrow> ((status \<times> bytes) \<times> server) res" where
  "info_body e cfg sub qry content s =
     Inr ((if enable_read cfg then
             (case dirs s sub of
                None \<Rightarrow> (file_not_found, content)
              | Some d \<Rightarrow>
                  (case disk s (d_p d @ qry) of
                     None \<Rightarrow> (file_not_found, content)
                   | Some c \<Rightarrow>
                       if str_find qry j_extension_name 0 \<noteq> None then
                         (let r = hash_of_file e c
                          in if r = 0 then (cant_read_file, content)
                             else (st_ok, two_digits (w_int jdb_data) @ numeric_to_chars r 4))
                       else
                         (let (ok, content) = read_file (disk s) (d_p d) qry content 64
                          in if ok \<and> content \<noteq> [] then
                               (if length content > 18 then (st_ok, info_header (mem_after e) content)
                                else (cant_read_file, content))
                             else (cant_read_file, content))))
           else (read_is_disabled, content)), s)"

definition read_file_info ::
  "senv \<Rightarrow> server_conf \<Rightarrow> string \<Rightarrow> bytes \<Rightarrow> server \<Rightarrow> ((status \<times> bytes) option \<times> server) res" where
  "read_file_info e cfg file_name content s =
     (let file_name = (case str_find file_name ''?jdb'' 0 of Some i \<Rightarrow> take i file_name | None \<Rightarrow> file_name);
          (sub, file_name) = split_subfolder file_name;
          name_for_segment = (case replaceAll file_name j_extension_name [] of Some n \<Rightarrow> n | None \<Rightarrow> file_name);
          qry = to_string (get_segment_folder e name_for_segment) @ ''/'' @ file_name
      in with_lock (this_thread e) qry False (file_busy, content) (info_body e cfg sub qry content) s)"

section \<open>Removing files\<close>

text \<open>Whether a replicated write with this time and checksum supersedes the stored file.\<close>

definition need_remove :: "bytes \<Rightarrow> int64 \<Rightarrow> int64 \<Rightarrow> bool" where
  "need_remove content tms crc32 =
     (if length content \<ge> 18 then
        (let w = w_type_of (sint (snd (stoi_short (take 2 content) 0)));
             f_tms = (chars_to_numeric (take 8 (drop 2 content)) :: int64);
             f_crc32 = (chars_to_numeric (take 8 (drop 10 content)) :: int64)
         in if w = updatable \<or> w = updatable_without_compress \<or> w = jdb then
              sint f_tms < sint tms \<or> f_tms = tms \<and> sint f_crc32 < sint crc32
            else if w = insert_only \<or> w = insert_only_without_compress then True
            else if w = ajdb then False
            else True)
      else False)"

text \<open>Removing one file and giving its blocks back.\<close>

definition remove_path :: "string \<Rightarrow> string \<Rightarrow> server \<Rightarrow> server res" where
  "remove_path sub f s =
     (case dirs s sub of
        None \<Rightarrow> Inr s
      | Some d \<Rightarrow>
          bind_res (get_file_size_fs_block_size (disk s) f (d_fs_block_size_b d)) (\<lambda>bytes.
            Inr ((upd_dir sub (inc_curr_disk_size (- ucast bytes)) s)\<lparr>disk := fs_remove f (disk s)\<rparr>)))"

definition remove_body :: "string \<Rightarrow> string \<Rightarrow> int64 \<Rightarrow> int64 \<Rightarrow> bool \<Rightarrow> server \<Rightarrow> (bool \<times> server) res" where
  "remove_body sub qry tms crc32 force s =
     (case dirs s sub of
        None \<Rightarrow> Inr (True, s)
      | Some d \<Rightarrow>
          (let f = d_p d @ qry
           in if is_file_exists (disk s) f then
                (let (ok, content) = read_file (disk s) (d_p d) qry [] 64
                 in if \<not> force \<and> \<not> ok then Inr (False, s)
                    else if force \<or> need_remove content tms crc32 then
                      bind_res (remove_path sub f s) (\<lambda>s.
                      bind_res (if is_file_exists (disk s) (f @ j_extension_name)
                                then remove_path sub (f @ j_extension_name) s else Inr s) (\<lambda>s.
                        Inr (True, s)))
                    else Inr (True, s))
              else Inr (True, s)))"

text \<open>
  Up to fifty attempts to lock the file; \<open>wait\<close> is what the rest of the system does during each
  sleep.
\<close>

fun remove_retry :: "(nat \<Rightarrow> server \<Rightarrow> server) \<Rightarrow> tid \<Rightarrow> string \<Rightarrow> (server \<Rightarrow> (bool \<times> server) res) \<Rightarrow> nat \<Rightarrow> server
    \<Rightarrow> (bool option \<times> server) res" where
  "remove_retry wait t qry body 0 s = Inr (Some False, s)"
| "remove_retry wait t qry body (Suc n) s =
     (case lf_add t qry True (lock_to_write s) of
        (Refused, l) \<Rightarrow> remove_retry wait t qry body n (wait n (s\<lparr>lock_to_write := l\<rparr>))
      | (Waits, l) \<Rightarrow> Inr (None, s\<lparr>lock_to_write := l\<rparr>)
      | (Entered, l) \<Rightarrow> bind_res (body (s\<lparr>lock_to_write := l\<rparr>)) (\<lambda>(r, s).
          Inr (Some r, s\<lparr>lock_to_write := lf_erase t qry (lock_to_write s)\<rparr>)))"

definition remove_file_by_tms ::
  "senv \<Rightarrow> (nat \<Rightarrow> server \<Rightarrow> server) \<Rightarrow> string \<Rightarrow> int64 \<Rightarrow> int64 \<Rightarrow> bool \<Rightarrow> server \<Rightarrow> (bool option \<times> server) res" where
  "remove_file_by_tms e wait file_name tms crc32 force s =
     (let (sub, file_name) = split_subfolder file_name;
          qry = segment_name e file_name
      in remove_retry wait (this_thread e) qry (remove_body sub qry tms crc32 force) 50 s)"

section \<open>Removing expired files\<close>

definition deleteFile :: "string \<Rightarrow> fsys \<Rightarrow> fsys" where
  "deleteFile f fs = fs_remove (f @ j_extension_name) (fs_remove f fs)"

definition ttl_body :: "server_conf \<Rightarrow> string \<Rightarrow> string \<Rightarrow> server \<Rightarrow> (unit \<times> server) res" where
  "ttl_body cfg path item s =
     (let dir = find (\<lambda>k. case dirs s k of None \<Rightarrow> False | Some d \<Rightarrow> d_p d = path) (dir_names cfg);
          accounted =
            (case dir of
               None \<Rightarrow> Inr s
             | Some k \<Rightarrow>
                 (case dirs s k of
                    None \<Rightarrow> Inr s
                  | Some d \<Rightarrow>
                      bind_res (get_file_size_fs_block_size (disk s) item (d_fs_block_size_b d)) (\<lambda>bytes.
                        let s = upd_dir k (inc_curr_disk_size (- ucast bytes)) s
                        in if is_file_exists (disk s) (item @ j_extension_name) then
                             bind_res (get_file_size_fs_block_size (disk s) (item @ j_extension_name) (d_fs_block_size_b d))
                               (\<lambda>bytes. Inr (upd_dir k (inc_curr_disk_size (- ucast bytes)) s))
                           else Inr s)))
      in bind_res accounted (\<lambda>s. Inr ((), s\<lparr>disk := deleteFile item (fs_remove item (disk s))\<rparr>)))"

text \<open>
  One line of a list: \<open>None\<close> while the lock of the file is not free (the code spins). The loop over
  \<open>exp.size() - 2\<close> parts runs past the end when the line has no slash.
\<close>

definition ttl_item :: "senv \<Rightarrow> server_conf \<Rightarrow> string \<Rightarrow> server \<Rightarrow> (unit option \<times> server) res" where
  "ttl_item e cfg item s =
     (let exp = split item CHR ''/''; n = length exp
      in if n < 2 then Inl Out_of_bounds
         else
           (let path = concat (map (\<lambda>x. ''/'' @ x) (filter (\<lambda>x. x \<noteq> []) (take (n - 2) exp))) @ ''/'';
                lock_file_name = exp ! (n - 2) @ ''/'' @ exp ! (n - 1)
            in case lf_add (this_thread e) lock_file_name True (lock_to_write s) of
                 (Entered, l) \<Rightarrow> bind_res (ttl_body cfg path item (s\<lparr>lock_to_write := l\<rparr>)) (\<lambda>(r, s).
                    Inr (Some r, s\<lparr>lock_to_write := lf_erase (this_thread e) lock_file_name (lock_to_write s)\<rparr>))
               | (_, l) \<Rightarrow> Inr (None, s\<lparr>lock_to_write := l\<rparr>)))"

fun ttl_lines :: "senv \<Rightarrow> server_conf \<Rightarrow> string list \<Rightarrow> string list \<Rightarrow> server \<Rightarrow> (unit option \<times> server) res" where
  "ttl_lines e cfg removed [] s = Inr (Some (), s)"
| "ttl_lines e cfg removed (line # lines) s =
     (let item = trim line
      in if item \<notin> set removed \<and> item \<noteq> [] then
           bind_res (ttl_item e cfg item s) (\<lambda>(r, s).
             case r of None \<Rightarrow> Inr (None, s) | Some _ \<Rightarrow> ttl_lines e cfg (item # removed) lines s)
         else ttl_lines e cfg removed lines s)"

definition f_clear :: "senv \<Rightarrow> server_conf \<Rightarrow> string \<Rightarrow> string \<Rightarrow> server \<Rightarrow> (unit option \<times> server) res" where
  "f_clear e cfg dt ttl_name s =
     (let content = snd (read_file (disk s) (ttl_p cfg @ dt @ ''/'') ttl_name [] 0)
      in if content \<noteq> [] then ttl_lines e cfg [] (split content CHR 0x0A) s else Inr (Some (), s))"

fun clear_names :: "senv \<Rightarrow> server_conf \<Rightarrow> string \<Rightarrow> string list \<Rightarrow> server \<Rightarrow> (unit option \<times> server) res" where
  "clear_names e cfg dt [] s = Inr (Some (), s)"
| "clear_names e cfg dt (n # ns) s =
     bind_res (f_clear e cfg dt n s) (\<lambda>(r, s). case r of None \<Rightarrow> Inr (None, s) | Some _ \<Rightarrow> clear_names e cfg dt ns s)"

text \<open>\<open>remove_all\<close>: the directory and everything below it.\<close>

definition remove_all :: "string \<Rightarrow> fsys \<Rightarrow> fsys" where
  "remove_all dir fs = (\<lambda>f. if f = dir \<or> starts_with f (dir @ ''/'') then None else fs f)"

definition remove_date :: "senv \<Rightarrow> server_conf \<Rightarrow> string \<Rightarrow> server \<Rightarrow> (unit option \<times> server) res" where
  "remove_date e cfg dt s =
     bind_res (clear_names e cfg dt (''ttl'' # map (\<lambda>i. ''ttl'' @ to_string (int i)) [0..<nat (tcp_threads cfg)]) s)
       (\<lambda>(r, s). case r of
          None \<Rightarrow> Inr (None, s)
        | Some _ \<Rightarrow> Inr (Some (), s\<lparr>disk := remove_all (ttl_p cfg @ dt) (disk s)\<rparr>))"

definition date_le :: "date_rec \<Rightarrow> date_rec \<Rightarrow> bool" where
  "date_le a b \<longleftrightarrow> \<not> (\<not> date_less a b \<and> \<not> date_eq a b)"

fun run_ttl_remover :: "senv \<Rightarrow> server_conf \<Rightarrow> string list \<Rightarrow> server \<Rightarrow> (unit option \<times> server) res" where
  "run_ttl_remover e cfg [] s = Inr (Some (), s)"
| "run_ttl_remover e cfg (dir # ds) s =
     (let (ok, dt_del) = parse_date_time dir ''yyyy-MM-dd'' date_only date_time_init
      in if ok \<and> date_le (dt_date dt_del) (dt_date (now e)) then
           bind_res (remove_date e cfg (get_date ''-'' dt_del) s) (\<lambda>(r, s).
             case r of None \<Rightarrow> Inr (None, s) | Some _ \<Rightarrow> run_ttl_remover e cfg ds s)
         else run_ttl_remover e cfg ds s)"

end
