(* ===== verification/Server_Files.thy ===== *)
theory Server_Files
  imports Disk_Server
begin

text \<open>
  What the file server of \<open>disk_server.cpp\<close> promises: the header of a message is read back, a file
  that is accepted can be read and decoded, the locks are left as they were, the used sizes of the
  directories agree with the files on disk, and a replicated write removes exactly older files.
\<close>

section \<open>The header of a message\<close>

definition file_message :: "string \<Rightarrow> string \<Rightarrow> string \<Rightarrow> string \<Rightarrow> bytes \<Rightarrow> bytes" where
  "file_message auth name ttl flags content =
     auth @ '' '' @ name @ '' '' @ ttl @ '' '' @ flags @ '' '' @ content"

definition no_blank :: "string \<Rightarrow> bool" where "no_blank s \<longleftrightarrow> CHR '' '' \<notin> set s"

lemma no_blank_simps [simp]:
  "no_blank []" "no_blank (c # s) \<longleftrightarrow> c \<noteq> CHR '' '' \<and> no_blank s" "no_blank (s @ t) \<longleftrightarrow> no_blank s \<and> no_blank t"
  by (auto simp: no_blank_def)

text \<open>The flags: a type without blanks, and after two characters exactly the bytes the type announces.\<close>

definition flags_ok :: "string \<Rightarrow> bool" where
  "flags_ok flags \<longleftrightarrow> no_blank (take 2 flags)
     \<and> (if length flags < 2 then True else length flags = 2 + stable_bytes (flags_type (take 2 flags)) 0)"

lemma parse_auth:
  assumes "no_blank a" "h_filled h = 0" "h_stable h = 0" "length a \<le> h_max_auth h"
  shows "parse_header nc auth i (a @ rest) h =
    parse_header nc auth (i + length a) rest (h\<lparr>h_auth := h_auth h @ a, h_max_auth := h_max_auth h - length a\<rparr>)"
  using assms
proof (induction a arbitrary: i h)
  case (Cons c a)
  then show ?case by (simp add: Cons.IH Let_def)
qed simp

lemma parse_name:
  assumes "no_blank a" "h_filled h = 1" "h_stable h = 0"
  shows "parse_header nc auth i (a @ rest) h =
    parse_header nc auth (i + length a) rest (h\<lparr>h_file_name := h_file_name h @ a\<rparr>)"
  using assms
proof (induction a arbitrary: i h)
  case (Cons c a)
  then show ?case by (simp add: Cons.IH Let_def)
qed simp

lemma parse_ttl:
  assumes "no_blank a" "h_filled h = 2" "h_stable h = 0"
  shows "parse_header nc auth i (a @ rest) h =
    parse_header nc auth (i + length a) rest (h\<lparr>h_ttl_days := h_ttl_days h @ a\<rparr>)"
  using assms
proof (induction a arbitrary: i h)
  case (Cons c a)
  then show ?case by (simp add: Cons.IH Let_def)
qed simp

text \<open>The announced bytes are taken as they are, blanks included.\<close>

lemma parse_stable:
  assumes "h_filled h = 3" "h_stable h = length a" "2 \<le> length (h_flags h)"
  shows "parse_header nc auth i (a @ rest) h =
    parse_header nc auth (i + length a) rest (h\<lparr>h_flags := h_flags h @ a, h_stable := 0\<rparr>)"
  using assms
proof (induction a arbitrary: i h)
  case Nil
  then show ?case by (cases h) simp
next
  case (Cons c a)
  then show ?case by (simp add: Cons.IH Let_def)
qed

lemma parse_flags:
  assumes "flags_ok flags" "h_filled h = 3" "h_stable h = 0" "h_flags h = []"
  shows "parse_header nc auth i (flags @ '' '' @ rest) h = h\<lparr>h_flags := flags, h_start := i + length flags\<rparr>"
proof -
  consider "flags = []" | c where "flags = [c]" | c d st where "flags = c # d # st"
    by (metis list.exhaust)
  then show ?thesis
  proof cases
    case 3
    let ?h = "h\<lparr>h_flags := [c, d], h_stable := stable_bytes (flags_type [c, d]) 0\<rparr>"
    have l: "length st = stable_bytes (flags_type [c, d]) 0" "c \<noteq> CHR '' ''" "d \<noteq> CHR '' ''"
      using assms(1) 3 by (simp_all add: flags_ok_def numeral_2_eq_2)
    have "parse_header nc auth i (flags @ '' '' @ rest) h = parse_header nc auth (i + 2) (st @ '' '' @ rest) ?h"
      using assms(2-4) l 3 by (simp add: Let_def)
    also have "\<dots> = parse_header nc auth (i + 2 + length st) ('' '' @ rest) (?h\<lparr>h_flags := h_flags ?h @ st, h_stable := 0\<rparr>)"
      using assms(2) l by (intro parse_stable) simp_all
    also have "\<dots> = h\<lparr>h_flags := flags, h_start := i + length flags\<rparr>"
      using 3 assms(2,3) by (simp add: Let_def)
    finally show ?thesis .
  qed (use assms in \<open>auto simp: Let_def flags_ok_def\<close>)
qed

lemma parse_blank:
  assumes "h_stable h = 0" "h_filled h < 3" "h_filled h = 0 \<longrightarrow> nc \<longrightarrow> auth = [] \<or> auth = h_auth h"
  shows "parse_header nc auth i ('' '' @ rest) h =
    parse_header nc auth (i + 1) rest (h\<lparr>h_start := i, h_filled := h_filled h + 1\<rparr>)"
  using assms by (auto simp: Let_def)

definition parsed :: "string \<Rightarrow> string \<Rightarrow> string \<Rightarrow> string \<Rightarrow> header" where
  "parsed auth name ttl flags =
     \<lparr>h_auth = auth, h_file_name = name, h_ttl_days = ttl, h_flags = flags, h_filled = 3,
      h_start = length auth + length name + length ttl + length flags + 3,
      h_auth_ok = True, h_max_auth = 256 - length auth, h_stable = 0\<rparr>"

lemma parse_message:
  assumes "no_blank auth" "no_blank name" "no_blank ttl" "flags_ok flags" "length auth \<le> 256"
    and "nc \<longrightarrow> key = [] \<or> key = auth"
  shows "parse_header nc key 0 (file_message auth name ttl flags content) header_init = parsed auth name ttl flags"
proof -
  let ?h1 = "header_init\<lparr>h_auth := auth, h_max_auth := 256 - length auth, h_start := length auth, h_filled := 1\<rparr>"
  let ?s2 = "length auth + 1 + length name"
  let ?h2 = "?h1\<lparr>h_file_name := name, h_start := ?s2, h_filled := 2\<rparr>"
  let ?s3 = "?s2 + 1 + length ttl"
  let ?h3 = "?h2\<lparr>h_ttl_days := ttl, h_start := ?s3, h_filled := 3\<rparr>"
  have "parse_header nc key 0 (file_message auth name ttl flags content) header_init =
      parse_header nc key (length auth + 1) (name @ '' '' @ ttl @ '' '' @ flags @ '' '' @ content) ?h1"
    unfolding file_message_def using assms
    by (subst parse_auth, simp_all only: header_init_def) (auto simp: Let_def)
  also have "\<dots> = parse_header nc key (?s2 + 1) (ttl @ '' '' @ flags @ '' '' @ content) ?h2"
    using assms by (subst parse_name) (simp_all add: header_init_def Let_def numeral_2_eq_2)
  also have "\<dots> = parse_header nc key (?s3 + 1) (flags @ '' '' @ content) ?h3"
    using assms by (subst parse_ttl) (simp_all add: header_init_def Let_def numeral_3_eq_3)
  also have "\<dots> = ?h3\<lparr>h_flags := flags, h_start := ?s3 + 1 + length flags\<rparr>"
    using assms by (intro parse_flags) (simp_all add: header_init_def)
  also have "\<dots> = parsed auth name ttl flags" by (simp add: header_init_def parsed_def)
  finally show ?thesis .
qed


section \<open>Locks are released\<close>

lemma with_lock_keeps:
  assumes "with_lock t f w busy body s = Inr (Some r, s')" "lf_counted (lock_to_write s)"
    and "\<And>s1 r s2. body s1 = Inr (r, s2) \<Longrightarrow> lock_to_write s2 = lock_to_write s1"
  shows "lock_to_write s' = lock_to_write s"
proof (cases "lf_add t f w (lock_to_write s)")
  case (Pair a l)
  show ?thesis
  proof (cases a)
    case Entered
    then obtain s2 where "body (s\<lparr>lock_to_write := l\<rparr>) = Inr (r, s2)"
      and s': "s' = s2\<lparr>lock_to_write := lf_erase t f (lock_to_write s2)\<rparr>"
      using assms(1) Pair by (auto simp: with_lock_def bind_res_eq_Inr)
    then have "lock_to_write s2 = l" using assms(3) by fastforce
    then show ?thesis using s' lk.released[OF assms(2)] Pair Entered by simp
  qed (use assms(1) Pair lk.refused in \<open>auto simp: with_lock_def\<close>)
qed

lemma with_lock_enters:
  assumes "lf_idle f (lock_to_write s)" "lf_counted (lock_to_write s)"
    and "\<And>l. body (s\<lparr>lock_to_write := l\<rparr>) = Inr (r, s1\<lparr>lock_to_write := l\<rparr>)"
  shows "with_lock t f w busy body s = Inr (Some r, s1\<lparr>lock_to_write := lock_to_write s\<rparr>)"
  using lk.turn[OF assms(1,2), of t w] assms(3) by (auto simp: with_lock_def)

lemma upd_dir_simps [simp]:
  "lock_to_write (upd_dir sub f s) = lock_to_write s" "disk (upd_dir sub f s) = disk s" "oplog (upd_dir sub f s) = oplog s"
  by (simp_all add: upd_dir_def)

lemma upd_dir_upd:
  "(upd_dir sub f s)\<lparr>disk := D\<rparr> = upd_dir sub f (s\<lparr>disk := D\<rparr>)"
  "(upd_dir sub f s)\<lparr>oplog := O'\<rparr> = upd_dir sub f (s\<lparr>oplog := O'\<rparr>)"
  "(upd_dir sub f s)\<lparr>lock_to_write := L\<rparr> = upd_dir sub f (s\<lparr>lock_to_write := L\<rparr>)"
  by (simp_all add: upd_dir_def cong: if_cong)

lemma store_file_keeps_lock:
  "store_file e cfg sub bf fn d w ttl hs ol ap tw jr s = Inr (r, s') \<Longrightarrow> lock_to_write s' = lock_to_write s"
  by (auto simp: store_file_def Let_def bind_res_eq_Inr split: if_splits prod.splits)

lemma jdb_write_keeps_lock:
  "jdb_write e sub bf fn d w st c s = (ok, tw, ap, jr, s') \<Longrightarrow> lock_to_write s' = lock_to_write s"
  by (auto simp: jdb_write_def Let_def split: if_splits prod.splits)

lemma accept_locked_keeps_lock:
  "accept_locked e cfg sub bf fn h c s = Inr (r, s') \<Longrightarrow> lock_to_write s' = lock_to_write s"
  by (auto simp: accept_locked_def Let_def split: if_splits prod.splits option.splits
      dest!: store_file_keeps_lock jdb_write_keeps_lock)

lemma accept_file_keeps_lock:
  assumes "accept_file e cfg content nc aes s = Inr (Some r, s')" "lf_counted (lock_to_write s)"
  shows "lock_to_write s' = lock_to_write s"
  using assms(1)
  by (auto simp: accept_file_def Let_def split: if_splits prod.splits
      elim!: with_lock_keeps[OF _ assms(2)] dest: accept_locked_keeps_lock)

text \<open>Reading changes nothing at all.\<close>

lemma with_lock_pure:
  assumes "with_lock t f w busy body s = Inr (Some r, s')" "lf_counted (lock_to_write s)"
    and "\<And>s1 r s2. body s1 = Inr (r, s2) \<Longrightarrow> s2 = s1"
  shows "s' = s"
proof (cases "lf_add t f w (lock_to_write s)")
  case (Pair a l)
  show ?thesis
  proof (cases a)
    case Entered
    then have "s' = s\<lparr>lock_to_write := lf_erase t f l\<rparr>"
      using assms(1) Pair assms(3) by (fastforce simp: with_lock_def bind_res_eq_Inr)
    then show ?thesis using lk.released[OF assms(2)] Pair Entered by simp
  qed (use assms(1) Pair lk.refused in \<open>auto simp: with_lock_def\<close>)
qed

lemma read_file_keeps:
  assumes "server_read_file e cfg name c ro s = Inr (Some r, s')" "lf_counted (lock_to_write s)"
  shows "s' = s"
  using assms(1) by (auto simp: server_read_file_def Let_def read_body_def split: prod.splits elim!: with_lock_pure[OF _ assms(2)])

lemma read_file_info_keeps:
  assumes "read_file_info e cfg name c s = Inr (Some r, s')" "lf_counted (lock_to_write s)"
  shows "s' = s"
  using assms(1) by (auto simp: read_file_info_def Let_def info_body_def split: prod.splits elim!: with_lock_pure[OF _ assms(2)])

lemma remove_path_keeps_lock: "remove_path sub f s = Inr s' \<Longrightarrow> lock_to_write s' = lock_to_write s"
  by (auto simp: remove_path_def bind_res_eq_Inr split: option.splits)

lemma remove_body_keeps_lock: "remove_body sub q tms crc force s = Inr (r, s') \<Longrightarrow> lock_to_write s' = lock_to_write s"
  by (auto simp: remove_body_def Let_def bind_res_eq_Inr dest!: remove_path_keeps_lock split: if_splits option.splits prod.splits)

lemma remove_retry_keeps_lock:
  assumes "remove_retry wait t q body n s = Inr (Some r, s')" "lf_counted (lock_to_write s)"
    and "\<And>s1 r s2. body s1 = Inr (r, s2) \<Longrightarrow> lock_to_write s2 = lock_to_write s1"
    and "\<And>n s. lock_to_write (wait n s) = lock_to_write s"
  shows "lock_to_write s' = lock_to_write s"
  using assms(1,2)
proof (induction n arbitrary: s)
  case (Suc n)
  show ?case
  proof (cases "lf_add t q True (lock_to_write s)")
    case (Pair a l)
    show ?thesis
    proof (cases a)
      case Refused
      then have "l = lock_to_write s" using Pair lk.refused by blast
      then have "remove_retry wait t q body n (wait n s) = Inr (Some r, s')" using Suc.prems(1) Pair Refused by simp
      then show ?thesis using Suc.IH[of "wait n s"] Suc.prems(2) assms(4) by simp
    next
      case Entered
      then obtain s2 where "body (s\<lparr>lock_to_write := l\<rparr>) = Inr (r, s2)"
        and s': "s' = s2\<lparr>lock_to_write := lf_erase t q (lock_to_write s2)\<rparr>"
        using Suc.prems(1) Pair by (auto simp: bind_res_eq_Inr)
      then have "lock_to_write s2 = l" using assms(3) by fastforce
      then show ?thesis using s' lk.released[OF Suc.prems(2)] Pair Entered by simp
    qed (use Suc.prems(1) Pair in simp)
  qed
qed simp


section \<open>Accepting a file\<close>

text \<open>Appending the note only touches files below the directory of the lists.\<close>

lemma append_other: "append_to_file wr g line fs = (ok, fs') \<Longrightarrow> f \<noteq> g \<Longrightarrow> fs' f = fs f"
  by (auto simp: append_to_file_def split: if_splits)

lemma ttl_retry_other:
  "ttl_retry e path line i n fs = (ok, fs') \<Longrightarrow> \<forall>x. f \<noteq> path @ x \<Longrightarrow> fs' f = fs f"
  by (induction n arbitrary: i fs) (auto split: prod.splits bool.splits dest: append_other)

lemma ttl_note_other:
  assumes "ttl_note e cfg item ttl fs = (ok, fs')" "\<forall>x. f \<noteq> ttl_p cfg @ x"
  shows "fs' f = fs f"
  using assms by (auto simp: ttl_note_def Let_def split: prod.splits bool.splits dest!: ttl_retry_other[where f = f] append_other[where f = f])

definition with_note :: "senv \<Rightarrow> server_conf \<Rightarrow> string \<Rightarrow> int32 \<Rightarrow> bool \<Rightarrow> fsys \<Rightarrow> fsys" where
  "with_note e cfg item ttl ap fs = (if 0 < sint ttl \<and> \<not> ap then snd (ttl_note e cfg item ttl fs) else fs)"

lemma with_note_other: "\<forall>x. f \<noteq> ttl_p cfg @ x \<Longrightarrow> with_note e cfg item ttl ap fs f = fs f"
  unfolding with_note_def by (cases "ttl_note e cfg item ttl fs") (auto dest: ttl_note_other)

definition all_headers :: "string list \<Rightarrow> string list" where
  "all_headers hs = (if hs = [] then [''00''] else hs)"

definition written :: "senv \<Rightarrow> directory \<Rightarrow> string \<Rightarrow> bytes \<Rightarrow> int32 \<Rightarrow> string list \<Rightarrow> fsys \<Rightarrow> bool \<times> int32 \<times> fsys" where
  "written e d fn tw ttl hs fs =
     write_file_to_disk (writable e) (now e) (d_p d) fn tw 0 ttl (d_fs_block_size_b d) (all_headers hs) True fs"

definition note_result :: "senv \<Rightarrow> server_conf \<Rightarrow> string \<Rightarrow> int32 \<Rightarrow> bool \<Rightarrow> fsys \<Rightarrow> bool option" where
  "note_result e cfg item ttl ap fs = (if 0 < sint ttl \<and> \<not> ap then Some (fst (ttl_note e cfg item ttl fs)) else None)"

definition log_entry :: "bool \<Rightarrow> string \<Rightarrow> string list \<Rightarrow> (string \<times> int64 \<times> int64) list" where
  "log_entry ol bf hs = (if ol then [(bf, chars_to_numeric (hs ! 1), chars_to_numeric (hs ! 2))] else [])"

lemma store_file_result:
  assumes "written e d fn tw ttl hs (disk s) = (True, bytes, fs)"
    and "\<not> (w = appendable \<and> is_file_exists (disk s) (d_p d @ fn))"
  shows "store_file e cfg sub bf fn d w ttl hs ol ap tw jr s =
    Inr (\<lparr>r_status = st_ok, r_bytes_written = bytes, r_file_name = bf, r_headers = concat (all_headers hs),
          r_jdb = jr, r_ttl_success = note_result e cfg (d_p d @ fn) ttl ap fs\<rparr>,
         upd_dir sub (inc_curr_disk_size bytes)
           (s\<lparr>disk := with_note e cfg (d_p d @ fn) ttl ap fs, oplog := oplog s @ log_entry ol bf (all_headers hs)\<rparr>))"
proof -
  obtain b fs2 where nt: "ttl_note e cfg (d_p d @ fn) ttl fs = (b, fs2)" by (cases "ttl_note e cfg (d_p d @ fn) ttl fs")
  have c: "(w = appendable \<and> is_file_exists (disk s) (d_p d @ fn)) = False" using assms(2) by simp
  show ?thesis
    unfolding store_file_def all_headers_def[symmetric] Let_def c if_False assms(1)[unfolded written_def] bind_res_simps
    using nt by (cases s) (simp add: with_note_def note_result_def log_entry_def upd_dir_upd)
qed

text \<open>A message that the server may store as it comes: no document database, no append to a file.\<close>

definition type_of_flags :: "string \<Rightarrow> w_type" where
  "type_of_flags flags = (if length flags \<ge> 2 then flags_type (take 2 flags) else w_none)"

definition headers_of :: "string \<Rightarrow> string list \<times> bool" where
  "headers_of flags = (if length flags \<ge> 2 then file_headers (flags_type (take 2 flags)) flags else ([], False))"

definition may_write :: "server \<Rightarrow> directory \<Rightarrow> string \<Rightarrow> bool" where
  "may_write s d f \<longleftrightarrow> is_file_exists (disk s) (d_p d @ f) \<or> d_enabled d \<and> sint (d_curr_size_b d) < sint (d_max_size_b d)"

lemma accept_locked_plain:
  assumes "dirs s sub = Some d" "may_write s d fn" "type_of_flags (h_flags h) \<notin> {jdb, ajdb}"
  shows "accept_locked e cfg sub bf fn h c s =
    store_file e cfg sub bf fn d (type_of_flags (h_flags h)) (snd (stoi_int (h_ttl_days h) 0))
      (fst (headers_of (h_flags h))) (snd (headers_of (h_flags h))) False (drop (h_start h + 1) c) None s"
  using assms
  by (auto simp: accept_locked_def may_write_def type_of_flags_def headers_of_def Let_def split: prod.splits)

lemma drop_message: "drop (h_start (parsed auth name ttl flags) + 1) (file_message auth name ttl flags content) = content"
proof -
  let ?p = "auth @ '' '' @ name @ '' '' @ ttl @ '' '' @ flags @ '' ''"
  have "file_message auth name ttl flags content = ?p @ content" by (simp add: file_message_def)
  moreover have "h_start (parsed auth name ttl flags) + 1 = length ?p" by (simp add: parsed_def)
  ultimately show ?thesis by (metis append_eq_conv_conj)
qed

lemma accept_enters:
  assumes msg: "no_blank auth" "no_blank name" "no_blank ttl" "flags_ok flags" "length auth \<le> 256" "nc \<longrightarrow> conf_auth cfg = [] \<or> conf_auth cfg = auth"
    and name: "length name \<le> 64" "split_subfolder name = (sub, f)" "f \<noteq> []" "enable_write cfg"
    and lock: "lf_idle (segment_name e f) (lock_to_write s)" "lf_counted (lock_to_write s)"
    and body: "\<And>l. accept_locked e cfg sub name (segment_name e f) (parsed auth name ttl flags) (file_message auth name ttl flags content)
        (s\<lparr>lock_to_write := l\<rparr>) = Inr (r, s1\<lparr>lock_to_write := l\<rparr>)"
  shows "accept_file e cfg (file_message auth name ttl flags content) nc False s = Inr (Some r, s1\<lparr>lock_to_write := lock_to_write s\<rparr>)"
proof -
  have "parse_header nc (conf_auth cfg) 0 (file_message auth name ttl flags content) header_init = parsed auth name ttl flags"
    by (rule parse_message[OF msg])
  moreover have "length (file_message auth name ttl flags content) > 2" by (simp add: file_message_def)
  moreover have "h_file_name (parsed auth name ttl flags) = name" "h_auth_ok (parsed auth name ttl flags)" by (simp_all add: parsed_def)
  ultimately show ?thesis using name with_lock_enters[OF lock body] by (simp add: accept_file_def)
qed

lemma accept_plain:
  assumes msg: "no_blank auth" "no_blank name" "no_blank ttl" "flags_ok flags" "length auth \<le> 256" "nc \<longrightarrow> conf_auth cfg = [] \<or> conf_auth cfg = auth"
    and name: "length name \<le> 64" "split_subfolder name = (sub, f)" "f \<noteq> []"
    and conf: "enable_write cfg" "dirs s sub = Some d" "may_write s d (segment_name e f)"
    and lock: "lf_idle (segment_name e f) (lock_to_write s)" "lf_counted (lock_to_write s)"
    and plain: "type_of_flags flags \<notin> {jdb, ajdb}"
      "\<not> (type_of_flags flags = appendable \<and> is_file_exists (disk s) (d_p d @ segment_name e f))"
    and wr: "written e d (segment_name e f) content (snd (stoi_int ttl 0)) (fst (headers_of flags)) (disk s) = (True, bytes, fs)"
  shows "accept_file e cfg (file_message auth name ttl flags content) nc False s =
    Inr (Some \<lparr>r_status = st_ok, r_bytes_written = bytes, r_file_name = name,
               r_headers = concat (all_headers (fst (headers_of flags))), r_jdb = None,
               r_ttl_success = note_result e cfg (d_p d @ segment_name e f) (snd (stoi_int ttl 0)) False fs\<rparr>,
         upd_dir sub (inc_curr_disk_size bytes)
           (s\<lparr>disk := with_note e cfg (d_p d @ segment_name e f) (snd (stoi_int ttl 0)) False fs,
              oplog := oplog s @ log_entry (snd (headers_of flags)) name (all_headers (fst (headers_of flags)))\<rparr>))"
    (is "_ = Inr (Some ?r, ?s)")
proof -
  let ?q = "segment_name e f" and ?h = "parsed auth name ttl flags" and ?m = "file_message auth name ttl flags content"
  have f: "h_flags ?h = flags" "h_ttl_days ?h = ttl" by (simp_all add: parsed_def)
  have "accept_locked e cfg sub name ?q ?h ?m (s\<lparr>lock_to_write := l\<rparr>) = Inr (?r, ?s\<lparr>lock_to_write := l\<rparr>)" for l
  proof -
    let ?l = "s\<lparr>lock_to_write := l\<rparr>"
    have "accept_locked e cfg sub name ?q ?h ?m ?l =
        store_file e cfg sub name ?q d (type_of_flags flags) (snd (stoi_int ttl 0)) (fst (headers_of flags))
          (snd (headers_of flags)) False content None ?l"
      using conf plain by (subst accept_locked_plain[where d = d]) (simp_all add: f drop_message[simplified] may_write_def)
    also have "\<dots> = Inr (?r, ?s\<lparr>lock_to_write := l\<rparr>)"
      using wr plain by (subst store_file_result[where bytes = bytes and fs = fs]) (simp_all add: upd_dir_upd, cases s, simp)
    finally show ?thesis .
  qed
  then show ?thesis
    using accept_enters[OF msg name(1-3) conf(1) lock, of content ?r ?s] by (simp add: upd_dir_upd)
qed

section \<open>Reading a file back\<close>

lemma written_ok:
  assumes "writable e (d_p d @ fn)" "c \<noteq> []"
  shows "\<exists>bytes. written e d fn c ttl hs fs = (True, bytes, fs(d_p d @ fn \<mapsto> file_text (all_headers hs) (now e) ttl c))"
  using assms by (simp add: written_def write_file_to_disk_def Let_def)

lemma read_plain:
  assumes "enable_read cfg" "split_subfolder name = (sub, f)" "str_find f ''?jdb'' 0 = None" "dirs s sub = Some d"
    and "disk s (d_p d @ segment_name e f) = Some c" "c \<noteq> []"
    and "lf_idle (segment_name e f) (lock_to_write s)" "lf_counted (lock_to_write s)"
  shows "server_read_file e cfg name [] ro s = Inr (Some (st_ok, c), s)"
proof -
  have "read_body e cfg sub (segment_name e f) False [] ro [] (s\<lparr>lock_to_write := l\<rparr>) = Inr ((st_ok, c), s\<lparr>lock_to_write := l\<rparr>)" for l
    using assms by (simp add: read_body_def is_file_exists_def read_file_def)
  from with_lock_enters[OF assms(7,8) this] show ?thesis
    using assms(2,3) by (simp add: server_read_file_def)
qed

text \<open>The client decodes what the server stored.\<close>

lemma stoi_short_to_string: "stoi_short (to_string (sint ttl)) l = (True, word_of_int (sint (ttl :: int32)))"
proof -
  have "- (2 ^ 31) \<le> sint ttl" "sint ttl < 2 ^ 31" using sint_ge[of ttl] sint_lt[of ttl] by simp_all
  then show ?thesis by (simp add: stoi_short_def std_stoi_def stol_range_def strtol_to_string)
qed

lemma nat_to_string_le: "n < 10 ^ Suc k \<Longrightarrow> length (nat_to_string n) \<le> Suc k"
proof (induction k arbitrary: n)
  case (Suc k)
  show ?case
  proof (cases "n < 10")
    case False
    have "n div 10 < 10 ^ Suc k" using Suc.prems by (simp add: less_mult_imp_div_less)
    then show ?thesis using Suc.IH[of "n div 10"] False by (simp add: nat_to_string_length)
  qed (simp add: nat_to_string_length)
qed (simp add: nat_to_string_length)

lemma to_string_ttl:
  assumes "0 \<le> sint ttl" "sint (ttl :: int32) < 10 ^ 9"
  shows "no_blank (to_string (sint ttl))" "length (to_string (sint ttl)) < 10"
proof -
  show "no_blank (to_string (sint ttl))"
    using to_string_digits[OF assms(1)] isdigit_not_space[of "CHR '' ''"] by (auto simp: no_blank_def isspace_def)
  show "length (to_string (sint ttl)) < 10"
    using nat_to_string_le[of "nat (sint ttl)" 8] assms by (simp add: to_string_def nat_less_iff)
qed

lemma tail_content_found:
  assumes "0 \<le> sint ttl" "sint (ttl :: int32) < 10 ^ 9" "c \<noteq> []"
  shows "tail_content oob (p @ to_string (sint ttl) @ '' '' @ c) (length p) ri =
    ri\<lparr>ttl_days := word_of_int (sint ttl), ri_header := p @ to_string (sint ttl) @ '' '', ri_content := c\<rparr>"
proof -
  have "scan_ttl oob (p @ to_string (sint ttl) @ '' '' @ c) (length p) 10 [] =
      (length p + length (to_string (sint ttl)) + 1, to_string (sint ttl))"
    using to_string_ttl[OF assms(1,2)] by (subst scan_ttl_found) (simp_all add: no_blank_def)
  then show ?thesis using assms(3) by (simp add: tail_content_def stoi_short_to_string)
qed

lemma created_printed:
  assumes "normal t" "1000 \<le> year (dt_date t)" "year (dt_date t) \<le> 9999" "file_created ri = date_time_init"
  shows "created_of (get_date_time t) ri = ri\<lparr>file_created := printed t\<rparr>"
  using parse_printed[OF assms(1-3)] assms(4) by (simp add: created_of_def)


definition stored_info :: "w_type \<Rightarrow> int64 \<Rightarrow> int64 \<Rightarrow> date_time \<Rightarrow> int32 \<Rightarrow> bytes \<Rightarrow> bytes \<Rightarrow> read_info" where
  "stored_info w tms crc t ttl hdr c =
     \<lparr>file_type = w, file_tms = tms, file_crc32 = crc, file_created = printed t, ttl_days = word_of_int (sint ttl),
      ri_header = hdr, ri_content = c\<rparr>"

definition date_ok :: "date_time \<Rightarrow> bool" where
  "date_ok t \<longleftrightarrow> normal t \<and> 1000 \<le> year (dt_date t) \<and> year (dt_date t) \<le> 9999"

definition ttl_ok :: "int32 \<Rightarrow> bool" where
  "ttl_ok ttl \<longleftrightarrow> 0 \<le> sint ttl \<and> sint ttl < 10 ^ 9"

lemma stoi_type:
  assumes "w \<in> {insert_only, updatable, insert_only_without_compress, updatable_without_compress, jdb, ajdb, appendable}"
  shows "w_type_of (sint (snd (stoi_int (two_digits (w_int w)) l))) = w" "length (two_digits (w_int w)) = 2"
  using assms by (auto simp: two_digits_stoi two_digits_length w_type_of_def)

lemma fetch_versioned:
  assumes "w \<in> {updatable, updatable_without_compress, jdb, ajdb}" "date_ok t" "ttl_ok ttl" "c \<noteq> []"
    and "length tm = 8" "length cr = 8"
  shows "fetch_content oob (p @ file_text [two_digits (w_int w), tm, cr] t ttl c) (length p) read_info_init =
    Inr (stored_info w (chars_to_numeric tm) (chars_to_numeric cr) t ttl
      (p @ two_digits (w_int w) @ tm @ cr @ get_date_time t @ to_string (sint ttl) @ '' '') c)"
proof -
  let ?ty = "two_digits (w_int w)"
  let ?q = "p @ ?ty @ tm @ cr @ get_date_time t"
  let ?m = "?q @ to_string (sint ttl) @ '' '' @ c"
  have m: "p @ file_text [?ty, tm, cr] t ttl c = ?m" by (simp add: file_text_def)
  have l: "length (get_date_time t) = 19" "length ?ty = 2"
    using assms(1,2) length_printed stoi_type(2)[of w] by (auto simp: date_ok_def)
  have ty: "w_type_of (sint (snd (stoi_int ?ty 0))) = w" using assms(1) stoi_type(1)[of w] by auto
  have f: "take 2 (drop (length p) ?m) = ?ty" "take 8 (drop (length p + 2) ?m) = tm" "take 8 (drop (length p + 2 + 8) ?m) = cr"
    "take 19 (drop (length p + 2 + 16) ?m) = get_date_time t" "length p + 2 + 35 = length ?q" "length p + 37 \<le> length ?m"
    using l assms(5,6) by (simp_all add: drop_append)
  have tl: "tail_content oob ?m (37 + length p) ri =
      ri\<lparr>ttl_days := word_of_int (sint ttl), ri_header := ?q @ to_string (sint ttl) @ '' '', ri_content := c\<rparr>" for ri
    using tail_content_found[of ttl c oob ?q ri] assms(3,4) f(5) by (simp add: ttl_ok_def add.commute)
  show ?thesis
    using assms(1-4) f ty l created_printed[of t] tl
    unfolding m fetch_content_def
    by (auto simp: Let_def date_ok_def ttl_ok_def stored_info_def read_info_init_def)
qed

lemma fetch_unversioned:
  assumes "w \<in> {insert_only, insert_only_without_compress}" "date_ok t" "ttl_ok ttl" "c \<noteq> []"
  shows "fetch_content oob (p @ file_text [two_digits (w_int w)] t ttl c) (length p) read_info_init =
    Inr (stored_info w 0 0 t ttl (p @ two_digits (w_int w) @ get_date_time t @ to_string (sint ttl) @ '' '') c)"
proof -
  let ?ty = "two_digits (w_int w)"
  let ?q = "p @ ?ty @ get_date_time t"
  let ?m = "?q @ to_string (sint ttl) @ '' '' @ c"
  have m: "p @ file_text [?ty] t ttl c = ?m" by (simp add: file_text_def)
  have l: "length (get_date_time t) = 19" "length ?ty = 2"
    using assms(1,2) length_printed stoi_type(2)[of w] by (auto simp: date_ok_def)
  have ty: "w_type_of (sint (snd (stoi_int ?ty 0))) = w" using assms(1) stoi_type(1)[of w] by auto
  have f: "take 2 (drop (length p) ?m) = ?ty" "take 19 (drop (length p + 2) ?m) = get_date_time t"
    "length p + 2 + 19 = length ?q" "length p + 21 \<le> length ?m"
    using l by (simp_all add: drop_append)
  have tl: "tail_content oob ?m (21 + length p) ri =
      ri\<lparr>ttl_days := word_of_int (sint ttl), ri_header := ?q @ to_string (sint ttl) @ '' '', ri_content := c\<rparr>" for ri
    using tail_content_found[of ttl c oob ?q ri] assms(3,4) f(3) by (simp add: ttl_ok_def add.commute)
  show ?thesis
    using assms(1-4) f ty l created_printed[of t] tl
    unfolding m fetch_content_def
    by (auto simp: Let_def date_ok_def ttl_ok_def stored_info_def read_info_init_def)
qed

lemma fetch_appendable:
  assumes "date_ok t" "ttl_ok ttl" "c \<noteq> []" "length tm = 8"
  shows "fetch_content oob (p @ file_text [two_digits (w_int appendable), tm] t ttl c) (length p) read_info_init =
    Inr (stored_info appendable (chars_to_numeric tm) 0 t ttl
      (p @ two_digits (w_int appendable) @ tm @ get_date_time t @ to_string (sint ttl) @ '' '') c)"
proof -
  let ?ty = "two_digits (w_int appendable)"
  let ?q = "p @ ?ty @ tm @ get_date_time t"
  let ?m = "?q @ to_string (sint ttl) @ '' '' @ c"
  have m: "p @ file_text [?ty, tm] t ttl c = ?m" by (simp add: file_text_def)
  have l: "length (get_date_time t) = 19" "length ?ty = 2"
    using assms(1) length_printed stoi_type(2)[of appendable] by (auto simp: date_ok_def)
  have ty: "w_type_of (sint (snd (stoi_int ?ty 0))) = appendable" using stoi_type(1)[of appendable] by auto
  have f: "take 2 (drop (length p) ?m) = ?ty" "take 8 (drop (length p + 2) ?m) = tm"
    "take 19 (drop (length p + 2 + 8) ?m) = get_date_time t"
    "length p + 2 + 27 = length ?q" "length p + 29 \<le> length ?m"
    using l assms(4) by (simp_all add: drop_append)
  have tl: "tail_content oob ?m (29 + length p) ri =
      ri\<lparr>ttl_days := word_of_int (sint ttl), ri_header := ?q @ to_string (sint ttl) @ '' '', ri_content := c\<rparr>" for ri
    using tail_content_found[of ttl c oob ?q ri] assms(2,3) f(4) by (simp add: ttl_ok_def add.commute)
  show ?thesis
    using assms(1-3) f ty l created_printed[of t] tl
    unfolding m fetch_content_def
    by (auto simp: Let_def date_ok_def ttl_ok_def stored_info_def read_info_init_def)
qed


section \<open>A file that was accepted can be read\<close>

text \<open>When a file may be stored: what the checks of \<open>accept_file\<close> ask for.\<close>

definition can_store :: "senv \<Rightarrow> server_conf \<Rightarrow> server \<Rightarrow> string \<Rightarrow> directory \<Rightarrow> bool" where
  "can_store e cfg s name d \<longleftrightarrow>
     (case split_subfolder name of (sub, f) \<Rightarrow>
        no_blank name \<and> length name \<le> 64 \<and> f \<noteq> [] \<and> enable_write cfg \<and> dirs s sub = Some d
        \<and> may_write s d (segment_name e f) \<and> writable e (d_p d @ segment_name e f)
        \<and> lf_idle (segment_name e f) (lock_to_write s) \<and> lf_counted (lock_to_write s)
        \<and> (\<forall>x. d_p d @ segment_name e f \<noteq> ttl_p cfg @ x))"

definition file_path :: "senv \<Rightarrow> directory \<Rightarrow> string \<Rightarrow> string" where
  "file_path e d name = d_p d @ segment_name e (snd (split_subfolder name))"

lemma inc_curr_disk_size_p [simp]: "d_p (inc_curr_disk_size b d) = d_p d"
  by (simp add: inc_curr_disk_size_def)

lemma dirs_upd_dir: "dirs (upd_dir sub g s) k = (if k = sub then map_option g (dirs s k) else dirs s k)"
  by (simp add: upd_dir_def)

lemma accept_stores:
  assumes "can_store e cfg s name d" "no_blank auth" "no_blank ttl" "flags_ok flags" "length auth \<le> 256"
    and "nc \<longrightarrow> conf_auth cfg = [] \<or> conf_auth cfg = auth" "c \<noteq> []"
    and "type_of_flags flags \<notin> {jdb, ajdb}" "type_of_flags flags = appendable \<longrightarrow> disk s (file_path e d name) = None"
  shows "\<exists>r s'. accept_file e cfg (file_message auth name ttl flags c) nc False s = Inr (Some r, s') \<and> r_status r = st_ok
    \<and> disk s' (file_path e d name) = Some (file_text (all_headers (fst (headers_of flags))) (now e) (snd (stoi_int ttl 0)) c)
    \<and> (\<forall>g. g \<noteq> file_path e d name \<longrightarrow> (\<forall>x. g \<noteq> ttl_p cfg @ x) \<longrightarrow> disk s' g = disk s g)
    \<and> dirs s' = dirs (upd_dir (fst (split_subfolder name)) (inc_curr_disk_size (r_bytes_written r)) s)
    \<and> lock_to_write s' = lock_to_write s
    \<and> oplog s' = oplog s @ log_entry (snd (headers_of flags)) name (all_headers (fst (headers_of flags)))"
proof -
  obtain sub f where sf: "split_subfolder name = (sub, f)" by (cases "split_subfolder name")
  have st: "no_blank name" "length name \<le> 64" "f \<noteq> []" "enable_write cfg" "dirs s sub = Some d"
    "may_write s d (segment_name e f)" "writable e (d_p d @ segment_name e f)"
    "lf_idle (segment_name e f) (lock_to_write s)" "lf_counted (lock_to_write s)"
    "\<forall>x. d_p d @ segment_name e f \<noteq> ttl_p cfg @ x"
    using assms(1) by (simp_all add: can_store_def sf)
  have p: "file_path e d name = d_p d @ segment_name e f" by (simp add: file_path_def sf)
  obtain bytes where wr: "written e d (segment_name e f) c (snd (stoi_int ttl 0)) (fst (headers_of flags)) (disk s) =
      (True, bytes, (disk s)(d_p d @ segment_name e f \<mapsto>
        file_text (all_headers (fst (headers_of flags))) (now e) (snd (stoi_int ttl 0)) c))"
    using written_ok[of e d "segment_name e f" c] st assms(7) by blast
  have na: "\<not> (type_of_flags flags = appendable \<and> is_file_exists (disk s) (d_p d @ segment_name e f))"
    using assms(9) by (auto simp: is_file_exists_def p)
  note acc = accept_plain[OF assms(2) st(1) assms(3-6) st(2) sf st(3-6) st(8,9) assms(8) na wr]
  show ?thesis
    unfolding acc p using st(10) by (simp add: with_note_other sf upd_dir_def cong: if_cong)
qed

lemma accept_then_read:
  assumes "can_store e cfg s name d" "no_blank auth" "no_blank ttl" "flags_ok flags" "length auth \<le> 256"
    and "nc \<longrightarrow> conf_auth cfg = [] \<or> conf_auth cfg = auth" "c \<noteq> []"
    and "type_of_flags flags \<notin> {jdb, ajdb}" "type_of_flags flags = appendable \<longrightarrow> disk s (file_path e d name) = None"
    and "enable_read cfg" "str_find (snd (split_subfolder name)) ''?jdb'' 0 = None"
  shows "\<exists>r s'. accept_file e cfg (file_message auth name ttl flags c) nc False s = Inr (Some r, s') \<and> r_status r = st_ok
    \<and> server_read_file e cfg name [] ro s' =
        Inr (Some (st_ok, file_text (all_headers (fst (headers_of flags))) (now e) (snd (stoi_int ttl 0)) c), s')"
proof -
  obtain r s' where a: "accept_file e cfg (file_message auth name ttl flags c) nc False s = Inr (Some r, s')" "r_status r = st_ok"
    "disk s' (file_path e d name) = Some (file_text (all_headers (fst (headers_of flags))) (now e) (snd (stoi_int ttl 0)) c)"
    "dirs s' = dirs (upd_dir (fst (split_subfolder name)) (inc_curr_disk_size (r_bytes_written r)) s)"
    "lock_to_write s' = lock_to_write s"
    using accept_stores[OF assms(1-9)] by auto
  obtain sub f where sf: "split_subfolder name = (sub, f)" by (cases "split_subfolder name")
  have st: "dirs s sub = Some d" "lf_idle (segment_name e f) (lock_to_write s')" "lf_counted (lock_to_write s')"
    using assms(1) a(5) by (simp_all add: can_store_def sf)
  let ?d = "inc_curr_disk_size (r_bytes_written r) d"
  let ?t = "file_text (all_headers (fst (headers_of flags))) (now e) (snd (stoi_int ttl 0)) c"
  have "dirs s' sub = Some ?d" using st(1) a(4) by (simp add: sf dirs_upd_dir)
  moreover have "disk s' (d_p ?d @ segment_name e f) = Some ?t" using a(3) by (simp add: file_path_def sf)
  moreover have "?t \<noteq> []" by (simp add: file_text_def)
  moreover have "str_find f ''?jdb'' 0 = None" using assms(11) by (simp add: sf)
  ultimately have "server_read_file e cfg name [] ro s' = Inr (Some (st_ok, ?t), s')"
    using st(2,3) by (intro read_plain[OF assms(10) sf])
  then show ?thesis using a by blast
qed


section \<open>The used size of a directory\<close>

definition dir_files :: "directory \<Rightarrow> fsys \<Rightarrow> fsys" where
  "dir_files d fs = fs |` {f. \<exists>x. f = d_p d @ x}"

text \<open>
  Directories and the lists of expiring files do not overlap, files are not empty and below 1 GB,
  blocks are a power of two up to 1 GB, and what a directory counts is what its files use.
\<close>

definition accounted :: "server_conf \<Rightarrow> server \<Rightarrow> bool" where
  "accounted cfg s \<longleftrightarrow> finite (dom (disk s))
     \<and> (\<forall>sub d sub' d' x y. dirs s sub = Some d \<longrightarrow> dirs s sub' = Some d' \<longrightarrow> sub \<noteq> sub' \<longrightarrow> d_p d @ x \<noteq> d_p d' @ y)
     \<and> (\<forall>sub d x y. dirs s sub = Some d \<longrightarrow> d_p d @ x \<noteq> ttl_p cfg @ y)
     \<and> (\<forall>sub d x c. dirs s sub = Some d \<longrightarrow> disk s (d_p d @ x) = Some c \<longrightarrow> c \<noteq> [] \<and> length c < 2 ^ 30)
     \<and> (\<forall>sub d. dirs s sub = Some d \<longrightarrow> (\<exists>k \<le> 30. d_fs_block_size_b d = of_nat (2 ^ k)
          \<and> d_curr_size_b d = of_int (used (2 ^ k) (dir_files d (disk s)))))"

lemma accountedD:
  assumes "accounted cfg s" "dirs s sub = Some d"
  shows "finite (dom (disk s))" "d_p d @ x \<noteq> ttl_p cfg @ y"
    "dirs s sub' = Some d' \<Longrightarrow> sub \<noteq> sub' \<Longrightarrow> d_p d @ x \<noteq> d_p d' @ y"
    "disk s (d_p d @ x) = Some c \<Longrightarrow> c \<noteq> [] \<and> length c < 2 ^ 30"
    "\<exists>k \<le> 30. d_fs_block_size_b d = of_nat (2 ^ k) \<and> d_curr_size_b d = of_int (used (2 ^ k) (dir_files d (disk s)))"
  using assms unfolding accounted_def by blast+

definition blocks_of :: "nat \<Rightarrow> bytes option \<Rightarrow> nat" where
  "blocks_of B c = (case c of None \<Rightarrow> 0 | Some c \<Rightarrow> file_blocks B (length c))"

lemma used_change: "finite (dom fs) \<Longrightarrow> used B (fs(f := c)) - used B fs = int (blocks_of B c) - int (blocks_of B (fs f))"
  using used_remove[of fs B f] used_upd[of fs B f]
  by (cases c; cases "fs f") (auto simp: blocks_of_def old_blocks_def)

lemma dir_files_upd: "dir_files d (fs(d_p d @ x := c)) = (dir_files d fs)(d_p d @ x := c)" "dir_files d fs (d_p d @ x) = fs (d_p d @ x)"
  by (auto simp: dir_files_def restrict_map_def)

lemma dir_files_other: "(\<And>x. fs' (d_p d @ x) = fs (d_p d @ x)) \<Longrightarrow> dir_files d fs' = dir_files d fs"
  by (rule ext) (auto simp: dir_files_def restrict_map_def)

lemma finite_dir_files: "finite (dom fs) \<Longrightarrow> finite (dom (dir_files d fs))"
  by (rule finite_subset[of _ "dom fs"]) (auto simp: dir_files_def restrict_map_def split: if_splits)

lemma blocks_small:
  assumes "k \<le> 30" "length c < 2 ^ 30"
  shows "file_blocks (2 ^ k) (length c) < 2 ^ 31"
proof -
  have "2 ^ k * (length c div 2 ^ k) \<le> length c" by (simp add: mult.commute)
  moreover have "(2 :: nat) ^ k \<le> 2 ^ 30" using assms(1) by (intro power_increasing) simp_all
  moreover have "file_blocks (2 ^ k) (length c) \<le> 2 ^ k * (length c div 2 ^ k) + 2 ^ k" by (simp add: file_blocks_def)
  moreover have "(2 :: nat) ^ 31 = 2 ^ 30 + 2 ^ 30" by simp
  ultimately show ?thesis using assms(2) by linarith
qed

lemma scast_of_int_32: "- (2 ^ 31) \<le> i \<Longrightarrow> i < 2 ^ 31 \<Longrightarrow> (scast (of_int i :: int32) :: int64) = of_int i"
proof -
  assume "- (2 ^ 31) \<le> i" "i < 2 ^ 31"
  then have "sint (of_int i :: int32) = i" by (simp add: signed_of_int signed_take_bit_int_eq_self)
  then show ?thesis by (metis of_int_sint)
qed

text \<open>One file of one directory changes and the directory counts it.\<close>

lemma accounted_change:
  assumes acc: "accounted cfg s" and sub: "dirs s sub = Some d"
    and k: "k \<le> 30" "d_fs_block_size_b d = of_nat (2 ^ k)" "d_curr_size_b d = of_int (used (2 ^ k) (dir_files d (disk s)))"
    and c: "\<And>v. c = Some v \<Longrightarrow> v \<noteq> [] \<and> length v < 2 ^ 30"
    and b: "b = of_int (int (blocks_of (2 ^ k) c) - int (blocks_of (2 ^ k) (disk s (d_p d @ f))))"
    and s': "dirs s' = dirs (upd_dir sub (inc_curr_disk_size b) s)" "finite (dom (disk s'))"
    and fs: "\<And>g. g \<noteq> d_p d @ f \<Longrightarrow> (\<forall>x. g \<noteq> ttl_p cfg @ x) \<Longrightarrow> disk s' g = disk s g" "disk s' (d_p d @ f) = c"
  shows "accounted cfg s'"
proof -
  have D: "\<exists>d0. dirs s u = Some d0 \<and> d_p e = d_p d0 \<and> d_fs_block_size_b e = d_fs_block_size_b d0
      \<and> d_curr_size_b e = d_curr_size_b d0 + (if u = sub then scast b else 0)" if "dirs s' u = Some e" for u e
    using that unfolding s'(1) by (auto simp: dirs_upd_dir inc_curr_disk_size_def split: if_splits)
  have old: "disk s (d_p d @ f) = Some v \<Longrightarrow> length v < 2 ^ 30" for v using accountedD(4)[OF acc sub] by blast
  have g: "scast b = (of_int (int (blocks_of (2 ^ k) c) - int (blocks_of (2 ^ k) (disk s (d_p d @ f)))) :: int64)"
    unfolding b
  proof (rule scast_of_int_32)
    have "blocks_of (2 ^ k) c < 2 ^ 31" "blocks_of (2 ^ k) (disk s (d_p d @ f)) < 2 ^ 31"
      using blocks_small[OF k(1)] c old by (auto simp: blocks_of_def split: option.split)
    then show "- (2 ^ 31) \<le> int (blocks_of (2 ^ k) c) - int (blocks_of (2 ^ k) (disk s (d_p d @ f)))"
      "int (blocks_of (2 ^ k) c) - int (blocks_of (2 ^ k) (disk s (d_p d @ f))) < 2 ^ 31" by simp_all
  qed
  have other: "disk s' (d_p e @ x) = disk s (d_p e @ x)" if "dirs s u = Some e" "u \<noteq> sub" for u e x
    using that accountedD(2,3)[OF acc sub] accountedD(2,3)[OF acc that(1)] sub by (intro fs(1)) metis+
  have same: "disk s' (d_p d @ x) = (if x = f then c else disk s (d_p d @ x))" for x
    using fs(1)[of "d_p d @ x"] fs(2) accountedD(2)[OF acc sub] by auto
  have cur: "\<exists>k \<le> 30. d_fs_block_size_b e = of_nat (2 ^ k) \<and> d_curr_size_b e = of_int (used (2 ^ k) (dir_files e (disk s')))"
    if e: "dirs s' u = Some e" for u e
  proof -
    obtain d0 where d0: "dirs s u = Some d0" "d_p e = d_p d0" "d_fs_block_size_b e = d_fs_block_size_b d0"
      "d_curr_size_b e = d_curr_size_b d0 + (if u = sub then scast b else 0)" using D[OF e] by blast
    have ef: "dir_files e fs = dir_files d0 fs" for fs by (simp add: dir_files_def d0(2))
    show ?thesis
    proof (cases "u = sub")
      case False
      have "dir_files d0 (disk s') = dir_files d0 (disk s)" by (rule dir_files_other) (rule other[OF d0(1) False])
      then show ?thesis using accountedD(5)[OF acc d0(1)] d0 False by (simp add: ef)
    next
      case True
      then have "d0 = d" using d0(1) sub by simp
      have "dir_files d (disk s') = (dir_files d (disk s))(d_p d @ f := c)"
        unfolding dir_files_upd(1)[symmetric] by (rule dir_files_other) (simp add: same)
      then have "used (2 ^ k) (dir_files d (disk s')) =
          used (2 ^ k) (dir_files d (disk s)) + (int (blocks_of (2 ^ k) c) - int (blocks_of (2 ^ k) (disk s (d_p d @ f))))"
        using used_change[OF finite_dir_files[OF accountedD(1)[OF acc sub]], of "2 ^ k" d "d_p d @ f" c] by (simp add: dir_files_upd(2))
      then show ?thesis using d0 True \<open>d0 = d\<close> k g by (intro exI[of _ k]) (simp add: ef)
    qed
  qed
  have "c' \<noteq> [] \<and> length c' < 2 ^ 30" if e: "dirs s' u = Some e" "disk s' (d_p e @ x) = Some c'" for u e x c'
  proof -
    obtain d0 where d0: "dirs s u = Some d0" "d_p e = d_p d0" using D[OF e(1)] by blast
    show ?thesis
    proof (cases "u = sub")
      case True
      then show ?thesis using e(2) d0 sub same[of x] c accountedD(4)[OF acc sub] by (auto split: if_splits)
    next
      case False
      then show ?thesis using e(2) d0 other[OF d0(1) False] accountedD(4)[OF acc d0(1)] by simp
    qed
  qed
  moreover have "d_p e @ x \<noteq> d_p e' @ y" if "dirs s' u = Some e" "dirs s' u' = Some e'" "u \<noteq> u'" for u u' e e' x y
    using D[OF that(1)] D[OF that(2)] that(3) accountedD(3)[OF acc] by metis
  moreover have "d_p e @ x \<noteq> ttl_p cfg @ y" if "dirs s' u = Some e" for u e x y
    using D[OF that] accountedD(2)[OF acc] by metis
  ultimately show ?thesis using s'(2) cur unfolding accounted_def by blast
qed


lemma append_finite: "append_to_file wr g line fs = (ok, fs') \<Longrightarrow> finite (dom fs) \<Longrightarrow> finite (dom fs')"
  by (auto simp: append_to_file_def split: if_splits)

lemma ttl_retry_finite: "finite (dom fs) \<Longrightarrow> finite (dom (snd (ttl_retry e path line i n fs)))"
  by (induction n arbitrary: i fs) (auto split: prod.splits bool.splits dest: append_finite)

lemma with_note_finite: "finite (dom fs) \<Longrightarrow> finite (dom (with_note e cfg item ttl ap fs))"
  by (auto simp: with_note_def ttl_note_def Let_def split: prod.splits bool.splits dest: append_finite intro!: ttl_retry_finite)

lemma written_result:
  assumes "date_ok (now e)" "accounted cfg s" "dirs s sub = Some d" "k \<le> 30" "d_fs_block_size_b d = of_nat (2 ^ k)"
    and "length (file_text (all_headers hs) (now e) ttl c) < 2 ^ 30" "writable e (d_p d @ fn)"
  defines "o' \<equiv> if c = [] then None else Some (file_text (all_headers hs) (now e) ttl c)"
  shows "written e d fn c ttl hs (disk s) =
    (True, of_int (int (blocks_of (2 ^ k) o') - int (blocks_of (2 ^ k) (disk s (d_p d @ fn)))), (disk s)(d_p d @ fn := o'))"
proof -
  obtain ok b fs where w: "written e d fn c ttl hs (disk s) = (ok, b, fs)" by (metis prod_cases3)
  then have ok using assms(7) by (auto simp: written_def write_file_to_disk_def Let_def split: if_splits)
  have "small_file (disk s) (d_p d @ fn)"
    using accountedD(4)[OF assms(2,3), of fn] by (cases "disk s (d_p d @ fn)") (auto simp: small_file_def)
  then have "fs = (disk s)(d_p d @ fn := o') \<and> b = 0 + of_int (used (2 ^ k) fs - used (2 ^ k) (disk s))"
    using write_file_result[of "now e" "disk s" "d_p d" fn k "all_headers hs" ttl c "writable e" 0 b fs]
      w assms(1,4-6) accountedD(1)[OF assms(2,3)] \<open>ok\<close> unfolding o'_def written_def date_ok_def by auto
  moreover have "used (2 ^ k) ((disk s)(d_p d @ fn := o')) - used (2 ^ k) (disk s) =
      int (blocks_of (2 ^ k) o') - int (blocks_of (2 ^ k) (disk s (d_p d @ fn)))"
    by (rule used_change[OF accountedD(1)[OF assms(2,3)]])
  ultimately show ?thesis using w \<open>ok\<close> by (simp only: add_0)
qed

lemma accept_accounted:
  assumes "can_store e cfg s name d" "no_blank auth" "no_blank ttl" "flags_ok flags" "length auth \<le> 256"
    and "nc \<longrightarrow> conf_auth cfg = [] \<or> conf_auth cfg = auth" "type_of_flags flags \<notin> {jdb, ajdb}"
    and "type_of_flags flags = appendable \<longrightarrow> disk s (file_path e d name) = None"
    and "accounted cfg s" "date_ok (now e)"
    and "length (file_text (all_headers (fst (headers_of flags))) (now e) (snd (stoi_int ttl 0)) c) < 2 ^ 30"
  shows "\<exists>r s'. accept_file e cfg (file_message auth name ttl flags c) nc False s = Inr (Some r, s') \<and> r_status r = st_ok
    \<and> accounted cfg s' \<and> lock_to_write s' = lock_to_write s
    \<and> dirs s' = dirs (upd_dir (fst (split_subfolder name)) (inc_curr_disk_size (r_bytes_written r)) s)
    \<and> disk s' (file_path e d name) = (if c = [] then None
        else Some (file_text (all_headers (fst (headers_of flags))) (now e) (snd (stoi_int ttl 0)) c))
    \<and> (\<forall>g. g \<noteq> file_path e d name \<longrightarrow> (\<forall>x. g \<noteq> ttl_p cfg @ x) \<longrightarrow> disk s' g = disk s g)"
proof -
  obtain sub f where sf: "split_subfolder name = (sub, f)" by (cases "split_subfolder name")
  have st: "no_blank name" "length name \<le> 64" "f \<noteq> []" "enable_write cfg" "dirs s sub = Some d"
    "may_write s d (segment_name e f)" "writable e (d_p d @ segment_name e f)"
    "lf_idle (segment_name e f) (lock_to_write s)" "lf_counted (lock_to_write s)"
    using assms(1) by (simp_all add: can_store_def sf)
  have na: "\<not> (type_of_flags flags = appendable \<and> is_file_exists (disk s) (d_p d @ segment_name e f))"
    using assms(8) by (auto simp: is_file_exists_def file_path_def sf)
  obtain k where k: "k \<le> 30" "d_fs_block_size_b d = of_nat (2 ^ k)" "d_curr_size_b d = of_int (used (2 ^ k) (dir_files d (disk s)))"
    using accountedD(5)[OF assms(9) st(5)] by blast
  note wr = written_result[OF assms(10,9) st(5) k(1,2) assms(11) st(7)]
  note acc = accept_plain[OF assms(2) st(1) assms(3-6) st(2) sf st(3-6) st(8,9) assms(7) na wr]
  let ?o = "if c = [] then None else Some (file_text (all_headers (fst (headers_of flags))) (now e) (snd (stoi_int ttl 0)) c)"
  let ?b = "of_int (int (blocks_of (2 ^ k) ?o) - int (blocks_of (2 ^ k) (disk s (d_p d @ segment_name e f)))) :: int32"
  let ?s = "upd_dir sub (inc_curr_disk_size ?b)
    (s\<lparr>disk := with_note e cfg (d_p d @ segment_name e f) (snd (stoi_int ttl 0)) False ((disk s)(d_p d @ segment_name e f := ?o)),
       oplog := oplog s @ log_entry (snd (headers_of flags)) name (all_headers (fst (headers_of flags)))\<rparr>)"
  have "accounted cfg ?s"
  proof (rule accounted_change[OF assms(9) st(5) k, where f = "segment_name e f"])
    show "\<And>v. ?o = Some v \<Longrightarrow> v \<noteq> [] \<and> length v < 2 ^ 30"
      using assms(11) by (auto simp: file_text_def split: if_splits)
  qed (use accountedD(1,2)[OF assms(9) st(5)] in \<open>auto simp: with_note_other with_note_finite dirs_upd_dir intro!: ext\<close>)
  moreover have "dirs ?s = dirs (upd_dir sub (inc_curr_disk_size ?b) s)" by (simp add: upd_dir_def cong: if_cong)
  moreover have "disk ?s (d_p d @ segment_name e f) = ?o"
    "\<And>g. g \<noteq> d_p d @ segment_name e f \<Longrightarrow> (\<forall>x. g \<noteq> ttl_p cfg @ x) \<Longrightarrow> disk ?s g = disk s g"
    using accountedD(2)[OF assms(9) st(5)] by (auto simp: with_note_other)
  ultimately show ?thesis unfolding acc file_path_def sf by auto
qed

lemma remove_path_accounted:
  assumes "accounted cfg s" "dirs s sub = Some d" "disk s (d_p d @ f) = Some c"
  shows "\<exists>b s'. remove_path sub (d_p d @ f) s = Inr s' \<and> accounted cfg s' \<and> disk s' = (disk s)(d_p d @ f := None)
    \<and> dirs s' sub = Some (inc_curr_disk_size b d) \<and> lock_to_write s' = lock_to_write s"
proof -
  obtain k where k: "k \<le> 30" "d_fs_block_size_b d = of_nat (2 ^ k)" "d_curr_size_b d = of_int (used (2 ^ k) (dir_files d (disk s)))"
    using accountedD(5)[OF assms(1,2)] by blast
  have c: "c \<noteq> []" "length c < 2 ^ 30" using accountedD(4)[OF assms(1-3)] by simp_all
  let ?n = "file_blocks (2 ^ k) (length c)"
  have "(2 :: nat) ^ k < 2 ^ 63" using k(1) by (intro power_strict_increasing) simp_all
  then have "round_up (of_nat (length c)) (of_nat (2 ^ k)) = of_nat ?n" using c(2) by (intro round_up_small) simp_all
  moreover have "(of_nat (length c) :: uint64) \<noteq> 0"
    using c by (simp add: of_nat_eq_0_iff word_unat_eq_iff unat_of_nat take_bit_nat_eq_self)
  ultimately have "block_bytes (get_file_size (disk s) (d_p d @ f) div of_nat (2 ^ k) + 1) (of_nat (2 ^ k)) = of_nat ?n"
    using assms(3) by (simp add: round_up_def get_file_size_def del: of_nat_power)
  then have r: "get_file_size_fs_block_size (disk s) (d_p d @ f) (d_fs_block_size_b d) = Inr (of_nat ?n)"
    using power_64_nz[of k] k(1,2) by (simp add: get_file_size_fs_block_size_def del: of_nat_power)
  let ?b = "- ucast (of_nat ?n :: int64) :: int32"
  let ?s = "(upd_dir sub (inc_curr_disk_size ?b) s)\<lparr>disk := fs_remove (d_p d @ f) (disk s)\<rparr>"
  have "remove_path sub (d_p d @ f) s = Inr ?s" using assms(2) r by (simp add: remove_path_def)
  moreover have "accounted cfg ?s"
  proof (rule accounted_change[OF assms(1,2) k, where c = None and f = f])
    show "?b = of_int (int (blocks_of (2 ^ k) None) - int (blocks_of (2 ^ k) (disk s (d_p d @ f))))"
      using assms(3) by (simp add: blocks_of_def ucast_of_nat_64)
  qed (use accountedD(1)[OF assms(1,2)] in \<open>auto simp: fs_remove_def\<close>)
  ultimately show ?thesis using assms(2) by (auto simp: fs_remove_def dirs_upd_dir)
qed

text \<open>Removing a file takes the data file of a document database with it.\<close>

lemma remove_both:
  assumes "accounted cfg s" "dirs s sub = Some d" "disk s (d_p d @ q) \<noteq> None"
    and "force \<or> need_remove (snd (read_file (disk s) (d_p d) q [] 64)) tms crc"
  shows "\<exists>s'. remove_body sub q tms crc force s = Inr (True, s') \<and> accounted cfg s' \<and> lock_to_write s' = lock_to_write s
    \<and> disk s' = (disk s)(d_p d @ q := None, d_p d @ q @ j_extension_name := None)"
proof -
  obtain c where c: "disk s (d_p d @ q) = Some c" using assms(3) by blast
  obtain b s1 where s1: "remove_path sub (d_p d @ q) s = Inr s1" "accounted cfg s1" "disk s1 = (disk s)(d_p d @ q := None)"
    "dirs s1 sub = Some (inc_curr_disk_size b d)" "lock_to_write s1 = lock_to_write s"
    using remove_path_accounted[OF assms(1,2) c] by blast
  let ?x = "d_p d @ q @ j_extension_name"
  have "\<exists>s'. (if is_file_exists (disk s1) ?x then remove_path sub ?x s1 else Inr s1) = Inr s' \<and> accounted cfg s'
      \<and> disk s' = (disk s1)(?x := None) \<and> lock_to_write s' = lock_to_write s"
  proof (cases "disk s1 ?x")
    case None
    then have "(disk s1)(?x := None) = disk s1" by auto
    then show ?thesis using None s1(2,5) by (auto simp: is_file_exists_def)
  next
    case (Some c2)
    then show ?thesis using remove_path_accounted[OF s1(2,4), of "q @ j_extension_name" c2] s1(5) by (auto simp: is_file_exists_def)
  qed
  then obtain s2 where s2: "(if is_file_exists (disk s1) ?x then remove_path sub ?x s1 else Inr s1) = Inr s2" "accounted cfg s2"
    "disk s2 = (disk s1)(?x := None)" "lock_to_write s2 = lock_to_write s" by blast
  have "remove_body sub q tms crc force s = Inr (True, s2)"
    using assms(2,4) c s1(1) s2(1) by (auto simp: remove_body_def is_file_exists_def read_file_def Let_def)
  then show ?thesis using s2 s1(3) by auto
qed

lemma remove_body_keeps:
  assumes "dirs s sub = Some d" "disk s (d_p d @ q) \<noteq> None" "\<not> need_remove (snd (read_file (disk s) (d_p d) q [] 64)) tms crc"
  shows "remove_body sub q tms crc False s = Inr (True, s)"
  using assms by (auto simp: remove_body_def is_file_exists_def read_file_def Let_def split: option.splits)

text \<open>The header of a stored file decides.\<close>

definition older :: "int64 \<times> int64 \<Rightarrow> int64 \<times> int64 \<Rightarrow> bool" where
  "older a b \<longleftrightarrow> sint (fst a) < sint (fst b) \<or> fst a = fst b \<and> sint (snd a) < sint (snd b)"

lemma need_remove_stored:
  assumes "w \<in> {updatable, updatable_without_compress, jdb}" "date_ok t"
    and "disk s (d_p d @ q) = Some (file_text [two_digits (w_int w), numeric_to_chars tms 8, numeric_to_chars crc 8] t ttl c)"
  shows "need_remove (snd (read_file (disk s) (d_p d) q [] 64)) tms' crc' \<longleftrightarrow> older (tms, crc) (tms', crc')"
proof -
  let ?h = "two_digits (w_int w) @ numeric_to_chars tms 8 @ numeric_to_chars crc 8"
  let ?r = "get_date_time t @ to_string (sint ttl) @ '' '' @ c"
  have l: "length (two_digits (w_int w)) = 2" using assms(1) stoi_type(2)[of w] by auto
  have "\<exists>y. snd (read_file (disk s) (d_p d) q [] 64) = ?h @ y"
  proof -
    have "snd (read_file (disk s) (d_p d) q [] 64) = take (if 64 < length (?h @ ?r) then 64 else length (?h @ ?r)) (?h @ ?r)"
      using assms(3) by (simp add: read_file_def file_text_def)
    moreover have "length ?h \<le> (if 64 < length (?h @ ?r) then 64 else length (?h @ ?r))" using l by simp
    ultimately show ?thesis by (metis take_append take_all)
  qed
  then obtain y where y: "snd (read_file (disk s) (d_p d) q [] 64) = ?h @ y" by blast
  have "w_type_of (sint (snd (stoi_short (two_digits 1) 0))) = updatable"
    "w_type_of (sint (snd (stoi_short (two_digits 3) 0))) = updatable_without_compress"
    "w_type_of (sint (snd (stoi_short (two_digits 4) 0))) = jdb" by code_simp+
  then have "w_type_of (sint (snd (stoi_short (two_digits (w_int w)) 0))) = w" using assms(1) by auto
  then show ?thesis
    unfolding y need_remove_def older_def using assms(1) l by (auto simp: Let_def)
qed

lemma remove_retry_enters:
  assumes "lf_idle q (lock_to_write s)" "lf_counted (lock_to_write s)"
    and "\<And>l. \<exists>s1. body (s\<lparr>lock_to_write := l\<rparr>) = Inr (r, s1) \<and> lock_to_write s1 = l \<and> P s1"
  shows "\<exists>s1. remove_retry wait t q body (Suc n) s = Inr (Some r, s1\<lparr>lock_to_write := lock_to_write s\<rparr>) \<and> P s1"
proof -
  obtain l where l: "lf_add t q True (lock_to_write s) = (Entered, l)" "lf_erase t q l = lock_to_write s"
    using lk.turn[OF assms(1,2)] by blast
  obtain s1 where "body (s\<lparr>lock_to_write := l\<rparr>) = Inr (r, s1)" "lock_to_write s1 = l" "P s1" using assms(3) by blast
  then show ?thesis using l by auto
qed

lemma accounted_lock [simp]: "accounted cfg (s\<lparr>lock_to_write := l\<rparr>) = accounted cfg s"
  by (simp add: accounted_def)

lemma remove_by_tms_versioned:
  assumes "accounted cfg s" "split_subfolder name = (sub, f)" "dirs s sub = Some d"
    and "w \<in> {updatable, updatable_without_compress, jdb}" "date_ok t"
    and "disk s (d_p d @ segment_name e f) = Some (file_text [two_digits (w_int w), numeric_to_chars tms 8, numeric_to_chars crc 8] t ttl c)"
    and "lf_idle (segment_name e f) (lock_to_write s)" "lf_counted (lock_to_write s)"
  shows "\<exists>s'. remove_file_by_tms e wait name tms' crc' False s = Inr (Some True, s') \<and> accounted cfg s'
    \<and> lock_to_write s' = lock_to_write s
    \<and> disk s' = (if older (tms, crc) (tms', crc')
        then (disk s)(d_p d @ segment_name e f := None, d_p d @ segment_name e f @ j_extension_name := None) else disk s)"
proof -
  let ?q = "segment_name e f" and ?o = "older (tms, crc) (tms', crc')"
  let ?P = "\<lambda>s1. accounted cfg s1 \<and> disk s1 = (if ?o
        then (disk s)(d_p d @ ?q := None, d_p d @ ?q @ j_extension_name := None) else disk s)"
  have "\<exists>s1. remove_body sub ?q tms' crc' False (s\<lparr>lock_to_write := l\<rparr>) = Inr (True, s1) \<and> lock_to_write s1 = l \<and> ?P s1" for l
  proof (cases ?o)
    case True
    then have "need_remove (snd (read_file (disk s) (d_p d) ?q [] 64)) tms' crc'"
      using need_remove_stored[OF assms(4-6)] by simp
    then show ?thesis
      using remove_both[of cfg "s\<lparr>lock_to_write := l\<rparr>" sub d ?q False tms' crc'] assms(1,3,6) True by auto
  next
    case False
    then show ?thesis
      using need_remove_stored[OF assms(4-6)] remove_body_keeps[of "s\<lparr>lock_to_write := l\<rparr>" sub d ?q tms' crc'] assms(1,3,6) by auto
  qed
  then obtain s1 where s1: "remove_retry wait (this_thread e) ?q (remove_body sub ?q tms' crc' False) 50 s =
      Inr (Some True, s1\<lparr>lock_to_write := lock_to_write s\<rparr>)" "?P s1"
    using remove_retry_enters[OF assms(7,8), of "remove_body sub ?q tms' crc' False" True ?P wait "this_thread e" 49] by auto
  then show ?thesis using assms(2) by (auto simp: remove_file_by_tms_def)
qed


section \<open>Locks of the expiry remover\<close>

lemma ttl_body_keeps_lock: "ttl_body cfg path item s = Inr (r, s') \<Longrightarrow> lock_to_write s' = lock_to_write s"
  by (auto simp: ttl_body_def Let_def bind_res_eq_Inr split: option.splits if_splits)

lemma ttl_item_keeps_lock:
  assumes "ttl_item e cfg item s = Inr (Some r, s')" "lf_counted (lock_to_write s)"
  shows "lock_to_write s' = lock_to_write s"
proof -
  obtain f path l s1 where l: "lf_add (this_thread e) f True (lock_to_write s) = (Entered, l)"
    "ttl_body cfg path item (s\<lparr>lock_to_write := l\<rparr>) = Inr (r, s1)" "s' = s1\<lparr>lock_to_write := lf_erase (this_thread e) f (lock_to_write s1)\<rparr>"
    using assms(1) unfolding ttl_item_def Let_def
    by (auto simp: bind_res_eq_Inr split: if_splits prod.splits add_result.splits)
  then show ?thesis using ttl_body_keeps_lock[OF l(2)] lk.released[OF assms(2) l(1)] by simp
qed

lemma ttl_lines_keeps_lock:
  "ttl_lines e cfg removed lines s = Inr (Some r, s') \<Longrightarrow> lf_counted (lock_to_write s) \<Longrightarrow> lock_to_write s' = lock_to_write s"
proof (induction lines arbitrary: removed s)
  case (Cons line lines)
  show ?case
  proof (cases "trim line \<notin> set removed \<and> trim line \<noteq> []")
    case True
    then obtain u s1 where s1: "ttl_item e cfg (trim line) s = Inr (Some u, s1)" "ttl_lines e cfg (trim line # removed) lines s1 = Inr (Some r, s')"
      using Cons.prems(1) by (auto simp: Let_def bind_res_eq_Inr split: option.splits)
    have "lock_to_write s1 = lock_to_write s" by (rule ttl_item_keeps_lock[OF s1(1) Cons.prems(2)])
    then show ?thesis using Cons.IH[OF s1(2)] Cons.prems(2) by simp
  next
    case False
    then have "ttl_lines e cfg removed lines s = Inr (Some r, s')" using Cons.prems(1) by (auto simp: Let_def)
    then show ?thesis using Cons.IH Cons.prems(2) by blast
  qed
qed simp

lemma f_clear_keeps_lock: "f_clear e cfg dt n s = Inr (Some r, s') \<Longrightarrow> lf_counted (lock_to_write s) \<Longrightarrow> lock_to_write s' = lock_to_write s"
  by (auto simp: f_clear_def Let_def dest: ttl_lines_keeps_lock split: if_splits)

lemma clear_names_keeps_lock:
  "clear_names e cfg dt ns s = Inr (Some r, s') \<Longrightarrow> lf_counted (lock_to_write s) \<Longrightarrow> lock_to_write s' = lock_to_write s"
proof (induction ns arbitrary: s)
  case (Cons n ns)
  then obtain u s1 where s1: "f_clear e cfg dt n s = Inr (Some u, s1)" "clear_names e cfg dt ns s1 = Inr (Some r, s')"
    by (auto simp: bind_res_eq_Inr split: option.splits)
  then show ?case using Cons.IH[OF s1(2)] f_clear_keeps_lock[OF s1(1) Cons.prems(2)] Cons.prems(2) by simp
qed simp

lemma remove_date_keeps_lock: "remove_date e cfg dt s = Inr (Some r, s') \<Longrightarrow> lf_counted (lock_to_write s) \<Longrightarrow> lock_to_write s' = lock_to_write s"
  by (auto simp: remove_date_def bind_res_eq_Inr simp del: clear_names.simps dest!: clear_names_keeps_lock split: option.splits)

lemma remove_file_by_tms_keeps_lock:
  assumes "remove_file_by_tms e wait name tms crc force s = Inr (Some r, s')" "lf_counted (lock_to_write s)"
    and "\<And>n s. lock_to_write (wait n s) = lock_to_write s"
  shows "lock_to_write s' = lock_to_write s"
  using assms(1)
  by (auto simp: remove_file_by_tms_def Let_def split: prod.splits
      elim!: remove_retry_keeps_lock[OF _ assms(2) _ assms(3)] dest: remove_body_keeps_lock)

lemma run_ttl_remover_keeps_lock:
  "run_ttl_remover e cfg ds s = Inr (Some r, s') \<Longrightarrow> lf_counted (lock_to_write s) \<Longrightarrow> lock_to_write s' = lock_to_write s"
proof (induction ds arbitrary: s)
  case (Cons d ds)
  obtain ok dt where dt: "parse_date_time d ''yyyy-MM-dd'' date_only date_time_init = (ok, dt)" by fastforce
  show ?case
  proof (cases "ok \<and> date_le (dt_date dt) (dt_date (now e))")
    case True
    then obtain u s1 where s1: "remove_date e cfg (get_date ''-'' dt) s = Inr (Some u, s1)" "run_ttl_remover e cfg ds s1 = Inr (Some r, s')"
      using Cons.prems(1) dt by (auto simp: bind_res_eq_Inr split: option.splits)
    then show ?thesis using Cons.IH[OF s1(2)] remove_date_keeps_lock[OF s1(1) Cons.prems(2)] Cons.prems(2) by simp
  next
    case False
    then have "run_ttl_remover e cfg ds s = Inr (Some r, s')" using Cons.prems(1) dt by auto
    then show ?thesis using Cons.IH Cons.prems(2) by blast
  qed
qed simp

end
