(* ===== verification/Server_Spec.thy ===== *)
theory Server_Spec
  imports Server_Files
begin

text \<open>
  An abstract view of the file server: a map from names to stored texts. Every request refused
  leaves the server alone, and every other request does on the map what it says, so that a
  sequence of requests to the server of \<open>disk_server.cpp\<close> refines the same sequence on the map.
\<close>

section \<open>Refusals\<close>

text \<open>The first check of \<open>accept_file\<close> that a message fails, in the order of the code.\<close>

definition refusal :: "senv \<Rightarrow> server_conf \<Rightarrow> bool \<Rightarrow> string \<Rightarrow> string \<Rightarrow> bytes \<Rightarrow> server \<Rightarrow> status option" where
  "refusal e cfg nc auth name c s =
     (case split_subfolder name of (sub, f) \<Rightarrow>
        if \<not> enable_write cfg then Some write_is_disabled
        else if length auth > 256 \<or> nc \<and> conf_auth cfg \<noteq> [] \<and> conf_auth cfg \<noteq> auth then Some auth_failed
        else if length name > 64 then Some too_long_filename
        else if f = [] then Some file_name_must_not_be_empty
        else if pending_update (lock_to_write s) (segment_name e f) \<noteq> None then Some file_busy
        else (case dirs s sub of
                None \<Rightarrow> Some subfolder_not_found
              | Some d \<Rightarrow>
                  if \<not> may_write s d (segment_name e f) then Some all_directories_are_full
                  else if c \<noteq> [] \<and> \<not> writable e (d_p d @ segment_name e f) then Some cant_write_file_to_disk
                  else None))"

lemma parse_long_auth:
  assumes "no_blank a" "h_filled h = 0" "h_stable h = 0" "h_max_auth h < length a"
  shows "\<not> h_auth_ok (parse_header nc key i (a @ rest) h) \<and> h_file_name (parse_header nc key i (a @ rest) h) = h_file_name h"
  using assms
proof (induction a arbitrary: i h)
  case (Cons c a)
  show ?case
  proof (cases "h_max_auth h = 0")
    case False
    let ?h = "h\<lparr>h_max_auth := h_max_auth h - 1, h_auth := h_auth h @ [c]\<rparr>"
    have "parse_header nc key i ((c # a) @ rest) h = parse_header nc key (i + 1) (a @ rest) ?h"
      using Cons.prems False by (simp add: Let_def)
    moreover have "\<not> h_auth_ok (parse_header nc key (i + 1) (a @ rest) ?h)
        \<and> h_file_name (parse_header nc key (i + 1) (a @ rest) ?h) = h_file_name ?h"
      using Cons.prems False by (intro Cons.IH) auto
    ultimately show ?thesis by simp
  qed (use Cons.prems in \<open>simp add: Let_def\<close>)
qed simp

lemma parse_wrong_auth:
  assumes "no_blank auth" "length auth > 256 \<or> nc \<and> key \<noteq> [] \<and> key \<noteq> auth"
  shows "\<not> h_auth_ok (parse_header nc key 0 (file_message auth name ttl flags c) header_init)"
    "h_file_name (parse_header nc key 0 (file_message auth name ttl flags c) header_init) = []"
proof -
  let ?p = "\<lambda>h. \<not> h_auth_ok h \<and> h_file_name h = []"
  have "?p (parse_header nc key 0 (file_message auth name ttl flags c) header_init)"
  proof (cases "length auth > 256")
    case True
    then show ?thesis
      using parse_long_auth[OF assms(1), of header_init] by (simp add: file_message_def header_init_def)
  next
    case False
    then show ?thesis
      using assms by (simp add: file_message_def parse_auth header_init_def)
  qed
  then show "\<not> h_auth_ok (parse_header nc key 0 (file_message auth name ttl flags c) header_init)"
    "h_file_name (parse_header nc key 0 (file_message auth name ttl flags c) header_init) = []" by simp_all
qed

lemma store_file_fails:
  assumes "c \<noteq> []" "\<not> writable e (d_p d @ fn)" "\<not> (w = appendable \<and> is_file_exists (disk s) (d_p d @ fn))"
  shows "store_file e cfg sub bf fn d w ttl hs ol ap c jr s = Inr ((failed cant_write_file_to_disk)\<lparr>r_jdb := jr\<rparr>, s)"
proof -
  have n: "(w = appendable \<and> is_file_exists (disk s) (d_p d @ fn)) = False" using assms(3) by simp
  show ?thesis unfolding store_file_def Let_def n if_False using assms(1,2) by (simp add: write_file_to_disk_def)
qed

lemma append_fails:
  assumes "\<not> writable e (d_p d @ fn)" "is_file_exists (disk s) (d_p d @ fn)" "d_fs_block_size_b d \<noteq> 0"
  shows "store_file e cfg sub bf fn d appendable ttl hs ol ap c jr s = Inr ((failed cant_write_file_to_disk)\<lparr>r_jdb := jr\<rparr>, s)"
  using assms by (simp add: store_file_def Let_def append_to_file_def)

lemma accept_locked_refused:
  assumes "refusal e cfg nc auth name c s = Some st" "split_subfolder name = (sub, f)" "enable_write cfg"
    and "length auth \<le> 256" "nc \<longrightarrow> conf_auth cfg = [] \<or> conf_auth cfg = auth" "length name \<le> 64" "f \<noteq> []"
    and "pending_update (lock_to_write s) (segment_name e f) = None"
    and "type_of_flags flags \<notin> {jdb, ajdb}" "\<And>d. dirs s sub = Some d \<Longrightarrow> d_fs_block_size_b d \<noteq> 0"
  shows "accept_locked e cfg sub name (segment_name e f) (parsed auth name ttl flags) (file_message auth name ttl flags c)
    (s\<lparr>lock_to_write := l\<rparr>) = Inr (failed st, s\<lparr>lock_to_write := l\<rparr>)"
proof (cases "dirs s sub")
  case None
  then show ?thesis using assms(1-8) by (simp add: refusal_def accept_locked_def split: if_splits)
next
  case (Some d)
  let ?q = "segment_name e f" and ?l = "s\<lparr>lock_to_write := l\<rparr>"
  show ?thesis
  proof (cases "may_write s d ?q")
    case False
    then show ?thesis using assms(1-8) Some by (auto simp: refusal_def accept_locked_def may_write_def)
  next
    case True
    then have st: "st = cant_write_file_to_disk" "c \<noteq> []" "\<not> writable e (d_p d @ ?q)"
      using assms(1-8) Some by (simp_all add: refusal_def split: if_splits)
    have p: "h_flags (parsed auth name ttl flags) = flags" "h_ttl_days (parsed auth name ttl flags) = ttl" by (simp_all add: parsed_def)
    have "accept_locked e cfg sub name ?q (parsed auth name ttl flags) (file_message auth name ttl flags c) ?l =
        store_file e cfg sub name ?q d (type_of_flags flags) (snd (stoi_int ttl 0)) (fst (headers_of flags))
          (snd (headers_of flags)) False c None ?l"
      using True Some assms(9) by (subst accept_locked_plain[where d = d]) (simp_all add: p drop_message[simplified] may_write_def)
    also have "\<dots> = Inr ((failed cant_write_file_to_disk)\<lparr>r_jdb := None\<rparr>, ?l)"
      using st(2,3) store_file_fails[of c e d ?q "type_of_flags flags" ?l] append_fails[of e d ?q ?l] assms(10)[OF Some]
      by (cases "type_of_flags flags = appendable \<and> is_file_exists (disk ?l) (d_p d @ ?q)") auto
    also have "(failed cant_write_file_to_disk)\<lparr>r_jdb := None\<rparr> = failed st" by (simp add: failed_def st(1))
    finally show ?thesis .
  qed
qed

lemma accept_refused:
  assumes "refusal e cfg nc auth name c s = Some st"
    and "no_blank auth" "no_blank name" "no_blank ttl" "flags_ok flags" "type_of_flags flags \<notin> {jdb, ajdb}"
    and "lf_counted (lock_to_write s)"
      "\<And>q. pending_update (lock_to_write s) q = None \<Longrightarrow> files (lock_to_write s) q = None"
    and "\<And>sub d. dirs s sub = Some d \<Longrightarrow> d_fs_block_size_b d \<noteq> 0"
  shows "accept_file e cfg (file_message auth name ttl flags c) nc False s = Inr (Some (failed st), s)"
proof -
  let ?m = "file_message auth name ttl flags c"
  obtain sub f where sf: "split_subfolder name = (sub, f)" by (cases "split_subfolder name")
  have len: "length ?m > 2" by (simp add: file_message_def)
  consider "\<not> enable_write cfg" | "enable_write cfg" "length auth > 256 \<or> nc \<and> conf_auth cfg \<noteq> [] \<and> conf_auth cfg \<noteq> auth"
    | "enable_write cfg" "length auth \<le> 256" "nc \<longrightarrow> conf_auth cfg = [] \<or> conf_auth cfg = auth" by force
  then show ?thesis
  proof cases
    case 1
    then show ?thesis using assms(1) len by (simp add: accept_file_def refusal_def sf)
  next
    case 2
    then show ?thesis
      using assms(1) len parse_wrong_auth[OF assms(2), of nc "conf_auth cfg" name ttl flags c]
      by (auto simp: accept_file_def refusal_def sf Let_def)
  next
    case 3
    have h: "parse_header nc (conf_auth cfg) 0 ?m header_init = parsed auth name ttl flags"
      using 3 by (intro parse_message assms) auto
    have p: "h_file_name (parsed auth name ttl flags) = name" "h_auth_ok (parsed auth name ttl flags)" by (simp_all add: parsed_def)
    let ?q = "segment_name e f"
    consider "length name > 64 \<or> f = []" | "length name \<le> 64" "f \<noteq> []" "pending_update (lock_to_write s) ?q \<noteq> None"
      | "length name \<le> 64" "f \<noteq> []" "pending_update (lock_to_write s) ?q = None" by force
    then show ?thesis
    proof cases
      case 1
      then show ?thesis using assms(1) 3 len h p sf by (auto simp: accept_file_def refusal_def split: if_splits)
    next
      case 2
      then have "lf_add (this_thread e) ?q True (lock_to_write s) = (Refused, lock_to_write s)" by (simp add: lf_add_def)
      moreover have "st = file_busy" using assms(1) 2 3 by (auto simp: refusal_def sf split: if_splits)
      ultimately show ?thesis using 2 3 len h p sf by (simp add: accept_file_def with_lock_def)
    next
      case c: 3
      have "lf_idle ?q (lock_to_write s)" using c assms(8) by (simp add: lf_idle_def)
      then have "accept_file e cfg ?m nc False s = Inr (Some (failed st), s\<lparr>lock_to_write := lock_to_write s\<rparr>)"
        using accept_locked_refused[OF assms(1) sf 3 c assms(6,9)] sf 3 c assms(2-7)
        by (intro accept_enters) auto
      then show ?thesis by simp
    qed
  qed
qed


section \<open>Runs that refine a specification\<close>

fun run_all :: "('r \<Rightarrow> 's \<Rightarrow> ('a \<times> 's) option) \<Rightarrow> 'r list \<Rightarrow> 's \<Rightarrow> ('a list \<times> 's) option" where
  "run_all step [] s = Some ([], s)"
| "run_all step (r # rs) s =
     (case step r s of
        None \<Rightarrow> None
      | Some (a, s) \<Rightarrow> (case run_all step rs s of None \<Rightarrow> None | Some (as, s) \<Rightarrow> Some (a # as, s)))"

fun spec_all :: "('r \<Rightarrow> 'm \<Rightarrow> 'a \<Rightarrow> 'm \<Rightarrow> bool) \<Rightarrow> 'r list \<Rightarrow> 'm \<Rightarrow> 'a list \<Rightarrow> 'm \<Rightarrow> bool" where
  "spec_all spec [] m as m' \<longleftrightarrow> as = [] \<and> m' = m"
| "spec_all spec (r # rs) m as m' \<longleftrightarrow> (\<exists>a bs m1. as = a # bs \<and> spec r m a m1 \<and> spec_all spec rs m1 bs m')"

text \<open>An implementation of a specification: every request that is in order returns, keeps the
  invariant, and does on the abstract state what the specification allows.\<close>

locale implements =
  fixes step :: "'r \<Rightarrow> 's \<Rightarrow> ('a \<times> 's) option" and spec :: "'r \<Rightarrow> 'm \<Rightarrow> 'a \<Rightarrow> 'm \<Rightarrow> bool"
    and abs :: "'s \<Rightarrow> 'm" and inv :: "'s \<Rightarrow> bool" and ok :: "'r \<Rightarrow> bool"
  assumes simulates: "inv s \<Longrightarrow> ok r \<Longrightarrow> \<exists>a s'. step r s = Some (a, s') \<and> inv s' \<and> spec r (abs s) a (abs s')"
begin

lemma run_refines:
  "inv s \<Longrightarrow> \<forall>r \<in> set rs. ok r \<Longrightarrow> \<exists>as s'. run_all step rs s = Some (as, s') \<and> inv s' \<and> spec_all spec rs (abs s) as (abs s')"
proof (induction rs arbitrary: s)
  case (Cons r rs)
  obtain a s1 where s1: "step r s = Some (a, s1)" "inv s1" "spec r (abs s) a (abs s1)" using simulates[OF Cons.prems(1)] Cons.prems(2) by force
  obtain as s2 where "run_all step rs s1 = Some (as, s2)" "inv s2" "spec_all spec rs (abs s1) as (abs s2)"
    using Cons.IH[OF s1(2)] Cons.prems(2) by auto
  then show ?case using s1 by auto
qed simp

end

section \<open>The server as a map\<close>

text \<open>Files are known by subfolder and name; two spellings of a name (\<open>x\<close> and \<open>/x\<close>) are one file.\<close>

definition files_of :: "senv \<Rightarrow> server \<Rightarrow> string \<times> string \<Rightarrow> bytes option" where
  "files_of e s l = (case l of (sub, f) \<Rightarrow> (case dirs s sub of None \<Rightarrow> None | Some d \<Rightarrow> disk s (d_p d @ segment_name e f)))"

lemma segment_name_inj: "segment_name e f @ x = segment_name e' g @ y \<Longrightarrow> f @ x = g @ y"
proof -
  assume eq: "segment_name e f @ x = segment_name e' g @ y"
  have "dropWhile (\<lambda>c. c \<noteq> CHR ''/'') (segment_name e f @ x) = CHR ''/'' # f @ x" for e f x
  proof -
    have "CHR ''/'' \<notin> set (to_string (get_segment_folder e f))"
      using to_string_digits[of "get_segment_folder e f"] by (auto simp: get_segment_folder_def isdigit_def)
    then show ?thesis by (auto simp: segment_name_def dropWhile_append3 intro!: dropWhile_append3)
  qed
  from this[of e f x] this[of e' g y] eq show ?thesis by simp
qed

lemma path_inj:
  assumes "accounted cfg s" "dirs s sub = Some d" "dirs s sub' = Some d'" "d_p d @ segment_name e f = d_p d' @ segment_name e g"
  shows "sub = sub' \<and> f = g"
proof -
  have "sub = sub'" using accountedD(3)[OF assms(1,2,3)] assms(4) by blast
  then show ?thesis using assms(2-4) segment_name_inj[of e f "[]" e g "[]"] by simp
qed


datatype request = Put date_time string string string bytes | Get string | Del string

datatype answer = Ans_status status | Ans_file status bytes | Ans_removed bool

definition put_text :: "date_time \<Rightarrow> string \<Rightarrow> string \<Rightarrow> bytes \<Rightarrow> bytes" where
  "put_text t ttl flags c = file_text (all_headers (fst (headers_of flags))) t (snd (stoi_int ttl 0)) c"

text \<open>A request to the server: \<open>None\<close> when the call raises or waits.\<close>

fun serve :: "senv \<Rightarrow> server_conf \<Rightarrow> (nat \<Rightarrow> server \<Rightarrow> server) \<Rightarrow> request \<Rightarrow> server \<Rightarrow> (answer \<times> server) option" where
  "serve e cfg wait (Put t name ttl flags c) s =
     (case accept_file (e\<lparr>now := t\<rparr>) cfg (file_message ''auth'' name ttl flags c) False False s of
        Inr (Some r, s) \<Rightarrow> Some (Ans_status (r_status r), s) | _ \<Rightarrow> None)"
| "serve e cfg wait (Get name) s =
     (case server_read_file e cfg name [] 0 s of Inr (Some (st, c), s) \<Rightarrow> Some (Ans_file st c, s) | _ \<Rightarrow> None)"
| "serve e cfg wait (Del name) s =
     (case remove_file_by_tms e wait name 0 0 True s of Inr (Some b, s) \<Rightarrow> Some (Ans_removed b, s) | _ \<Rightarrow> None)"

text \<open>
  The specification. A new file may be refused for want of room or of its subfolder, a file that is
  there is always replaced, and an empty content removes it. Removing a file takes the data file of a
  document database of that name along, which is a file of its own only in the same segment.
\<close>

fun spec_step :: "senv \<Rightarrow> request \<Rightarrow> (string \<times> string \<Rightarrow> bytes option) \<Rightarrow> answer \<Rightarrow> (string \<times> string \<Rightarrow> bytes option) \<Rightarrow> bool" where
  "spec_step e (Put t name ttl flags c) m a m' \<longleftrightarrow>
     (let l = split_subfolder name
      in if length name > 64 then a = Ans_status too_long_filename \<and> m' = m
         else if snd l = [] then a = Ans_status file_name_must_not_be_empty \<and> m' = m
         else a = Ans_status st_ok \<and> m' = m(l := if c = [] then None else Some (put_text t ttl flags c))
           \<or> m l = None \<and> a \<in> {Ans_status subfolder_not_found, Ans_status all_directories_are_full} \<and> m' = m)"
| "spec_step e (Get name) m a m' \<longleftrightarrow>
     m' = m \<and> a = (case m (split_subfolder name) of Some c \<Rightarrow> Ans_file st_ok c | None \<Rightarrow> Ans_file file_not_found [])"
| "spec_step e (Del name) m a m' \<longleftrightarrow>
     (case split_subfolder name of (sub, f) \<Rightarrow>
        a = Ans_removed True
        \<and> m' = (if m (sub, f) = None then m
                else (\<lambda>l. if l = (sub, f) \<or> l = (sub, f @ j_extension_name)
                            \<and> get_segment_folder e (f @ j_extension_name) = get_segment_folder e f then None else m l)))"

fun request_ok :: "request \<Rightarrow> bool" where
  "request_ok (Put t name ttl flags c) \<longleftrightarrow> date_ok t \<and> no_blank name \<and> no_blank ttl \<and> flags_ok flags
     \<and> type_of_flags flags \<notin> {jdb, ajdb, appendable} \<and> length (put_text t ttl flags c) < 2 ^ 30"
| "request_ok (Get name) \<longleftrightarrow> str_find (snd (split_subfolder name)) ''?jdb'' 0 = None"
| "request_ok (Del name) \<longleftrightarrow> True"

definition server_ok :: "senv \<Rightarrow> server_conf \<Rightarrow> server \<Rightarrow> bool" where
  "server_ok e cfg s \<longleftrightarrow> accounted cfg s \<and> lock_to_write s = lf_init \<and> enable_write cfg \<and> enable_read cfg \<and> (\<forall>p. writable e p)"

lemma lf_init_idle: "lf_idle q lf_init" "lf_counted lf_init" "pending_update lf_init q = None" "files lf_init q = None"
  by (simp_all add: lf_idle_def lf_counted_def lf_init_def)

lemma segment_now [simp]: "segment_name (e\<lparr>now := t\<rparr>) f = segment_name e f"
  by (simp add: segment_name_def get_segment_folder_def)

lemma file_path_now [simp]: "file_path (e\<lparr>now := t\<rparr>) d name = file_path e d name"
  by (simp add: file_path_def)

text \<open>What a change of one file of the disk is on the map.\<close>

lemma files_of_change:
  assumes "accounted cfg s" "dirs s sub = Some d"
    and "\<And>u. map_option d_p (dirs s' u) = map_option d_p (dirs s u)"
    and "\<And>g. g \<noteq> d_p d @ segment_name e f \<Longrightarrow> (\<forall>x. g \<noteq> ttl_p cfg @ x) \<Longrightarrow> disk s' g = disk s g"
    and "disk s' (d_p d @ segment_name e f) = c"
  shows "files_of e s' = (files_of e s)((sub, f) := c)"
proof
  fix l :: "string \<times> string"
  obtain u g where l: "l = (u, g)" by (cases l)
  show "files_of e s' l = ((files_of e s)((sub, f) := c)) l"
  proof (cases "dirs s u")
    case None
    then have "dirs s' u = None" using assms(3)[of u] by simp
    then show ?thesis using None assms(2) by (auto simp: files_of_def l)
  next
    case (Some d1)
    then obtain d2 where d2: "dirs s' u = Some d2" "d_p d2 = d_p d1" using assms(3)[of u] by (cases "dirs s' u") auto
    show ?thesis
    proof (cases "(u, g) = (sub, f)")
      case True
      then show ?thesis using Some assms(2,5) d2 by (simp add: files_of_def l)
    next
      case False
      then have "d_p d1 @ segment_name e g \<noteq> d_p d @ segment_name e f" using path_inj[OF assms(1) Some assms(2)] by blast
      then have "disk s' (d_p d1 @ segment_name e g) = disk s (d_p d1 @ segment_name e g)"
        using accountedD(2)[OF assms(1) Some] by (intro assms(4)) auto
      then show ?thesis using False Some d2 by (auto simp: files_of_def l)
    qed
  qed
qed

lemma serve_put:
  assumes "server_ok e cfg s" "request_ok (Put t name ttl flags c)"
  shows "\<exists>a s'. serve e cfg wait (Put t name ttl flags c) s = Some (a, s') \<and> server_ok e cfg s'
    \<and> spec_step e (Put t name ttl flags c) (files_of e s) a (files_of e s')"
proof -
  let ?e = "e\<lparr>now := t\<rparr>"
  obtain sub f where sf: "split_subfolder name = (sub, f)" by (cases "split_subfolder name")
  have ok: "accounted cfg s" "lock_to_write s = lf_init" "enable_write cfg" "\<And>p. writable ?e p"
    using assms(1) by (simp_all add: server_ok_def)
  have r: "date_ok t" "no_blank name" "no_blank ttl" "flags_ok flags" "type_of_flags flags \<notin> {jdb, ajdb}" "type_of_flags flags \<noteq> appendable"
    "length (put_text t ttl flags c) < 2 ^ 30" using assms(2) by simp_all
  have nz: "d_fs_block_size_b d \<noteq> 0" if "dirs s u = Some d" for u d
    using accountedD(5)[OF ok(1) that] power_64_nz by fastforce
  show ?thesis
  proof (cases "refusal ?e cfg False ''auth'' name c s")
    case (Some st)
    have "accept_file ?e cfg (file_message ''auth'' name ttl flags c) False False s = Inr (Some (failed st), s)"
      using r nz by (intro accept_refused[OF Some]) (auto simp: ok(2) lf_init_idle)
    moreover have "spec_step e (Put t name ttl flags c) (files_of e s) (Ans_status st) (files_of e s)"
      using Some ok by (auto simp: refusal_def sf files_of_def lf_init_idle may_write_def is_file_exists_def split: if_splits option.splits)
    ultimately show ?thesis using assms(1) by (simp add: failed_def)
  next
    case None
    then obtain d where d: "dirs s sub = Some d" "may_write s d (segment_name e f)" "length name \<le> 64" "f \<noteq> []"
      using ok by (auto simp: refusal_def sf split: if_splits option.splits)
    have cs: "can_store ?e cfg s name d"
      using d r ok accountedD(2)[OF ok(1) d(1)] by (simp add: can_store_def sf lf_init_idle)
    let ?o = "if c = [] then None else Some (put_text t ttl flags c)"
    obtain x s' where a: "accept_file ?e cfg (file_message ''auth'' name ttl flags c) False False s = Inr (Some x, s')" "r_status x = st_ok"
      "accounted cfg s'" "lock_to_write s' = lf_init" "dirs s' = dirs (upd_dir sub (inc_curr_disk_size (r_bytes_written x)) s)"
      "disk s' (d_p d @ segment_name e f) = ?o"
      "\<forall>g. g \<noteq> d_p d @ segment_name e f \<longrightarrow> (\<forall>x. g \<noteq> ttl_p cfg @ x) \<longrightarrow> disk s' g = disk s g"
      using accept_accounted[OF cs, of "''auth''" ttl flags False c] r ok by (auto simp: put_text_def sf file_path_def)
    have "files_of e s' = (files_of e s)((sub, f) := ?o)"
      using a(6,7) by (intro files_of_change[OF ok(1) d(1)]) (auto simp: a(5) dirs_upd_dir option.map_comp o_def)
    then show ?thesis using a assms(1) d sf by (auto simp: server_ok_def)
  qed
qed

lemma serve_get:
  assumes "server_ok e cfg s" "request_ok (Get name)"
  shows "\<exists>a s'. serve e cfg wait (Get name) s = Some (a, s') \<and> server_ok e cfg s'
    \<and> spec_step e (Get name) (files_of e s) a (files_of e s')"
proof -
  obtain sub f where sf: "split_subfolder name = (sub, f)" by (cases "split_subfolder name")
  have ok: "accounted cfg s" "lock_to_write s = lf_init" "enable_read cfg" using assms(1) by (simp_all add: server_ok_def)
  have q: "str_find f ''?jdb'' 0 = None" using assms(2) by (simp add: sf)
  show ?thesis
  proof (cases "files_of e s (sub, f)")
    case None
    then have "read_body e cfg sub (segment_name e f) False [] 0 [] (s\<lparr>lock_to_write := l\<rparr>) = Inr ((file_not_found, []), s\<lparr>lock_to_write := l\<rparr>)" for l
      using ok(3) by (auto simp: read_body_def files_of_def is_file_exists_def split: option.splits)
    from with_lock_enters[OF _ _ this] have "server_read_file e cfg name [] 0 s = Inr (Some (file_not_found, []), s)"
      using q by (simp add: server_read_file_def sf ok(2) lf_init_idle)
    then show ?thesis using assms(1) None by (simp add: sf)
  next
    case (Some c)
    then obtain d where d: "dirs s sub = Some d" "disk s (d_p d @ segment_name e f) = Some c" by (auto simp: files_of_def split: option.splits)
    then have "server_read_file e cfg name [] 0 s = Inr (Some (st_ok, c), s)"
      using accountedD(4)[OF ok(1) d(1)] ok q by (intro read_plain[OF ok(3) sf q d]) (auto simp: lf_init_idle)
    then show ?thesis using assms(1) Some by (simp add: sf)
  qed
qed


lemma remove_path_dirs: "remove_path sub f s = Inr s' \<Longrightarrow> map_option d_p (dirs s' u) = map_option d_p (dirs s u)"
  by (auto simp: remove_path_def bind_res_eq_Inr dirs_upd_dir option.map_comp o_def split: option.splits)

lemma remove_body_dirs: "remove_body sub q tms crc force s = Inr (r, s') \<Longrightarrow> map_option d_p (dirs s' u) = map_option d_p (dirs s u)"
  by (auto simp: remove_body_def Let_def bind_res_eq_Inr dest!: remove_path_dirs[where u = u] split: if_splits option.splits prod.splits)

lemma files_of_remove:
  assumes "accounted cfg s" "dirs s sub = Some d" "\<And>u. map_option d_p (dirs s' u) = map_option d_p (dirs s u)"
    and "disk s' = (disk s)(d_p d @ segment_name e f := None, d_p d @ segment_name e f @ x := None)" "x \<noteq> []"
  shows "files_of e s' = (\<lambda>l. if l = (sub, f) \<or> l = (sub, f @ x) \<and> get_segment_folder e (f @ x) = get_segment_folder e f
    then None else files_of e s l)"
proof
  fix l :: "string \<times> string"
  obtain u g where l: "l = (u, g)" by (cases l)
  show "files_of e s' l = (if l = (sub, f) \<or> l = (sub, f @ x) \<and> get_segment_folder e (f @ x) = get_segment_folder e f
      then None else files_of e s l)"
  proof (cases "dirs s u")
    case None
    then show ?thesis using assms(3)[of u] by (auto simp: files_of_def l)
  next
    case (Some d1)
    then obtain d2 where d2: "dirs s' u = Some d2" "d_p d2 = d_p d1" using assms(3)[of u] by (cases "dirs s' u") auto
    have "d_p d1 @ segment_name e g = d_p d @ segment_name e f \<longleftrightarrow> (u, g) = (sub, f)"
      using path_inj[OF assms(1) Some assms(2)] Some assms(2) by auto
    moreover have "d_p d1 @ segment_name e g = d_p d @ segment_name e f @ x \<longleftrightarrow>
        (u, g) = (sub, f @ x) \<and> get_segment_folder e (f @ x) = get_segment_folder e f"
    proof
      assume eq: "d_p d1 @ segment_name e g = d_p d @ segment_name e f @ x"
      then have "u = sub" using accountedD(3)[OF assms(1) Some assms(2)] by blast
      then have "segment_name e g = segment_name e f @ x" using eq Some assms(2) by simp
      moreover from this have "g = f @ x" using segment_name_inj[of e g "[]" e f x] by simp
      ultimately have "to_string (get_segment_folder e (f @ x)) = to_string (get_segment_folder e f)" by (simp add: segment_name_def)
      then have "get_segment_folder e (f @ x) = get_segment_folder e f" by (metis strtol_to_string option.inject)
      then show "(u, g) = (sub, f @ x) \<and> get_segment_folder e (f @ x) = get_segment_folder e f" using \<open>u = sub\<close> \<open>g = f @ x\<close> by simp
    qed (use Some assms(2) in \<open>auto simp: segment_name_def\<close>)
    ultimately show ?thesis using Some d2 assms(4) by (auto simp: files_of_def l)
  qed
qed

lemma files_of_lock [simp]: "files_of e (s\<lparr>lock_to_write := l\<rparr>) = files_of e s"
  by (rule ext) (auto simp: files_of_def split: option.split)

lemma serve_del:
  assumes "server_ok e cfg s"
  shows "\<exists>a s'. serve e cfg wait (Del name) s = Some (a, s') \<and> server_ok e cfg s'
    \<and> spec_step e (Del name) (files_of e s) a (files_of e s')"
proof -
  obtain sub f where sf: "split_subfolder name = (sub, f)" by (cases "split_subfolder name")
  have ok: "accounted cfg s" "lock_to_write s = lf_init" using assms(1) by (simp_all add: server_ok_def)
  let ?q = "segment_name e f"
  let ?m = "if files_of e s (sub, f) = None then files_of e s
    else (\<lambda>l. if l = (sub, f) \<or> l = (sub, f @ j_extension_name)
      \<and> get_segment_folder e (f @ j_extension_name) = get_segment_folder e f then None else files_of e s l)"
  have "\<exists>s1. remove_body sub ?q 0 0 True (s\<lparr>lock_to_write := l\<rparr>) = Inr (True, s1) \<and> lock_to_write s1 = l
      \<and> accounted cfg s1 \<and> files_of e s1 = ?m" for l
  proof (cases "files_of e s (sub, f)")
    case None
    then have "remove_body sub ?q 0 0 True (s\<lparr>lock_to_write := l\<rparr>) = Inr (True, s\<lparr>lock_to_write := l\<rparr>)"
      by (auto simp: remove_body_def files_of_def is_file_exists_def split: option.splits)
    then show ?thesis using None ok by auto
  next
    case (Some c)
    then obtain d where d: "dirs s sub = Some d" "disk s (d_p d @ ?q) = Some c" by (auto simp: files_of_def split: option.splits)
    obtain s1 where s1: "remove_body sub ?q 0 0 True (s\<lparr>lock_to_write := l\<rparr>) = Inr (True, s1)" "accounted cfg s1" "lock_to_write s1 = l"
      "disk s1 = (disk s)(d_p d @ ?q := None, d_p d @ ?q @ j_extension_name := None)"
      using remove_both[of cfg "s\<lparr>lock_to_write := l\<rparr>" sub d ?q True] ok d by auto
    have "files_of e s1 = ?m"
      using files_of_remove[OF ok(1) d(1), of s1 e f j_extension_name] remove_body_dirs[OF s1(1)] s1(4) Some
      by (simp add: j_extension_name_def)
    then show ?thesis using s1 by blast
  qed
  then obtain s1 where s1: "remove_retry wait (this_thread e) ?q (remove_body sub ?q 0 0 True) 50 s =
      Inr (Some True, s1\<lparr>lock_to_write := lock_to_write s\<rparr>)" "accounted cfg s1" "files_of e s1 = ?m"
    using remove_retry_enters[of ?q s "remove_body sub ?q 0 0 True" True "\<lambda>s1. accounted cfg s1 \<and> files_of e s1 = ?m" wait "this_thread e" 49]
    by (auto simp: ok(2) lf_init_idle)
  have "files_of e (s1\<lparr>lock_to_write := lf_init\<rparr>) = ?m" by (simp add: s1(3))
  then show ?thesis using s1 assms(1) ok(2) by (auto simp: remove_file_by_tms_def sf server_ok_def)
qed

interpretation sv: implements "serve e cfg wait" "spec_step e" "files_of e" "server_ok e cfg" request_ok for e cfg wait
proof
  fix s r
  assume ok: "server_ok e cfg s" "request_ok r"
  show "\<exists>a s'. serve e cfg wait r s = Some (a, s') \<and> server_ok e cfg s' \<and> spec_step e r (files_of e s) a (files_of e s')"
  proof (cases r)
    case (Put t name ttl flags c)
    show ?thesis using ok unfolding Put by (rule serve_put)
  next
    case (Get name)
    show ?thesis using ok unfolding Get by (rule serve_get)
  next
    case (Del name)
    show ?thesis using ok(1) unfolding Del by (rule serve_del)
  qed
qed


section \<open>Document messages that are too short\<close>

lemma accept_short_document:
  assumes "can_store e cfg s name d" "no_blank auth" "no_blank ttl" "flags_ok flags" "length auth \<le> 256"
    and "nc \<longrightarrow> conf_auth cfg = [] \<or> conf_auth cfg = auth" "type_of_flags flags \<in> {jdb, ajdb}" "length c \<le> 5"
  shows "\<exists>r s'. accept_file e cfg (file_message auth name ttl flags c) nc False s = Inr (Some r, s') \<and> r_status r = st_ok
    \<and> disk s' (file_path e d name) = None"
proof -
  obtain sub f where sf: "split_subfolder name = (sub, f)" by (cases "split_subfolder name")
  have st: "no_blank name" "length name \<le> 64" "f \<noteq> []" "enable_write cfg" "dirs s sub = Some d"
    "may_write s d (segment_name e f)" "lf_idle (segment_name e f) (lock_to_write s)" "lf_counted (lock_to_write s)"
    "\<forall>x. d_p d @ segment_name e f \<noteq> ttl_p cfg @ x"
    using assms(1) by (simp_all add: can_store_def sf)
  let ?q = "segment_name e f" and ?h = "parsed auth name ttl flags" and ?m = "file_message auth name ttl flags c"
  let ?ttl = "snd (stoi_int ttl 0)" and ?w = "type_of_flags flags" and ?hs = "headers_of flags"
  obtain b where wr: "written e d ?q [] ?ttl (fst ?hs) (disk s) = (True, b, (disk s)(d_p d @ ?q := None))"
    by (simp add: written_def write_file_to_disk_def Let_def)
  let ?r = "\<lparr>r_status = st_ok, r_bytes_written = b, r_file_name = name, r_headers = concat (all_headers (fst ?hs)), r_jdb = None,
    r_ttl_success = note_result e cfg (d_p d @ ?q) ?ttl False ((disk s)(d_p d @ ?q := None))\<rparr>"
  let ?s = "upd_dir sub (inc_curr_disk_size b) (s\<lparr>disk := with_note e cfg (d_p d @ ?q) ?ttl False ((disk s)(d_p d @ ?q := None)),
    oplog := oplog s @ log_entry (snd ?hs) name (all_headers (fst ?hs))\<rparr>)"
  have w: "2 \<le> length flags" "flags_type (take 2 flags) = ?w" "file_headers ?w flags = ?hs"
    using assms(7) by (auto simp: type_of_flags_def headers_of_def split: if_splits)
  have p: "h_flags ?h = flags" "h_ttl_days ?h = ttl" by (simp_all add: parsed_def)
  have sh: "\<not> length ?m > h_start ?h + 6" using assms(8) by (simp add: file_message_def parsed_def)
  have body: "accept_locked e cfg sub name ?q ?h ?m (s\<lparr>lock_to_write := l\<rparr>) = Inr (?r, ?s\<lparr>lock_to_write := l\<rparr>)" for l
  proof -
    let ?l = "s\<lparr>lock_to_write := l\<rparr>"
    have "accept_locked e cfg sub name ?q ?h ?m ?l =
        store_file e cfg sub name ?q d ?w ?ttl (fst ?hs) (snd ?hs) False [] None ?l"
      using st(5,6) assms(7) w sh
      by (auto simp: accept_locked_def may_write_def p jdb_write_def Let_def split: prod.splits)
    also have "\<dots> = Inr (?r, ?s\<lparr>lock_to_write := l\<rparr>)"
      using wr assms(7) by (subst store_file_result[where bytes = b and fs = "(disk s)(d_p d @ ?q := None)"])
        (auto simp: upd_dir_upd, (cases s, simp)+)
    finally show ?thesis .
  qed
  have "accept_file e cfg ?m nc False s = Inr (Some ?r, ?s\<lparr>lock_to_write := lock_to_write s\<rparr>)"
    by (rule accept_enters[OF assms(2) st(1) assms(3-6) st(2) sf st(3,4,7,8) body])
  then show ?thesis using st(9) by (auto simp: file_path_def sf with_note_other)
qed

section \<open>An example server\<close>

definition sample_senv :: senv where
  "sample_senv = \<lparr>writable = \<lambda>_. True, now = sample_now, str_hash = \<lambda>_. 7, decrypt = \<lambda>x. x,
     create_db = \<lambda>_ _ _ _ _. \<lparr>db_title = [], db_body = [], db_version = 1, db_append = False, db_error = True\<rparr>,
     jdb_fetch = \<lambda>_ _ _ _. [], hash_of_file = \<lambda>_. 0, mem_after = \<lambda>_. CHR ''?'', this_thread = 0\<rparr>"

definition sample_conf :: server_conf where
  "sample_conf = \<lparr>enable_read = True, enable_write = True, conf_auth = [], aes_key = [], ttl_p = ''/t/'', tcp_threads = 1,
     dir_names = [''s'']\<rparr>"

definition sample_dir :: directory where
  "sample_dir = \<lparr>d_enabled = True, d_p = ''/d/'', d_max_size_b = 1000000, d_curr_size_b = 0, d_fs_block_size_b = 4096\<rparr>"

definition sample_server :: server where
  "sample_server = \<lparr>dirs = [''s'' \<mapsto> sample_dir], disk = Map.empty, lock_to_write = lf_init, oplog = []\<rparr>"

lemma used_empty: "used B Map.empty = 0"
  by (simp add: used_def)

lemma sample_server_ok: "server_ok sample_senv sample_conf sample_server"
proof -
  have "dir_files sample_dir Map.empty = Map.empty" by (simp add: dir_files_def)
  moreover have "d_fs_block_size_b sample_dir = of_nat (2 ^ 12)" by (simp add: sample_dir_def)
  ultimately have "accounted sample_conf sample_server"
    unfolding accounted_def
    by (auto simp: sample_server_def sample_conf_def used_empty intro!: exI[of _ 12] split: if_splits)
      (simp_all add: sample_dir_def)
  then show ?thesis by (simp add: server_ok_def sample_server_def sample_conf_def sample_senv_def)
qed

lemma sample_date_ok: "date_ok sample_now"
  by (simp add: date_ok_def sample_now_ok)

lemma sample_request_ok: "request_ok (Put sample_now ''s/doc'' ''30'' ''0'' ''hello'')"
proof -
  have "length (put_text sample_now ''30'' ''0'' ''hello'') = 29"
    using length_file_text[of sample_now "[''00'']" "snd (stoi_int ''30'' 0)" "''hello''"] sample_now_ok
    by (simp add: put_text_def headers_of_def all_headers_def) code_simp
  then show ?thesis
    by (simp add: sample_date_ok type_of_flags_def flags_ok_def)
qed

section \<open>Properties\<close>





text \<open>
  C11: a message that is refused gets the status of the first check it fails - writing disabled, wrong
  or too long an authorisation, too long or empty a name, a file in use, an unknown subfolder, a full
  directory, a path that cannot be written - and leaves files, sizes, log and locks as they were.
\<close>

theorem accept_file_refuses:
  assumes "refusal e cfg nc auth name c s = Some st"
    and "no_blank auth" "no_blank name" "no_blank ttl" "flags_ok flags" "type_of_flags flags \<notin> {jdb, ajdb}"
    and "lf_counted (lock_to_write s)"
      "\<And>q. pending_update (lock_to_write s) q = None \<Longrightarrow> files (lock_to_write s) q = None"
    and "\<And>sub d. dirs s sub = Some d \<Longrightarrow> d_fs_block_size_b d \<noteq> 0"
  shows "accept_file e cfg (file_message auth name ttl flags c) nc False s = Inr (Some (failed st), s)"
  using assms by (rule accept_refused)

theorem accept_file_refuses_witness:
  "accept_file sample_senv sample_conf (file_message ''auth'' ''other/doc'' ''30'' ''0'' ''hello'') True False sample_server =
    Inr (Some (failed subfolder_not_found), sample_server)"
proof (rule accept_file_refuses)
  have "split_subfolder ''other/doc'' = (''other'', ''doc'')" by code_simp
  then show "refusal sample_senv sample_conf True ''auth'' ''other/doc'' ''hello'' sample_server = Some subfolder_not_found"
    by (simp add: refusal_def sample_conf_def sample_server_def lf_init_idle)
qed (auto simp: flags_ok_def type_of_flags_def sample_server_def sample_dir_def lf_init_idle split: if_splits)

text \<open>
  C12: every call of the file server gives back the lock it took. When writing, reading, asking for the
  header, removing or clearing expired files returns, the locks are as before the call; reading and
  asking change nothing at all.
\<close>

theorem server_releases_locks:
  assumes "lf_counted (lock_to_write s)" "\<And>n s. lock_to_write (wait n s) = lock_to_write s"
  shows "(\<forall>r s'. accept_file e cfg m nc aes s = Inr (Some r, s') \<longrightarrow> lock_to_write s' = lock_to_write s)
    \<and> (\<forall>r s'. server_read_file e cfg name c ro s = Inr (Some r, s') \<longrightarrow> s' = s)
    \<and> (\<forall>r s'. read_file_info e cfg name c s = Inr (Some r, s') \<longrightarrow> s' = s)
    \<and> (\<forall>r s'. remove_file_by_tms e wait name tms crc force s = Inr (Some r, s') \<longrightarrow> lock_to_write s' = lock_to_write s)
    \<and> (\<forall>r s'. run_ttl_remover e cfg ds s = Inr (Some r, s') \<longrightarrow> lock_to_write s' = lock_to_write s)"
  using assms by (blast dest: accept_file_keeps_lock read_file_keeps read_file_info_keeps remove_file_by_tms_keeps_lock run_ttl_remover_keeps_lock)


theorem server_releases_locks_witness:
  "\<exists>r s'. accept_file sample_senv sample_conf (file_message ''auth'' ''other/doc'' ''30'' ''0'' ''hello'') True False sample_server
      = Inr (Some r, s') \<and> lock_to_write s' = lock_to_write sample_server"
proof -
  let ?x = "accept_file sample_senv sample_conf (file_message ''auth'' ''other/doc'' ''30'' ''0'' ''hello'') True False sample_server"
  have "split_subfolder ''other/doc'' = (''other'', ''doc'')" by code_simp
  then have "refusal sample_senv sample_conf True ''auth'' ''other/doc'' ''hello'' sample_server = Some subfolder_not_found"
    by (simp add: refusal_def sample_conf_def sample_server_def lf_init_idle)
  then have "?x = Inr (Some (failed subfolder_not_found), sample_server)"
    by (rule accept_refused)
      (auto simp: flags_ok_def type_of_flags_def sample_server_def sample_dir_def lf_init_idle split: if_splits)
  then have "\<exists>r s'. ?x = Inr (Some r, s')" by blast
  then show ?thesis
    using server_releases_locks[of sample_server "\<lambda>_ s. s" sample_senv sample_conf]
    by (fastforce simp: sample_server_def lf_init_idle)
qed


definition sample_file :: bytes where
  "sample_file = file_text [two_digits (w_int updatable), numeric_to_chars (5 :: int64) 8, numeric_to_chars (9 :: int64) 8] sample_now 30 ''hello''"

definition sample_full :: server where
  "sample_full = (let fs = [''/d/7/doc'' \<mapsto> sample_file]
     in \<lparr>dirs = [''s'' \<mapsto> sample_dir\<lparr>d_curr_size_b := of_int (used (2 ^ 12) (dir_files sample_dir fs))\<rparr>],
         disk = fs, lock_to_write = lf_init, oplog = []\<rparr>)"

lemma sample_full_accounted: "accounted sample_conf sample_full"
proof -
  have "to_string (sint (30 :: int32)) = ''30''" "length (two_digits (w_int updatable)) = 2" by code_simp+
  then have "length sample_file = 45"
    using length_file_text[OF sample_now_ok(1)] sample_now_ok(2) by (simp add: sample_file_def)
  then have "sample_file \<noteq> []" "length sample_file < 2 ^ 30" by auto
  then show ?thesis
    by (auto simp: accounted_def sample_full_def Let_def sample_conf_def sample_dir_def dir_files_def
        intro!: exI[of _ 12] split: if_splits)
qed


text \<open>
  C40: a document message whose content is too short for the length of its documents (five bytes or
  less) is answered with success, and the file of that name is gone: nothing is written, and writing
  nothing means removing.
\<close>

theorem short_document_removes_file:
  assumes "can_store e cfg s name d" "no_blank auth" "no_blank ttl" "flags_ok flags" "length auth \<le> 256"
    and "nc \<longrightarrow> conf_auth cfg = [] \<or> conf_auth cfg = auth" "type_of_flags flags \<in> {jdb, ajdb}" "length c \<le> 5"
  shows "\<exists>r s'. accept_file e cfg (file_message auth name ttl flags c) nc False s = Inr (Some r, s') \<and> r_status r = st_ok
    \<and> disk s' (file_path e d name) = None"
  using assms by (rule accept_short_document)

theorem short_document_removes_file_witness:
  "\<exists>r s'. accept_file sample_senv sample_conf (file_message ''auth'' ''s/doc'' ''30'' ''040000000000000000'' ''x'') True False sample_full = Inr (Some r, s')
    \<and> r_status r = st_ok \<and> disk sample_full ''/d/7/doc'' \<noteq> None \<and> disk s' ''/d/7/doc'' = None"
proof -
  let ?d = "sample_dir\<lparr>d_curr_size_b := of_int (used (2 ^ 12) (dir_files sample_dir [''/d/7/doc'' \<mapsto> sample_file]))\<rparr>"
  have s: "split_subfolder ''s/doc'' = (''s'', ''doc'')" by code_simp
  have g: "segment_name sample_senv ''doc'' = ''7/doc''" by (simp add: sample_senv_def segment_name_def get_segment_folder_def) code_simp
  have p: "file_path sample_senv ?d ''s/doc'' = ''/d/7/doc''" by (simp add: file_path_def s g) (simp add: sample_dir_def)
  have "can_store sample_senv sample_conf sample_full ''s/doc'' ?d"
    by (simp add: can_store_def s g) (simp add: sample_full_def Let_def sample_conf_def sample_dir_def may_write_def lf_init_idle
        is_file_exists_def sample_senv_def)
  moreover have "type_of_flags ''040000000000000000'' \<in> {jdb, ajdb}" "flags_ok ''040000000000000000''" by code_simp+
  ultimately show ?thesis
    using short_document_removes_file[of sample_senv sample_conf sample_full "''s/doc''" ?d "''auth''" "''30''" "''040000000000000000''" True "''x''"]
    unfolding p by (simp add: sample_conf_def) (simp add: sample_full_def Let_def)
qed

end
