(* ===== verification/Tcp_Handler.thy ===== *)
theory Tcp_Handler
  imports Disk_Server E_Manager C_Manager
begin

text \<open>
  The handler of \<open>clienttcphandler.hpp\<close>: a message of a connected client is a two-digit query type, a
  five-character identifier and the query; it is dispatched to the file server, the cache or the
  event store, and the answers are handed to the sender.
\<close>

section \<open>State and environment\<close>

record app =
  disk_server :: server
  cdb_instance :: cstore
  edb_instance :: edb

text \<open>What a task hands to the responder.\<close>

datatype out = Reply bytes | Event int32 bytes | Listen "int32 list"

text \<open>
  The environment: the file server's parameters and settings, what happens while a removal waits, the
  clocks of the three stores, walking a directory, zlib, the search over the cache and the rendering
  of several files as JSON.
\<close>

record henv =
  he_senv :: senv
  he_conf :: server_conf
  he_wait :: "nat \<Rightarrow> server \<Rightarrow> server"
  he_steady :: "nat \<Rightarrow> time"
  he_mktime :: "tm \<Rightarrow> int"
  he_walk :: "fsys \<Rightarrow> string \<Rightarrow> dir_entry list"
  he_compress :: "bytes \<Rightarrow> bytes"
  he_decompress :: "bytes \<Rightarrow> bytes"
  he_search_all :: "bytes \<Rightarrow> cstore \<Rightarrow> bytes"
  he_json_many :: "(string \<times> status \<times> bytes) list \<Rightarrow> bytes"

section \<open>Queries to the file server\<close>

definition status_str :: "status \<Rightarrow> string" where "status_str s = fst (response_set s)"

definition file_exists_reply :: "henv \<Rightarrow> string \<Rightarrow> string \<Rightarrow> server \<Rightarrow> bytes" where
  "file_exists_reply he identifier query s =
     (let query = (case str_find query ''?jdb'' 0 of Some i \<Rightarrow> take i query | None \<Rightarrow> query);
          (subfolder, query) = split_subfolder query
      in case dirs s subfolder of
           None \<Rightarrow> ''0107'' @ identifier @ query
         | Some d \<Rightarrow>
             (let query = segment_name (he_senv he) query
              in if is_file_exists (disk s) (d_p d @ query) then ''0101'' @ identifier @ query
                 else ''0107'' @ identifier @ query))"

text \<open>Whether there is room: no answer at all when there is, as the \<open>break\<close> leaves the switch.\<close>

definition storage_reply :: "henv \<Rightarrow> string \<Rightarrow> string \<Rightarrow> server \<Rightarrow> out list" where
  "storage_reply he identifier query s =
     (case dirs s query of
        None \<Rightarrow> [Reply (''0303'' @ identifier)]
      | Some d \<Rightarrow>
          if enable_write (he_conf he) \<and> sint (d_curr_size_b d) < sint (d_max_size_b d) then []
          else [Reply (''0303'' @ identifier)])"

definition mb :: "int64 \<Rightarrow> string" where
  "mb b = to_string (cdiv (sint b) (1024 * 1024))"

definition stat_of :: "server \<Rightarrow> string \<Rightarrow> string" where
  "stat_of s k =
     (case dirs s k of
        None \<Rightarrow> []
      | Some d \<Rightarrow> ''{\"n\":\"'' @ (if k = [] then ''main(empty)'' else k) @ ''\",\"f\":['' @ ''{\"n\":\"0\",\"p\":\"'' @ d_p d
          @ ''\",\"s_mb\":'' @ mb (d_curr_size_b d) @ '',\"max_s_mb\":'' @ mb (d_max_size_b d) @ ''}'' @ '']}'')"

fun join_with :: "string \<Rightarrow> string list \<Rightarrow> string" where
  "join_with d [] = []"
| "join_with d [x] = x"
| "join_with d (x # xs) = x @ d @ join_with d xs"

definition stat_reply :: "henv \<Rightarrow> server \<Rightarrow> string" where
  "stat_reply he s = ''{\"sub\":['' @ join_with '','' (map (stat_of s) (dir_names (he_conf he))) @ '']}''"

text \<open>The comma is only set behind a content that is not empty.\<close>

definition all_names :: "henv \<Rightarrow> string \<Rightarrow> server \<Rightarrow> string" where
  "all_names he contain s =
     foldl (\<lambda>content (k, f). (if content \<noteq> [] then content @ '','' else content) @ (if k \<noteq> [] then k @ ''/'' else []) @ f) []
       (concat (map (\<lambda>k. case dirs s k of None \<Rightarrow> [] | Some d \<Rightarrow> map (Pair k) (list_dir (he_walk he (disk s) (d_p d)) contain))
         (dir_names (he_conf he))))"

text \<open>Several files: each is read and, for the compressed query, decoded; a decoding that raises leaves
  the content as it is.\<close>

definition decode_many :: "henv \<Rightarrow> bytes \<Rightarrow> bytes" where
  "decode_many he c =
     (case fetch_content (mem_after (he_senv he)) c 0 read_info_init of
        Inl _ \<Rightarrow> c
      | Inr ri \<Rightarrow>
          if file_type ri \<noteq> insert_only_without_compress \<and> file_type ri \<noteq> updatable_without_compress \<and> file_type ri \<noteq> appendable
          then he_decompress he (ri_content ri) else ri_content ri)"

fun read_many :: "henv \<Rightarrow> bool \<Rightarrow> string \<Rightarrow> string list \<Rightarrow> server
    \<Rightarrow> ((string \<times> status \<times> bytes) list option \<times> server) res" where
  "read_many he compressed jdb_query [] s = Inr (Some [], s)"
| "read_many he compressed jdb_query (file # names) s =
     bind_res (server_read_file (he_senv he) (he_conf he) (file @ jdb_query) [] 3 s) (\<lambda>(r, s).
       case r of
         None \<Rightarrow> Inr (None, s)
       | Some (st, c) \<Rightarrow>
           bind_res (read_many he compressed jdb_query names s) (\<lambda>(rs, s).
             Inr (map_option (\<lambda>rs. (file, st, if c \<noteq> [] \<and> compressed then decode_many he c else c) # rs) rs, s)))"

section \<open>The task of a message\<close>

text \<open>\<open>None\<close>: the call has not come back.\<close>

definition on_server :: "('r option \<times> server) res \<Rightarrow> ('r \<Rightarrow> out list) \<Rightarrow> app \<Rightarrow> (out list option \<times> app) res" where
  "on_server call reply a = bind_res call (\<lambda>(r, s). Inr (map_option reply r, a\<lparr>disk_server := s\<rparr>))"

definition cdb_set :: "henv \<Rightarrow> string \<Rightarrow> string \<Rightarrow> bool \<Rightarrow> bytes \<Rightarrow> app \<Rightarrow> (out list option \<times> app) res" where
  "cdb_set he code identifier answer query a =
     (case cdb_insert (he_steady he) query (cdb_instance a) of
        None \<Rightarrow> Inr (None, a)
      | Some (ok, st) \<Rightarrow>
          Inr (Some (if answer then [Reply (code @ (if ok then ''01'' else ''04'') @ identifier)] else []), a\<lparr>cdb_instance := st\<rparr>))"

definition event_replies :: "string \<Rightarrow> event_result list \<Rightarrow> out list" where
  "event_replies identifier r = map (\<lambda>it. Reply (''1401'' @ identifier @ numeric_to_chars (eventType it) 4 @ payload it)) r"

definition task :: "henv \<Rightarrow> bytes \<Rightarrow> app \<Rightarrow> (out list option \<times> app) res" where
  "task he message a =
     (let e = he_senv he; cfg = he_conf he; s = disk_server a;
          queryType = take 2 message; identifier = take 5 (drop 2 message); query = drop 7 message;
          n = sint (snd (stoi_int queryType 0));
          done = (\<lambda>os. Inr (Some os, a))
      in if n = 1 then done [Reply (file_exists_reply he identifier query s)]
         else if n = 2 then
           on_server (server_read_file e cfg query [] 0 s)
             (\<lambda>(st, c). [Reply (''02'' @ status_str st @ identifier @ c)]) a
         else if n = 3 then done (storage_reply he identifier query s)
         else if n = 4 then
           on_server (accept_file e cfg query False False s) (\<lambda>r. [Reply (''04'' @ status_str (r_status r) @ identifier)]) a
         else if n = 5 then done [Reply (''0501'' @ identifier @ stat_reply he s)]
         else if n = 6 then done [Reply (''0601'' @ identifier @ he_compress he (all_names he query s))]
         else if n = 7 then
           on_server (read_file_info e cfg query [] s) (\<lambda>(st, c). [Reply (''07'' @ status_str st @ identifier @ c)]) a
         else if n = 8 then
           on_server (remove_file_by_tms e (he_wait he) query 0 0 True s)
             (\<lambda>ok. [Reply (''08'' @ (if ok then ''01'' else ''02'') @ identifier)]) a
         else if n = 29 \<or> n = 9 then
           (let (jdb_query, query) = (case str_find query ''?jdb'' 0 of Some i \<Rightarrow> (drop i query, take i query) | None \<Rightarrow> ([], query))
            in on_server (read_many he (n = 29) jdb_query (split query CHR '','') s)
                 (\<lambda>rs. [Reply (''0901'' @ identifier @ he_json_many he rs)]) a)
         else if n = 11 then
           (let r = edb_retrieve query (edb_instance a)
            in done [Reply (''1101'' @ identifier @ numeric_to_chars (eventType r) 4 @ payload r)])
         else if n = 22 \<or> n = 12 then
           bind_res (edb_insert (now e) query (edb_instance a)) (\<lambda>(r, st).
             Inr (Some ((if n = 12 then [Reply (''1201'' @ identifier)] else [])
                    @ [Event (eventType r) (''12|'' @ to_string (sint (eventType r)) @ ''|'' @ payload r)]),
                  a\<lparr>edb_instance := st\<rparr>))
         else if n = 13 then
           done (Listen (remdups (tl (get_vector_from_string query)))
                 # event_replies identifier (fetchEvents (he_mktime he) (now e) query (edb_instance a)))
         else if n = 14 then done (event_replies identifier (fetchEvents (he_mktime he) (now e) query (edb_instance a)))
         else if n = 20 then
           done [Reply (case cdb_retrieve (he_steady he 0) query (cdb_instance a) of
                   Some c \<Rightarrow> ''2001'' @ identifier @ two_digits (w_int cdb) @ ''00000'' @ c
                 | None \<Rightarrow> ''2007'' @ identifier)]
         else if n = 21 then done [Reply (''2101'' @ identifier @ he_search_all he query (cdb_instance a))]
         else if n = 24 \<or> n = 25 then cdb_set he ''24'' identifier (n = 24) query a
         else if n = 26 then done [Reply (''2601'' @ identifier)]
         else if n = 31 then
           done [Reply (''3101'' @ identifier @ concat (map payload (fetchEvents (he_mktime he) (now e) query (edb_instance a))))]
         else if n = 32 \<or> n = 33 then cdb_set he ''32'' identifier (n = 32) query a
         else done [])"

text \<open>The first message of a connection only authorises it.\<close>

definition on_message :: "henv \<Rightarrow> bool \<Rightarrow> bytes \<Rightarrow> app \<Rightarrow> (bool \<times> out list option \<times> app) res" where
  "on_message he is_authorized message a =
     (if \<not> is_authorized then
        Inr (conf_auth (he_conf he) = [] \<or> conf_auth (he_conf he) = message, Some [], a)
      else if length message \<ge> 7 then bind_res (task he message a) (\<lambda>(o', a). Inr (True, o', a))
      else if message = ''06'' then Inr (True, Some [Listen []], a)
      else Inr (True, Some [], a))"

end
