(* ===== verification/Handler_Spec.thy ===== *)
theory Handler_Spec
  imports Server_Spec Tcp_Handler
begin

text \<open>
  What every message handled by \<open>clienttcphandler.hpp\<close> keeps to: the format of the replies, whatever
  the message, and which of the three stores a query may change.
\<close>

section \<open>An example application\<close>

definition sample_env :: henv where
  "sample_env = \<lparr>he_senv = sample_senv, he_conf = sample_conf, he_wait = \<lambda>_ s. s, he_steady = int, he_mktime = \<lambda>_. 0,
     he_walk = \<lambda>_ _. [], he_compress = \<lambda>x. x, he_decompress = \<lambda>x. x, he_search_all = \<lambda>_ _. [], he_json_many = \<lambda>_. []\<rparr>"

definition sample_app :: app where
  "sample_app = \<lparr>disk_server = sample_server, cdb_instance = mt_empty, edb_instance = edb_init\<rparr>"

section \<open>Replies\<close>

text \<open>The type of a reply is that of the query, except that several files are answered as JSON and
  the events of a subscription as events.\<close>

definition reply_type :: "int \<Rightarrow> int" where
  "reply_type n = (if n = 29 then 9 else if n = 13 then 14 else n)"

definition reply_format :: "int \<Rightarrow> string \<Rightarrow> bytes \<Rightarrow> bool" where
  "reply_format n identifier m \<longleftrightarrow> (\<exists>st c. m = two_digits (reply_type n) @ status_str st @ identifier @ c)"

lemma reply_formatI: "h = two_digits (reply_type n) \<Longrightarrow> s = status_str st \<Longrightarrow> reply_format n i (h @ s @ i @ c)"
  by (auto simp: reply_format_def)

lemma status_codes:
  "status_str st_ok = ''01''" "status_str to_small_content_size = ''02''" "status_str all_directories_are_full = ''03''"
  "status_str cant_write_file_to_disk = ''04''" "status_str file_not_found = ''07''"
  by code_simp+

lemma reply_codes:
  "two_digits (reply_type 1) = ''01''" "two_digits (reply_type 2) = ''02''" "two_digits (reply_type 3) = ''03''"
  "two_digits (reply_type 4) = ''04''" "two_digits (reply_type 5) = ''05''" "two_digits (reply_type 6) = ''06''"
  "two_digits (reply_type 7) = ''07''" "two_digits (reply_type 8) = ''08''" "two_digits (reply_type 9) = ''09''"
  "two_digits (reply_type 29) = ''09''" "two_digits (reply_type 11) = ''11''" "two_digits (reply_type 12) = ''12''"
  "two_digits (reply_type 13) = ''14''" "two_digits (reply_type 14) = ''14''" "two_digits (reply_type 20) = ''20''"
  "two_digits (reply_type 21) = ''21''" "two_digits (reply_type 24) = ''24''" "two_digits (reply_type 26) = ''26''"
  "two_digits (reply_type 31) = ''31''" "two_digits (reply_type 32) = ''32''"
  by code_simp+

lemma reply_format_status:
  assumes "two_digits (reply_type n) = [x, y]"
  shows "reply_format n i (x # y # status_str st @ i @ c)" "reply_format n i (x # y # status_str st @ i)"
  using assms by (auto simp: reply_format_def intro: exI[of _ "[]"])

lemmas reply_formats = reply_format_status
  reply_format_status[where st = st_ok, unfolded status_codes append.simps]
  reply_format_status[where st = to_small_content_size, unfolded status_codes append.simps]
  reply_format_status[where st = all_directories_are_full, unfolded status_codes append.simps]
  reply_format_status[where st = cant_write_file_to_disk, unfolded status_codes append.simps]
  reply_format_status[where st = file_not_found, unfolded status_codes append.simps]

lemma file_exists_reply_format: "reply_format 1 i (file_exists_reply he i q s)"
  by (auto simp: file_exists_reply_def Let_def reply_formats reply_codes split: option.splits prod.splits)

lemma storage_reply_format: "Reply m \<in> set (storage_reply he i q s) \<Longrightarrow> reply_format 3 i m"
  by (auto simp: storage_reply_def reply_formats reply_codes split: option.splits if_splits)

lemma event_replies_format: "n = 13 \<or> n = 14 \<Longrightarrow> Reply m \<in> set (event_replies i r) \<Longrightarrow> reply_format n i m"
  by (auto simp: event_replies_def reply_formats reply_codes)

lemma on_server_format:
  assumes "on_server call reply a = Inr (Some os, a')" "Reply m \<in> set os" "\<And>r. Reply m \<in> set (reply r) \<Longrightarrow> P"
  shows P
  using assms by (auto simp: on_server_def bind_res_eq_Inr)

lemma cdb_set_format:
  assumes "cdb_set he [x, y] i w q a = Inr (Some os, a')" "Reply m \<in> set os" "two_digits (reply_type n) = [x, y]"
  shows "w \<and> reply_format n i m"
  using assms by (auto simp: cdb_set_def reply_formats split: option.splits if_splits)

text \<open>
  C13: whatever message reaches the handler, every reply it sends consists of the two digits of the
  type that answers the query, the two digits of a status, the five bytes with which the client marked
  its query, and the content. So a client finds the type, the status and its own mark at fixed
  positions of any reply.
\<close>

theorem task_reply_format:
  assumes "task he message a = Inr (Some os, a')" "Reply m \<in> set os"
  shows "reply_format (sint (snd (stoi_int (take 2 message) 0))) (take 5 (drop 2 message)) m"
proof -
  define n where "n = sint (snd (stoi_int (take 2 message) 0))"
  let ?i = "take 5 (drop 2 message)"
  note T = assms(1)[unfolded task_def Let_def, folded n_def]
  consider "n \<in> {24, 25, 32, 33}" | "n \<in> {1,2,3,4,5,6,7,8,9,29,11,12,22,13,14,20,21,26,31}"
    | "n \<notin> {1,2,3,4,5,6,7,8,9,29,11,12,22,13,14,20,21,24,25,26,31,32,33}" by blast
  then have "reply_format n ?i m"
  proof cases
    case 1
    then show ?thesis
      using T assms(2) by (auto dest!: cdb_set_format[OF _ _ reply_codes(17)] cdb_set_format[OF _ _ reply_codes(20)])
  next
    case 2
    then show ?thesis
      using T assms(2)
      by (auto simp: reply_formats reply_codes file_exists_reply_format storage_reply_format event_replies_format bind_res_eq_Inr
          elim!: on_server_format split: option.splits if_splits)
  qed (use T assms(2) in auto)
  then show ?thesis by (simp add: n_def)
qed

theorem task_reply_format_witness:
  "\<exists>m. task sample_env ''26abcde'' sample_app = Inr (Some [Reply m], sample_app) \<and> reply_format 26 ''abcde'' m"
proof -
  have n: "sint (snd (stoi_int ''26'' 0)) = 26" by code_simp
  then have t: "task sample_env ''26abcde'' sample_app = Inr (Some [Reply ''2601abcde''], sample_app)"
    by (simp add: task_def)
  then show ?thesis using task_reply_format[OF t, of "''2601abcde''"] n by auto
qed

section \<open>The three stores\<close>

lemma read_many_keeps:
  "read_many he w j names s = Inr (Some r, s') \<Longrightarrow> lf_counted (lock_to_write s) \<Longrightarrow> s' = s"
proof (induction names arbitrary: s r)
  case (Cons f names)
  then show ?case by (fastforce simp: bind_res_eq_Inr dest: read_file_keeps split: option.splits)
qed simp

lemma on_server_app:
  assumes "on_server call reply a = Inr (Some os, a')"
  obtains r s where "call = Inr (Some r, s)" "a' = a\<lparr>disk_server := s\<rparr>"
  using assms by (auto simp: on_server_def bind_res_eq_Inr)

lemma on_server_keeps:
  assumes "on_server call reply a = Inr (Some os, a')" "\<And>r s. call = Inr (Some r, s) \<Longrightarrow> s = disk_server a"
  shows "a' = a"
  using on_server_app[OF assms(1)] assms(2) by (metis app.surjective app.update_convs(1))

lemma on_server_changes:
  assumes "on_server call reply a = Inr (Some os, a')" "\<And>r s. call = Inr (Some r, s) \<Longrightarrow> P s"
  shows "\<exists>s. a' = a\<lparr>disk_server := s\<rparr> \<and> P s"
  using on_server_app[OF assms(1)] assms(2) by metis

lemma cdb_set_app:
  assumes "cdb_set he x i w q a = Inr (Some os, a')"
  shows "\<exists>st. a' = a\<lparr>cdb_instance := st\<rparr>"
  using assms by (auto simp: cdb_set_def split: option.splits)

text \<open>
  C14: a query changes at most the store it is for. Writing and removing a file change only the file
  server and leave its locks as they were, posting an event changes only the event store, setting
  cache entries only the cache, and every other query, known or not, changes nothing.
\<close>

theorem task_changes_its_store:
  assumes "task he message a = Inr (Some os, a')" "n = sint (snd (stoi_int (take 2 message) 0))"
    and "lf_counted (lock_to_write (disk_server a))" "\<And>k s. lock_to_write (he_wait he k s) = lock_to_write s"
  shows "if n \<in> {4, 8} then \<exists>s. a' = a\<lparr>disk_server := s\<rparr> \<and> lock_to_write s = lock_to_write (disk_server a)
    else if n \<in> {12, 22} then \<exists>st. a' = a\<lparr>edb_instance := st\<rparr>
    else if n \<in> {24, 25, 32, 33} then \<exists>st. a' = a\<lparr>cdb_instance := st\<rparr>
    else a' = a"
proof -
  note T = assms(1)[unfolded task_def Let_def, folded assms(2)]
  note K = read_file_keeps[OF _ assms(3)] read_file_info_keeps[OF _ assms(3)] read_many_keeps[OF _ assms(3)]
  consider "n \<in> {4, 8}" | "n \<in> {12, 22}" | "n \<in> {24, 25, 32, 33}" | "n \<in> {2, 7, 9, 29}" | "n \<in> {1,3,5,6,11,13,14,20,21,26,31}"
    | "n \<notin> {1,2,3,4,5,6,7,8,9,29,11,12,22,13,14,20,21,24,25,26,31,32,33}" by blast
  then show ?thesis
  proof cases
    case 1
    then have "\<exists>s. a' = a\<lparr>disk_server := s\<rparr> \<and> lock_to_write s = lock_to_write (disk_server a)"
      using T
      by (elim insertE emptyE)
        (simp, erule on_server_changes, erule accept_file_keeps_lock remove_file_by_tms_keeps_lock, (rule assms)+)+
    then show ?thesis using 1 by auto
  next
    case 3
    then show ?thesis using T by (auto dest: cdb_set_app)
  next
    case 4
    then show ?thesis using T by (auto elim!: on_server_keeps intro: K split: option.splits)
  qed (use T in \<open>auto simp: bind_res_eq_Inr\<close>)
qed

theorem task_changes_its_store_witness:
  "\<exists>os a'. task sample_env ''26abcde'' sample_app = Inr (Some os, a') \<and> a' = sample_app"
proof -
  have n: "sint (snd (stoi_int ''26'' 0)) = 26" by code_simp
  then have t: "task sample_env ''26abcde'' sample_app = Inr (Some [Reply ''2601abcde''], sample_app)"
    by (simp add: task_def)
  then show ?thesis
    using task_changes_its_store[OF t refl] n by (auto simp: sample_app_def sample_server_def sample_env_def lf_init_idle)
qed

end
