(* ===== verification/Client.thy ===== *)
theory Client
  imports W_Type C_Manager Crc32
begin

text \<open>
  The client of \<open>rssdisk/client/rssdisk_pool.cpp\<close>: the messages it sends, how it reads the answers,
  and how it picks servers. Sockets, timeouts and threads are left out; a callback on an answer is a
  function of the answer, compression and \<open>time(0)\<close> are arguments.
\<close>

section \<open>Messages\<close>

definition prepare_edb :: "int64 \<Rightarrow> int32 \<Rightarrow> bytes \<Rightarrow> int32 \<Rightarrow> bytes" where
  "prepare_edb time_0 type_event val ttl =
     (let data = numeric_to_chars ttl 4 @ numeric_to_chars time_0 8 @ val
      in numeric_to_chars type_event 4 @ numeric_to_chars (of_nat (length data) :: int32) 4 @ data)"

definition prepare_cdb :: "(bytes \<Rightarrow> bytes) \<Rightarrow> int64 \<Rightarrow> string \<Rightarrow> bytes \<Rightarrow> int32 \<Rightarrow> bytes" where
  "prepare_cdb compress time_0 key val ttl =
     (let val_compressed = compress val
      in numeric_to_chars time_0 8 @ numeric_to_chars (ucast (get_hash val) :: int64) 8 @ numeric_to_chars ttl 4
         @ numeric_to_chars (of_nat (length key) :: int32) 4
         @ numeric_to_chars (of_nat (length val_compressed) :: int32) 4 @ key @ val_compressed)"

definition prepare_jdb :: "bytes \<Rightarrow> bytes \<Rightarrow> bytes" where
  "prepare_jdb data sett = numeric_to_chars (of_nat (length sett) :: uint32) 4 @ sett @ data"

text \<open>What is sent of a content: \<open>None\<close> when compression yields nothing.\<close>

definition write_body :: "(bytes \<Rightarrow> bytes) \<Rightarrow> w_type \<Rightarrow> bytes \<Rightarrow> bytes option" where
  "write_body compress w c =
     (if c \<noteq> [] then
        (let r = (if w \<noteq> updatable_without_compress \<and> w \<noteq> insert_only_without_compress \<and> w \<noteq> jdb \<and> w \<noteq> ajdb
                    \<and> w \<noteq> cdb \<and> w \<noteq> cdbm \<and> w \<noteq> appendable then compress c else c)
         in if r = [] then None else Some r)
      else Some [])"

definition write_flags :: "w_type \<Rightarrow> bytes \<Rightarrow> int64 \<Rightarrow> int64 \<Rightarrow> string" where
  "write_flags w c tms crc =
     (if w = updatable \<or> w = updatable_without_compress \<or> w = jdb \<or> w = ajdb then
        ''0'' @ (if w = jdb \<and> length c \<ge> 3 \<and> take 3 c = ''jdb'' then to_string (w_int jdb_formed) else to_string (w_int w))
          @ numeric_to_chars tms 8 @ numeric_to_chars crc 8
      else if w = insert_only_without_compress then ''0'' @ to_string (w_int w)
      else if w = appendable then to_string (w_int w) @ numeric_to_chars tms 8
      else ''0'')"

definition write_message ::
  "(bytes \<Rightarrow> bytes) \<Rightarrow> int64 \<Rightarrow> bool \<Rightarrow> int32 \<Rightarrow> w_type \<Rightarrow> string \<Rightarrow> bytes \<Rightarrow> int32 \<Rightarrow> int64 \<Rightarrow> int64 \<Rightarrow> bytes" where
  "write_message compress time_0 wait_responce identy w filename c ttl tms crc =
     (if w = edb_t then (if wait_responce then ''12'' else ''22'') @ to_string (sint identy) @ filename @ c
      else if w = cdb then (if wait_responce then ''32'' else ''33'') @ to_string (sint identy) @ prepare_cdb compress time_0 filename c ttl
      else if w = cdbm then (if wait_responce then ''32'' else ''33'') @ to_string (sint identy) @ c
      else ''04'' @ to_string (sint identy) @ ''auth '' @ filename @ '' '' @ to_string (sint ttl) @ '' ''
             @ write_flags w c tms crc @ '' '' @ c)"

text \<open>Whether \<open>write_file\<close> waits for the answer of a server.\<close>

datatype wait_answer = wa_default | wa_wait | wa_no_wait

definition waits_responce :: "wait_answer \<Rightarrow> w_type \<Rightarrow> bool" where
  "waits_responce a w =
     (if a = wa_no_wait then False
      else if a = wa_default \<and> (w = edb_t \<or> w = cdb \<or> w = cdbm) then False else True)"

section \<open>Answers\<close>

datatype write_reply = Wr_ok | Wr_disable | Wr_too_long | Wr_error | Wr_other | Wr_short

text \<open>The callback on the answer to a write: \<open>Wr_other\<close> answers another request and is not counted.\<close>

definition on_write_reply :: "int32 \<Rightarrow> bytes \<Rightarrow> write_reply" where
  "on_write_reply identy message =
     (if length message \<ge> 9 then
        (let status = take 2 (drop 2 message)
         in if take 5 (drop 4 message) = to_string (sint identy) then
              (if status = ''01'' then Wr_ok
               else if status = ''03'' \<or> status = ''12'' \<or> status = ''14'' then Wr_disable
               else if status = ''09'' then Wr_too_long
               else Wr_error)
            else Wr_other)
      else Wr_short)"

record read_state =
  rs_content :: bytes
  rs_ri :: read_info
  rs_ok :: bool
  rs_awaiting :: int

definition on_read_reply :: "(nat \<Rightarrow> char) \<Rightarrow> bool \<Rightarrow> int32 \<Rightarrow> bytes \<Rightarrow> read_state \<Rightarrow> read_state res" where
  "on_read_reply oob read_many identy message st =
     (let done = (\<lambda>st. st\<lparr>rs_awaiting := rs_awaiting st - 1\<rparr>)
      in if length message > 32 then
           (if take 2 (drop 2 message) = ''01'' then
              (if take 5 (drop 4 message) = to_string (sint identy) then
                 (if \<not> read_many then
                    bind_res (fetch_content oob message 9 (rs_ri st)) (\<lambda>ri.
                      Inr (done (if ri_content ri \<noteq> []
                        then st\<lparr>rs_content := ri_content ri, rs_ri := ri\<lparr>ri_content := []\<rparr>, rs_ok := True\<rparr>
                        else st\<lparr>rs_ri := ri\<rparr>)))
                  else Inr (done (st\<lparr>rs_content := drop 9 message, rs_ok := True\<rparr>)))
               else Inr st)
            else Inr (done st))
         else Inr (done st))"

text \<open>What \<open>read_file\<close> does with the content it got, and whether it reports success.\<close>

definition read_finish :: "(bytes \<Rightarrow> bytes) \<Rightarrow> bool \<Rightarrow> read_state \<Rightarrow> bytes \<times> bool" where
  "read_finish decompress read_many st =
     (let c = rs_content st; t = file_type (rs_ri st);
          is_jdb_full = (length c \<ge> 3 \<and> take 3 c = ''jdb'');
          c = (if rs_ok st \<and> c \<noteq> [] \<and> t \<noteq> insert_only_without_compress \<and> t \<noteq> updatable_without_compress
                  \<and> t \<noteq> appendable \<and> \<not> is_jdb_full \<and> \<not> read_many then decompress c else c)
      in (c, rs_ok st \<and> c \<noteq> []))"

datatype read_info_type = ri_file_exists | ri_file_info | ri_remove_file | ri_get_files | ri_read_files | ri_read_files_many
  | ri_read_files_many_comressed | ri_read_file_tms_newest | ri_read_cdb | ri_read_cdb_tms_newest | ri_read_cdb_all | ri_read_edb_events

fun command_code :: "read_info_type \<Rightarrow> string" where
  "command_code ri_read_files = ''02''"
| "command_code ri_read_files_many = ''09''"
| "command_code ri_read_files_many_comressed = ''29''"
| "command_code ri_read_file_tms_newest = ''02''"
| "command_code ri_get_files = ''06''"
| "command_code ri_file_info = ''07''"
| "command_code ri_remove_file = ''08''"
| "command_code ri_read_cdb = ''20''"
| "command_code ri_read_cdb_tms_newest = ''20''"
| "command_code ri_read_cdb_all = ''21''"
| "command_code ri_read_edb_events = ''31''"
| "command_code ri_file_exists = ''01''"

definition command_message :: "read_info_type \<Rightarrow> int32 \<Rightarrow> string \<Rightarrow> bytes" where
  "command_message t identy filename = command_code t @ to_string (sint identy) @ filename"

text \<open>Decoding the answer to \<open>file_info\<close>.\<close>

definition info_reply :: "bytes \<Rightarrow> read_info" where
  "info_reply s =
     (let ri = (if length s \<ge> 2 then read_info_init\<lparr>file_type := w_type_of (sint (snd (stoi_int (take 2 s) 0)))\<rparr> else read_info_init)
      in if file_type ri = w_none then ri
         else if file_type ri = jdb_data then
           (if length s \<ge> 6 then ri\<lparr>file_crc32 := chars_to_numeric (take 4 (drop 2 s))\<rparr> else ri)
         else if length s \<ge> 18 then
           (if file_type ri = updatable \<or> file_type ri = updatable_without_compress \<or> file_type ri = jdb \<or> file_type ri = ajdb then
              (let ri = ri\<lparr>file_tms := chars_to_numeric (take 8 (drop 2 s)), file_crc32 := chars_to_numeric (take 8 (drop 10 s))\<rparr>
               in if length s \<ge> 38
                  then (created_of (take 19 (drop 18 s)) ri)\<lparr>ttl_days := snd (stoi_short (drop 37 s) (ttl_days ri))\<rparr>
                  else ri)
            else if length s \<ge> 22
              then (created_of (take 19 (drop 2 s)) ri)\<lparr>ttl_days := snd (stoi_short (drop 21 s) (ttl_days ri))\<rparr>
            else ri)
         else ri)"

text \<open>
  The callback of \<open>command\<close>: the answer it adds, if any. The index and the address of the server it
  also records are left out.
\<close>

definition command_reply :: "(nat \<Rightarrow> char) \<Rightarrow> (bytes \<Rightarrow> bytes) \<Rightarrow> read_info_type \<Rightarrow> int32 \<Rightarrow> bytes \<Rightarrow> read_info option res" where
  "command_reply oob decompress t identy message =
     (if length message \<ge> 9 \<and> take 5 (drop 4 message) = to_string (sint identy) then
        (let status = take 2 (drop 2 message)
         in if t = ri_file_info then
              Inr (if status = ''01'' then Some (info_reply (drop 9 message)) else None)
            else if t = ri_get_files \<or> t = ri_read_cdb_all then
              Inr (if status = ''01''
                   then Some (read_info_init\<lparr>ri_content := if length message > 9 \<and> t = ri_get_files
                                then decompress (drop 9 message) else drop 9 message\<rparr>)
                   else None)
            else if t = ri_read_files \<or> t = ri_read_file_tms_newest \<or> t = ri_read_cdb \<or> t = ri_read_cdb_tms_newest then
              (if status = ''01'' \<and> length message > 32 then
                 bind_res (fetch_content oob message 9 read_info_init) (\<lambda>ri.
                   let is_jdb_full = (length (ri_content ri) \<ge> 3 \<and> take 3 (ri_content ri) = ''jdb'')
                   in Inr (Some (if ri_content ri \<noteq> [] \<and> file_type ri \<noteq> insert_only_without_compress
                        \<and> file_type ri \<noteq> updatable_without_compress \<and> file_type ri \<noteq> appendable \<and> \<not> is_jdb_full
                      then ri\<lparr>ri_content := decompress (ri_content ri)\<rparr> else ri)))
               else Inr None)
            else if t = ri_read_files_many \<or> t = ri_read_files_many_comressed \<or> t = ri_read_edb_events then
              Inr (if status = ''01'' \<and> length message > 32 then Some (read_info_init\<lparr>ri_content := drop 9 message\<rparr>) else None)
            else Inr (if status = ''01'' then Some read_info_init else None))
      else Inr None)"

text \<open>Numbers of requests, from \<open>tcp_client.cpp\<close>.\<close>

definition get_identy :: "int32 \<Rightarrow> int32" where
  "get_identy identy = (let i = identy + 1 in if sint i \<ge> 100000 then 10000 else i)"

text \<open>The newest of the answers: its time, how many share it, and the first position that has it.\<close>

fun newest_loop :: "read_info list \<Rightarrow> int \<Rightarrow> int \<Rightarrow> int64 \<Rightarrow> int \<Rightarrow> int \<times> int64 \<times> int" where
  "newest_loop [] i count_j tms_j n = (count_j, tms_j, n)"
| "newest_loop (ri # rs) i count_j tms_j n =
     (if length (ri_content ri) > 2 then
        (if sint (file_tms ri) > sint tms_j then newest_loop rs (i + 1) 1 (file_tms ri) i
         else if file_tms ri = tms_j then newest_loop rs (i + 1) (count_j + 1) tms_j n
         else newest_loop rs (i + 1) count_j tms_j n)
      else newest_loop rs (i + 1) count_j tms_j n)"

text \<open>\<open>None\<close> is \<open>count_tms_files_less_than_requeired\<close>.\<close>

definition newest :: "int \<Rightarrow> read_info list \<Rightarrow> read_info option" where
  "newest count_parts indexex =
     (case newest_loop indexex 0 0 0 (-1) of (count_j, tms_j, n) \<Rightarrow>
        if count_j < count_parts \<or> n = -1 then None else Some (indexex ! nat n))"

section \<open>Events\<close>

text \<open>The calls of \<open>f\<close>: the time and the payload of each event.\<close>

partial_function (option) fetch_edb_content :: "bytes \<Rightarrow> nat \<Rightarrow> (int64 \<times> bytes) list \<Rightarrow> (int64 \<times> bytes) list res option" where
  "fetch_edb_content data start_position calls =
     (if length data > sz_add start_position 4 then
        (case substr data start_position 4 of
           Inl e \<Rightarrow> Some (Inl e)
         | Inr sz \<Rightarrow>
             (let data_size = (chars_to_numeric sz :: int32)
              in if length data \<ge> sz_add (sz_add start_position (size_of_int32 data_size)) 4 then
                   (if sint data_size \<ge> 12 then
                      (case substr data (sz_add start_position 8) 8 of
                         Inl e \<Rightarrow> Some (Inl e)
                       | Inr t \<Rightarrow>
                           (case substr data (sz_add start_position 16) (size_of_int32 (data_size - 12)) of
                              Inl e \<Rightarrow> Some (Inl e)
                            | Inr d \<Rightarrow> fetch_edb_content data (sz_add start_position (size_of_int32 (data_size + 4)))
                                        (calls @ [(chars_to_numeric t, d)])))
                    else Some (Inr calls))
                 else Some (Inr calls)))
      else Some (Inr calls))"

section \<open>Choosing servers\<close>

text \<open>
  The connected servers by network group, in the order of the map. Taking a server removes it and,
  with the last one, its group. \<open>rnd i n\<close> is what the \<open>i\<close>-th call of \<open>rand(0, n - 1)\<close> returns.
\<close>

type_synonym servers = "(int \<times> int list) list"

definition pop_server :: "(nat \<Rightarrow> nat) \<Rightarrow> int \<Rightarrow> servers \<Rightarrow> int \<times> servers" where
  "pop_server rand g servers =
     (case map_of servers g of
        None \<Rightarrow> (-1, servers)
      | Some s_vec \<Rightarrow>
          if s_vec = [] then (-1, servers)
          else (let i = rand (length s_vec); v = take i s_vec @ drop (i + 1) s_vec
                in (s_vec ! i, if v = [] then AList.delete g servers else AList.update g v servers)))"

definition pop_index_rand :: "(nat \<Rightarrow> nat) \<Rightarrow> (nat \<Rightarrow> nat) \<Rightarrow> servers \<Rightarrow> int list \<Rightarrow> int \<Rightarrow> int \<times> servers \<times> int list" where
  "pop_index_rand rand1 rand2 servers used_groups preffered_network =
     (if servers = [] then (-1, servers, used_groups)
      else if map_of servers preffered_network \<noteq> None then
        (case pop_server rand1 preffered_network servers of (r, servers) \<Rightarrow> (r, servers, used_groups))
      else
        (let g = filter (\<lambda>n. n \<notin> set used_groups) (map fst servers);
             g = (if g = [] then map fst servers else g);
             select_netw = g ! rand1 (length g)
         in case pop_server rand2 select_netw servers of
              (r, servers) \<Rightarrow> (r, servers, List.insert select_netw used_groups)))"

record send_state =
  ss_servers :: servers
  ss_used :: "int list"
  ss_calls :: nat
  ss_sent :: "int list"

text \<open>
  \<open>f_send\<close>: servers are taken until enough connected ones got the message or none is left. A server
  is lost from the pool in every round but the last, so the number of servers bounds the rounds.
\<close>

fun f_send :: "(nat \<Rightarrow> nat \<Rightarrow> nat) \<Rightarrow> (int \<Rightarrow> bool) \<Rightarrow> nat \<Rightarrow> int \<Rightarrow> int list \<Rightarrow> send_state \<Rightarrow> send_state" where
  "f_send rnd connected 0 need pref st = st"
| "f_send rnd connected (Suc n) need pref st =
     (if need > 0 then
        (case pop_index_rand (rnd (ss_calls st)) (rnd (ss_calls st + 1)) (ss_servers st) (ss_used st)
                (if pref = [] then -1 else hd pref) of
           (ind, servers, used_groups) \<Rightarrow>
             (let st = st\<lparr>ss_servers := servers, ss_used := used_groups, ss_calls := ss_calls st + 2\<rparr>
              in if ind = -1 then st
                 else if connected ind
                   then f_send rnd connected n (need - 1) (tl pref) (st\<lparr>ss_sent := ss_sent st @ [ind]\<rparr>)
                   else f_send rnd connected n need (tl pref) st))
      else st)"

definition pool_size :: "servers \<Rightarrow> nat" where
  "pool_size servers = sum_list (map (\<lambda>p. length (snd p)) servers)"

text \<open>
  The rounds of \<open>write_file\<close>: \<open>answers i ind\<close> tells whether server \<open>ind\<close>, once asked, has confirmed the
  write by the end of round \<open>i\<close> (\<open>i = 0\<close> is the first); \<open>netw\<close> is its network group.
\<close>

fun write_rounds :: "(nat \<Rightarrow> nat \<Rightarrow> nat) \<Rightarrow> (int \<Rightarrow> bool) \<Rightarrow> (nat \<Rightarrow> int \<Rightarrow> bool) \<Rightarrow> (int \<Rightarrow> int) \<Rightarrow> int list \<Rightarrow> int
    \<Rightarrow> nat \<Rightarrow> nat \<Rightarrow> int list \<Rightarrow> send_state \<Rightarrow> int list \<times> send_state" where
  "write_rounds rnd connected answers netw pref count i 0 oks st = (oks, st)"
| "write_rounds rnd connected answers netw pref count i (Suc parts) oks st =
     (if ss_servers st = [] then (oks, st)
      else
        (let p = (if i = 0 then pref else filter (\<lambda>g. g \<notin> netw ` set oks) pref);
             st = f_send rnd connected (Suc (pool_size (ss_servers st))) (count - int (length oks)) p st;
             oks = filter (answers i) (ss_sent st)
         in if int (length oks) \<ge> count then (oks, st)
            else write_rounds rnd connected answers netw pref count (i + 1) parts oks st))"

section \<open>Removing a batch of cache entries\<close>

text \<open>The message for the servers that did not get a batch: the same records without content.\<close>

partial_function (option) cut_loop :: "bytes \<Rightarrow> int32 \<Rightarrow> bytes \<Rightarrow> bytes option" where
  "cut_loop c pos cutted =
     (if length c > size_of_int32 (pos + 28) then
        (let block_pos = pos;
             header_bytes = (chars_to_numeric (take 4 (drop (size_of_int32 (pos + 20)) c)) :: int32);
             content_bytes = (chars_to_numeric (take 4 (drop (size_of_int32 (pos + 24)) c)) :: int32);
             pos = pos + 28
         in if length c \<ge> size_of_int32 (pos + header_bytes) then
              (let pos = pos + header_bytes
               in if length c \<ge> size_of_int32 (pos + content_bytes) then
                    cut_loop c (pos + content_bytes)
                      (cutted @ take 24 (drop (size_of_int32 block_pos) c) @ numeric_to_chars (0 :: int32) 4
                        @ take (size_of_int32 header_bytes) (drop (size_of_int32 (block_pos + 28)) c))
                  else Some cutted)
            else Some cutted)
      else Some cutted)"


section \<open>Reading events\<close>

lemma size_of_int32_bound: "0 \<le> sint b \<Longrightarrow> size_of_int32 b = nat (sint b) \<and> size_of_int32 b < 2 ^ 31"
proof -
  assume p: "0 \<le> sint b"
  have "sint b < 2 ^ 31" using sint_lt[of b] by simp
  then have n: "nat (sint b) < 2 ^ 31" using p by (simp add: nat_less_iff)
  have "b = of_nat (nat (sint b))" using p by simp
  then have "size_of_int32 b = nat (sint b)" using size_of_int32_nat[OF n] by metis
  then show ?thesis using n by simp
qed

lemma size_of_int32_shift:
  assumes "b = of_nat n" "12 \<le> n" "n + 4 < 2 ^ 31"
  shows "size_of_int32 (b + 4) = n + 4" "size_of_int32 (b - 12) = n - 12"
proof -
  have "b + 4 = of_nat (n + 4)" "b - 12 = of_nat (n - 12)" using assms(1,2) by (simp_all add: of_nat_diff)
  then show "size_of_int32 (b + 4) = n + 4" "size_of_int32 (b - 12) = n - 12"
    using size_of_int32_nat[of "n + 4"] size_of_int32_nat[of "n - 12"] assms(3) by (simp_all only:)
qed

text \<open>The loop ends on every data: each event moves the position by at least 16 bytes.\<close>

lemma fetch_edb_content_returns:
  assumes "length data < 2 ^ 31" "start \<le> length data"
  shows "\<exists>r. fetch_edb_content data start calls = Some (Inr (calls @ r))"
  using assms(2)
proof (induction "length data - start" arbitrary: start calls rule: less_induct)
  case less
  let ?ds = "chars_to_numeric (take 4 (drop start data)) :: int32"
  have a: "sz_add start 4 = start + 4" "sz_add start 8 = start + 8" "sz_add start 16 = start + 16"
    using less.prems assms(1) by (simp_all add: sz_add_eq)
  show ?case
  proof (cases "length data > start + 4 \<and> length data \<ge> sz_add (sz_add start (size_of_int32 ?ds)) 4 \<and> sint ?ds \<ge> 12")
    case False
    then show ?thesis using less.prems by (subst fetch_edb_content.simps) (auto simp: a Let_def)
  next
    case True
    have b: "size_of_int32 ?ds = nat (sint ?ds)" "size_of_int32 ?ds < 2 ^ 31"
      using size_of_int32_bound[of ?ds] True by simp_all
    have "sz_add start (size_of_int32 ?ds) = start + size_of_int32 ?ds"
      "sz_add (start + size_of_int32 ?ds) 4 = start + size_of_int32 ?ds + 4"
      using less.prems assms(1) b(2) by (simp_all add: sz_add_eq)
    then have n: "start + size_of_int32 ?ds + 4 \<le> length data" "12 \<le> size_of_int32 ?ds"
      using True b(1) by (simp_all add: le_nat_iff)
    have w: "?ds = of_nat (size_of_int32 ?ds)" using b(1) True by simp
    have s4: "size_of_int32 (?ds + 4) = size_of_int32 ?ds + 4" "size_of_int32 (?ds - 12) = size_of_int32 ?ds - 12"
      using size_of_int32_shift[OF w n(2)] n(1) assms(1) by simp_all
    let ?next = "start + (size_of_int32 ?ds + 4)" and ?c = "(chars_to_numeric (take 8 (drop (start + 8) data)) :: int64,
      take (size_of_int32 ?ds - 12) (drop (start + 16) data))"
    have "\<exists>r. fetch_edb_content data ?next (calls @ [?c]) = Some (Inr ((calls @ [?c]) @ r))"
      using n by (intro less.hyps) simp_all
    moreover have "fetch_edb_content data start calls = fetch_edb_content data ?next (calls @ [?c])"
      using True n less.prems assms(1) by (subst fetch_edb_content.simps) (simp add: a Let_def s4 sz_add_eq)
    ultimately show ?thesis by fastforce
  qed
qed


text \<open>What the server keeps of an event message, and a stream of such events.\<close>

definition edb_payload :: "int64 \<times> bytes \<times> int32 \<Rightarrow> bytes" where
  "edb_payload ev = (case ev of (t, v, ttl) \<Rightarrow>
     numeric_to_chars (of_nat (12 + length v) :: int32) 4 @ numeric_to_chars ttl 4 @ numeric_to_chars t 8 @ v)"

lemma prepare_edb_payload: "prepare_edb t ty v ttl = numeric_to_chars ty 4 @ edb_payload (t, v, ttl)"
  by (simp add: prepare_edb_def edb_payload_def Let_def)

lemma length_edb_payload: "length (edb_payload (t, v, ttl)) = 16 + length v"
  by (simp add: edb_payload_def)

lemma fetch_edb_event:
  assumes "data = pre @ edb_payload (t, v, ttl) @ post" "length data < 2 ^ 31"
  shows "fetch_edb_content data (length pre) calls = fetch_edb_content data (length pre + (16 + length v)) (calls @ [(t, v)])"
proof -
  let ?n = "12 + length v"
  have l: "length pre + 16 + length v \<le> length data" using assms(1) by (simp add: length_edb_payload)
  have n: "?n + 4 < 2 ^ 31" using l assms(2) by simp
  have f: "take 4 (drop (length pre) data) = numeric_to_chars (of_nat ?n :: int32) 4"
    "take 8 (drop (length pre + 8) data) = numeric_to_chars t 8" "take (length v) (drop (length pre + 16) data) = v"
    using assms(1) by (simp_all add: edb_payload_def)
  have d: "(chars_to_numeric (numeric_to_chars (of_nat ?n :: int32) 4) :: int32) = of_nat ?n"
    "(chars_to_numeric (numeric_to_chars t 8) :: int64) = t" by simp_all
  have s: "size_of_int32 (of_nat ?n) = ?n" "sint (of_nat ?n :: int32) = int ?n"
    "size_of_int32 (of_nat ?n + 4) = ?n + 4" "size_of_int32 (of_nat ?n - 12) = ?n - 12"
    using size_of_int32_nat[of ?n] sint_of_nat_32[of ?n] size_of_int32_shift[OF refl _ n] n by simp_all
  have a: "sz_add (length pre) 4 = length pre + 4" "sz_add (length pre) 8 = length pre + 8" "sz_add (length pre) 16 = length pre + 16"
    "sz_add (length pre) ?n = length pre + ?n" "sz_add (length pre + ?n) 4 = length pre + ?n + 4"
    "sz_add (length pre) (?n + 4) = length pre + (16 + length v)"
    using l assms(2) by (simp_all add: sz_add_eq)
  show ?thesis
    using l f d s a by (subst fetch_edb_content.simps) (simp add: Let_def del: of_nat_add)
qed

lemma fetch_edb_stream:
  assumes "data = pre @ concat (map edb_payload evs)" "length data < 2 ^ 31"
  shows "fetch_edb_content data (length pre) calls = Some (Inr (calls @ map (\<lambda>(t, v, ttl). (t, v)) evs))"
  using assms
proof (induction evs arbitrary: pre calls)
  case Nil
  then show ?case by (subst fetch_edb_content.simps) (simp add: sz_add_eq)
next
  case (Cons ev evs)
  obtain t v ttl where ev: "ev = (t, v, ttl)" by (cases ev)
  have "fetch_edb_content data (length pre) calls = fetch_edb_content data (length (pre @ edb_payload ev)) (calls @ [(t, v)])"
    using fetch_edb_event[of data pre t v ttl "concat (map edb_payload evs)"] Cons.prems ev by (simp add: length_edb_payload)
  also have "\<dots> = Some (Inr ((calls @ [(t, v)]) @ map (\<lambda>(t, v, ttl). (t, v)) evs))"
    using Cons.prems by (intro Cons.IH) simp_all
  finally show ?case by (simp add: ev)
qed

end
