(* ===== verification/Client_Server.thy ===== *)
theory Client_Server
  imports Handler_Spec Client
begin

text \<open>
  The client and the server together: the messages of \<open>rssdisk_pool.cpp\<close> are what the handler and the
  stores expect, and the answers are what the client expects.
\<close>

section \<open>Numbers in messages\<close>

lemma two_digits_small: "0 \<le> i \<Longrightarrow> i < 10 \<Longrightarrow> ''0'' @ to_string i = two_digits i"
  by (simp add: two_digits_def Let_def to_string_def nat_to_string_length nat_less_iff)

lemma two_digits_large: "10 \<le> i \<Longrightarrow> to_string i = two_digits i"
  by (simp add: two_digits_def Let_def to_string_def nat_to_string_length le_nat_iff)

lemma two_digits_no_blank: "0 \<le> i \<Longrightarrow> i \<le> 99 \<Longrightarrow> no_blank (two_digits i)"
  using to_string_digits[of i] isdigit_not_space[of "CHR '' ''"]
  by (auto simp: no_blank_def two_digits_def Let_def isspace_def)

text \<open>The number of a request has five digits.\<close>

definition identy_ok :: "int32 \<Rightarrow> bool" where
  "identy_ok identy \<longleftrightarrow> 10000 \<le> sint identy \<and> sint identy \<le> 99999"

lemma length_nat_to_string: "10 ^ k \<le> n \<Longrightarrow> n < 10 ^ Suc k \<Longrightarrow> length (nat_to_string n) = Suc k"
proof (induction k arbitrary: n)
  case (Suc k)
  have "10 ^ k \<le> n div 10" "n div 10 < 10 ^ Suc k" "10 \<le> n"
    using Suc.prems by (simp_all add: less_mult_imp_div_less less_eq_div_iff_mult_less_eq mult.commute)
      (metis One_nat_def mult.commute mult_le_mono2 nat_mult_1_right one_le_numeral one_le_power order_trans)
  then show ?case using Suc.IH[of "n div 10"] by (simp add: nat_to_string_length)
qed (simp add: nat_to_string_length)

lemma identy_length:
  assumes "identy_ok identy"
  shows "length (to_string (sint identy)) = 5"
  using length_nat_to_string[of 4 "nat (sint identy)"] assms by (simp add: identy_ok_def to_string_def nat_less_iff le_nat_iff)

section \<open>Types that are stored as they come\<close>

definition versioned :: "w_type \<Rightarrow> bool" where
  "versioned w \<longleftrightarrow> w = updatable \<or> w = updatable_without_compress"

definition plain_type :: "w_type \<Rightarrow> bool" where
  "plain_type w \<longleftrightarrow> versioned w \<or> w = insert_only \<or> w = insert_only_without_compress \<or> w = appendable"

definition sent_headers :: "w_type \<Rightarrow> int64 \<Rightarrow> int64 \<Rightarrow> string list" where
  "sent_headers w tms crc =
     two_digits (w_int w) # (if versioned w then [numeric_to_chars tms 8, numeric_to_chars crc 8]
       else if w = appendable then [numeric_to_chars tms 8] else [])"

lemma write_flags_plain:
  assumes "plain_type w"
  shows "flags_ok (write_flags w c tms crc)"
    "type_of_flags (write_flags w c tms crc) = (if w = insert_only then w_none else w)"
    "all_headers (fst (headers_of (write_flags w c tms crc))) = sent_headers w tms crc"
    "snd (headers_of (write_flags w c tms crc)) = versioned w"
proof -
  let ?f = "write_flags w c tms crc"
  have "flags_ok ?f \<and> type_of_flags ?f = (if w = insert_only then w_none else w)
      \<and> all_headers (fst (headers_of ?f)) = sent_headers w tms crc \<and> snd (headers_of ?f) = versioned w"
  proof (cases "w = insert_only")
    case True
    have "two_digits 0 = ''00''" by code_simp
    with True show ?thesis
      by (simp add: write_flags_def flags_ok_def type_of_flags_def headers_of_def all_headers_def sent_headers_def versioned_def)
  next
    case False
    let ?t = "two_digits (w_int w)"
    let ?b = "if versioned w then numeric_to_chars tms 8 @ numeric_to_chars crc 8
      else if w = appendable then numeric_to_chars tms 8 else []"
    have w: "w \<in> {insert_only, updatable, insert_only_without_compress, updatable_without_compress, jdb, ajdb, appendable}"
      "0 \<le> w_int w" "w_int w \<le> 99"
      using assms False by (auto simp: plain_type_def versioned_def)
    have f: "?f = ?t @ ?b"
      using assms False two_digits_small[of "w_int w"] two_digits_large[of "w_int w"]
      by (auto simp: write_flags_def plain_type_def versioned_def)
    have t: "length ?t = 2" "flags_type ?t = w" "no_blank ?t"
      using stoi_type[OF w(1)] two_digits_no_blank[OF w(2,3)] by (simp_all add: flags_type_def)
    have "take 2 ?f = ?t" "2 \<le> length ?f" by (simp_all add: f t)
    then show ?thesis
      using assms False t two_digits_small[of "w_int w"] two_digits_large[of "w_int w"]
      by (auto simp: flags_ok_def type_of_flags_def headers_of_def f all_headers_def sent_headers_def file_headers_def
          stable_bytes_def plain_type_def versioned_def)
  qed
  then show "flags_ok ?f" "type_of_flags ?f = (if w = insert_only then w_none else w)"
    "all_headers (fst (headers_of ?f)) = sent_headers w tms crc" "snd (headers_of ?f) = versioned w" by blast+
qed

lemma fetch_sent:
  assumes "plain_type w" "date_ok t" "ttl_ok ttl" "c \<noteq> []"
  shows "fetch_content oob (p @ file_text (sent_headers w tms crc) t ttl c) (length p) read_info_init =
    Inr (stored_info w (if versioned w \<or> w = appendable then tms else 0) (if versioned w then crc else 0) t ttl
      (p @ concat (sent_headers w tms crc) @ get_date_time t @ to_string (sint ttl) @ '' '') c)"
  using assms fetch_versioned[of w t ttl c "numeric_to_chars tms 8" "numeric_to_chars crc 8" oob p]
    fetch_unversioned[of w t ttl c oob p] fetch_appendable[of t ttl c "numeric_to_chars tms 8" oob p]
  by (auto simp: plain_type_def versioned_def sent_headers_def)


section \<open>Requests as the handler sees them\<close>

lemma codes:
  "sint (snd (stoi_int ''02'' 0)) = 2" "sint (snd (stoi_int ''04'' 0)) = 4" "sint (snd (stoi_int ''12'' 0)) = 12"
  "sint (snd (stoi_int ''14'' 0)) = 14" "sint (snd (stoi_int ''20'' 0)) = 20" "sint (snd (stoi_int ''31'' 0)) = 31"
  "sint (snd (stoi_int ''32'' 0)) = 32" "sint (snd (stoi_int ''33'' 0)) = 33" "sint (snd (stoi_int ''22'' 0)) = 22"
  "sint (snd (stoi_int ''07'' 0)) = 7" "sint (snd (stoi_int ''08'' 0)) = 8"
  by code_simp+

lemma status_str_ok: "status_str st_ok = ''01''" by code_simp

lemma request_parts:
  assumes "length code = 2" "length ident = 5"
  shows "take 2 (code @ ident @ q) = code" "take 5 (drop 2 (code @ ident @ q)) = ident" "drop 7 (code @ ident @ q) = q"
  using assms by simp_all

lemma task_write:
  assumes "plain_type w" "identy_ok identy"
  shows "task he (write_message compress t0 wait identy w name c ttl tms crc) a =
    on_server (accept_file (he_senv he) (he_conf he)
        (file_message ''auth'' name (to_string (sint ttl)) (write_flags w c tms crc) c) False False (disk_server a))
      (\<lambda>r. [Reply (''04'' @ status_str (r_status r) @ to_string (sint identy))]) a"
proof -
  have "write_message compress t0 wait identy w name c ttl tms crc =
      ''04'' @ to_string (sint identy) @ file_message ''auth'' name (to_string (sint ttl)) (write_flags w c tms crc) c"
    using assms(1) by (auto simp: write_message_def file_message_def plain_type_def versioned_def)
  then show ?thesis
    unfolding task_def Let_def
    by (simp add: request_parts[OF _ identy_length[OF assms(2)], of "''04''", simplified] codes)
qed

lemma task_read:
  assumes "identy_ok identy"
  shows "task he (command_message ri_read_files identy name) a =
    on_server (server_read_file (he_senv he) (he_conf he) name [] 0 (disk_server a))
      (\<lambda>(st, c). [Reply (''02'' @ status_str st @ to_string (sint identy) @ c)]) a"
  unfolding task_def Let_def command_message_def command_code.simps
  by (simp add: request_parts[OF _ identy_length[OF assms], of "''02''", simplified] codes)


section \<open>Writing and reading a file\<close>

text \<open>What the client relies on of zlib: decompression undoes compression, and a compressed stream
  starts with its own header.\<close>

definition zlib_ok :: "(bytes \<Rightarrow> bytes) \<Rightarrow> (bytes \<Rightarrow> bytes) \<Rightarrow> bool" where
  "zlib_ok compress decompress \<longleftrightarrow> (\<forall>x. decompress (compress x) = x \<and> compress x \<noteq> [] \<and> take 3 (compress x) \<noteq> ''jdb'')"

definition read_start :: read_state where
  "read_start = \<lparr>rs_content = [], rs_ri = read_info_init, rs_ok = False, rs_awaiting = 1\<rparr>"

lemma write_body_plain:
  assumes "plain_type w" "zlib_ok compress decompress" "x \<noteq> []"
  obtains c where "write_body compress w x = Some c" "c \<noteq> []"
    "c = (if w = insert_only \<or> w = updatable then compress x else x)"
  using assms by (auto simp: write_body_def plain_type_def versioned_def zlib_ok_def)

lemma read_reply_stored:
  assumes "plain_type w" "date_ok t" "ttl_ok ttl" "c \<noteq> []" "identy_ok identy"
  shows "\<exists>st. on_read_reply oob False identy
        (''02'' @ ''01'' @ to_string (sint identy) @ file_text (sent_headers w tms crc) t ttl c) read_start = Inr st
    \<and> rs_content st = c \<and> rs_ok st \<and> rs_awaiting st = 0
    \<and> file_type (rs_ri st) = w \<and> file_created (rs_ri st) = printed t \<and> ttl_days (rs_ri st) = word_of_int (sint ttl)
    \<and> file_tms (rs_ri st) = (if versioned w \<or> w = appendable then tms else 0)
    \<and> file_crc32 (rs_ri st) = (if versioned w then crc else 0)"
proof -
  let ?p = "''02'' @ ''01'' @ to_string (sint identy)"
  let ?m = "?p @ file_text (sent_headers w tms crc) t ttl c"
  have l: "length ?p = 9" using identy_length[OF assms(5)] by simp
  have "length (two_digits (w_int w)) = 2" using assms(1) by (auto simp: plain_type_def versioned_def two_digits_length)
  then have "length ?m > 32"
    using assms(2,4) l length_printed[of t]
    by (cases c) (auto simp: file_text_def sent_headers_def date_ok_def to_string_def)
  moreover have "take 2 (drop 2 ?m) = ''01''" "take 5 (drop 4 ?m) = to_string (sint identy)"
    using identy_length[OF assms(5)] by simp_all
  ultimately show ?thesis
    using fetch_sent[OF assms(1-4), of oob ?p tms crc] assms(4) unfolding l
    by (simp add: on_read_reply_def read_start_def stored_info_def)
qed

lemma client_file_round_trip:
  assumes "zlib_ok compress decompress" "plain_type w" "identy_ok i1" "identy_ok i2" "x \<noteq> []"
    and "can_store (he_senv he) (he_conf he) (disk_server a) name d" "enable_read (he_conf he)"
    and "str_find (snd (split_subfolder name)) ''?jdb'' 0 = None" "date_ok (now (he_senv he))" "ttl_ok ttl"
    and "w = appendable \<longrightarrow> disk (disk_server a) (file_path (he_senv he) d name) = None"
  shows "\<exists>c m1 a' m2 st. write_body compress w x = Some c
    \<and> task he (write_message compress t0 True i1 w name c ttl tms crc) a = Inr (Some [Reply m1], a') \<and> on_write_reply i1 m1 = Wr_ok
    \<and> task he (command_message ri_read_files i2 name) a' = Inr (Some [Reply m2], a')
    \<and> on_read_reply oob False i2 m2 read_start = Inr st \<and> read_finish decompress False st = (x, True)
    \<and> file_type (rs_ri st) = w \<and> file_created (rs_ri st) = printed (now (he_senv he)) \<and> ttl_days (rs_ri st) = word_of_int (sint ttl)
    \<and> file_tms (rs_ri st) = (if versioned w \<or> w = appendable then tms else 0)
    \<and> file_crc32 (rs_ri st) = (if versioned w then crc else 0)"
proof -
  let ?e = "he_senv he" and ?cfg = "he_conf he" and ?s = "disk_server a"
  obtain c where c: "write_body compress w x = Some c" "c \<noteq> []" "c = (if w = insert_only \<or> w = updatable then compress x else x)"
    using write_body_plain[OF assms(2,1,5)] by blast
  let ?f = "write_flags w c tms crc" and ?ttl = "to_string (sint ttl)"
  have t: "snd (stoi_int ?ttl 0) = ttl" by (simp add: stoi_int_to_string)
  have f: "type_of_flags ?f \<notin> {jdb, ajdb}" "type_of_flags ?f = appendable \<longrightarrow> disk ?s (file_path ?e d name) = None" "no_blank ?ttl"
    using assms(2,10,11) to_string_ttl by (auto simp: write_flags_plain(2)[OF assms(2)] plain_type_def versioned_def ttl_ok_def)
  have "\<exists>r s'. accept_file ?e ?cfg (file_message ''auth'' name ?ttl ?f c) False False ?s = Inr (Some r, s') \<and> r_status r = st_ok
      \<and> server_read_file ?e ?cfg name [] 0 s' =
          Inr (Some (st_ok, file_text (all_headers (fst (headers_of ?f))) (now ?e) (snd (stoi_int ?ttl 0)) c), s')"
    by (rule accept_then_read[OF assms(6) _ f(3) write_flags_plain(1)[OF assms(2)] _ _ c(2) f(1,2) assms(7,8)]) simp_all
  then obtain r s' where a: "accept_file ?e ?cfg (file_message ''auth'' name ?ttl ?f c) False False ?s = Inr (Some r, s')" "r_status r = st_ok"
    "server_read_file ?e ?cfg name [] 0 s' = Inr (Some (st_ok, file_text (sent_headers w tms crc) (now ?e) ttl c), s')"
    unfolding write_flags_plain(3)[OF assms(2)] t by blast
  let ?a = "a\<lparr>disk_server := s'\<rparr>"
  have w: "task he (write_message compress t0 True i1 w name c ttl tms crc) a = Inr (Some [Reply (''04'' @ ''01'' @ to_string (sint i1))], ?a)"
    using a(1,2) by (simp add: task_write[OF assms(2,3)] on_server_def status_str_ok)
  have "on_write_reply i1 (''04'' @ ''01'' @ to_string (sint i1)) = Wr_ok"
    using identy_length[OF assms(3)] by (simp add: on_write_reply_def)
  moreover have "task he (command_message ri_read_files i2 name) ?a =
      Inr (Some [Reply (''02'' @ ''01'' @ to_string (sint i2) @ file_text (sent_headers w tms crc) (now ?e) ttl c)], ?a)"
    using a(3) by (simp add: task_read[OF assms(4)] on_server_def status_str_ok)
  moreover obtain st where st: "on_read_reply oob False i2
      (''02'' @ ''01'' @ to_string (sint i2) @ file_text (sent_headers w tms crc) (now ?e) ttl c) read_start = Inr st"
    "rs_content st = c" "rs_ok st" "file_type (rs_ri st) = w" "file_created (rs_ri st) = printed (now ?e)"
    "ttl_days (rs_ri st) = word_of_int (sint ttl)"
    "file_tms (rs_ri st) = (if versioned w \<or> w = appendable then tms else 0)" "file_crc32 (rs_ri st) = (if versioned w then crc else 0)"
    using read_reply_stored[OF assms(2,9,10) c(2) assms(4), of oob tms crc] by blast
  moreover have "read_finish decompress False st = (x, True)"
    using st(2-4) c assms(1,2,5) by (auto simp: read_finish_def zlib_ok_def plain_type_def versioned_def)
  ultimately show ?thesis using c(1) w by blast
qed


section \<open>Writing and reading the cache\<close>

lemma get_identy_ok: "identy_ok i \<Longrightarrow> identy_ok (get_identy i)"
proof -
  assume i: "identy_ok i"
  have "i + 1 = word_of_int (sint i + 1)" by simp
  moreover have "sint (word_of_int (sint i + 1) :: int32) = sint i + 1"
    using i signed_take_bit_int_eq_self[of 31 "sint i + 1"] by (simp add: identy_ok_def signed_of_int del: of_int_add)
  ultimately have "sint (i + 1) = sint i + 1" by metis
  then show ?thesis using i by (simp add: identy_ok_def get_identy_def Let_def)
qed

definition cdb_record :: "(bytes \<Rightarrow> bytes) \<Rightarrow> int64 \<Rightarrow> string \<Rightarrow> bytes \<Rightarrow> int32 \<Rightarrow> crec" where
  "cdb_record compress t0 key x ttl =
     \<lparr>r_tms = t0, r_crc = ucast (get_hash x), r_ttl = ttl, r_key = key, r_content = compress x\<rparr>"

lemma prepare_cdb_record: "prepare_cdb compress t0 key x ttl = enc_rec (cdb_record compress t0 key x ttl)"
  by (simp add: prepare_cdb_def enc_rec_def cdb_record_def Let_def)

lemma task_cdb_write:
  assumes "identy_ok identy" "key \<noteq> []" "length key + length (compress x) + 56 < 2 ^ 31"
  shows "task he (write_message compress t0 True identy cdb key x ttl tms crc) a =
    Inr (Some [Reply (''32'' @ ''01'' @ to_string (sint identy))],
      a\<lparr>cdb_instance := mt.exec (he_steady he 0, rec_cmd (cdb_record compress t0 key x ttl)) (cdb_instance a)\<rparr>)"
proof -
  let ?r = "cdb_record compress t0 key x ttl"
  have "cdb_insert (he_steady he) (enc_rec ?r) (cdb_instance a) =
      Some (True, mt.exec (he_steady he 0, rec_cmd ?r) (cdb_instance a))"
    using cdb_insert_stream[of "[?r]" "he_steady he" "cdb_instance a"] assms(2,3)
    by (simp add: timed_cmds_def cdb_record_def)
  then show ?thesis
    unfolding task_def Let_def write_message_def
    by (simp add: request_parts[OF _ identy_length[OF assms(1)], of "''32''", simplified] codes cdb_set_def prepare_cdb_record)
qed

lemma task_cdb_read:
  assumes "identy_ok identy"
  shows "task he (command_message ri_read_cdb identy key) a =
    Inr (Some [Reply (case cdb_retrieve (he_steady he 0) key (cdb_instance a) of
        Some c \<Rightarrow> ''20'' @ ''01'' @ to_string (sint identy) @ ''10'' @ ''00000'' @ c
      | None \<Rightarrow> ''20'' @ ''07'' @ to_string (sint identy))], a)"
proof -
  have "two_digits 10 = ''10''" by code_simp
  then show ?thesis
    unfolding task_def Let_def command_message_def command_code.simps
    by (simp add: request_parts[OF _ identy_length[OF assms], of "''20''", simplified] codes split: option.split)
qed


lemma client_cache_round_trip:
  assumes "zlib_ok compress decompress" "identy_ok i1" "identy_ok i2" "key \<noteq> []"
    and "length key + length (compress x) + 56 < 2 ^ 31"
  shows "\<exists>m1 a' m2. task he (write_message compress t0 True i1 cdb key x ttl tms crc) a = Inr (Some [Reply m1], a')
    \<and> on_write_reply i1 m1 = Wr_ok
    \<and> task he2 (command_message ri_read_cdb i2 key) a' = Inr (Some [Reply m2], a')
    \<and> command_reply oob decompress ri_read_cdb i2 m2 =
        Inr (if he_steady he2 0 \<le> he_steady he 0 + seconds ttl
             then Some (read_info_init\<lparr>file_type := cdb, file_tms := t0, file_crc32 := ucast (get_hash x), ri_content := x\<rparr>)
             else None)"
proof -
  let ?r = "cdb_record compress t0 key x ttl"
  let ?a = "a\<lparr>cdb_instance := mt.exec (he_steady he 0, rec_cmd ?r) (cdb_instance a)\<rparr>"
  have z: "compress x \<noteq> []" "decompress (compress x) = x" "take 3 (compress x) \<noteq> ''jdb''" using assms(1) by (simp_all add: zlib_ok_def)
  let ?c = "numeric_to_chars t0 8 @ numeric_to_chars (ucast (get_hash x) :: int64) 8 @ compress x"
  let ?ok = "he_steady he2 0 \<le> he_steady he 0 + seconds ttl"
  have g: "cdb_retrieve (he_steady he2 0) key (cdb_instance ?a) = (if ?ok then Some ?c else None)"
    using z(1) by (simp add: cdb_retrieve_def mt.look_exec mt.hits_def mt.outcome_def rec_cmd_def cdb_record_def)
  define m2 where "m2 = (if ?ok then ''20'' @ ''01'' @ to_string (sint i2) @ ''10'' @ ''00000'' @ ?c
      else ''20'' @ ''07'' @ to_string (sint i2))"
  have id: "length (to_string (sint i2)) = 5" by (rule identy_length[OF assms(3)])
  have "task he2 (command_message ri_read_cdb i2 key) ?a = Inr (Some [Reply m2], ?a)"
    unfolding task_cdb_read[OF assms(3)] g m2_def by (cases ?ok) (simp_all only: if_True if_False option.case)
  moreover have "on_write_reply i1 (''32'' @ ''01'' @ to_string (sint i1)) = Wr_ok"
    using identy_length[OF assms(2)] by (simp add: on_write_reply_def)
  moreover have "command_reply oob decompress ri_read_cdb i2 m2 = Inr (if ?ok
      then Some (read_info_init\<lparr>file_type := cdb, file_tms := t0, file_crc32 := ucast (get_hash x), ri_content := x\<rparr>) else None)"
  proof (cases ?ok)
    case True
    have t: "w_type_of (sint (snd (stoi_int ''10'' 0))) = cdb" by code_simp
    have "fetch_content oob m2 9 read_info_init =
        Inr (read_info_init\<lparr>file_type := cdb, file_tms := t0, file_crc32 := ucast (get_hash x), ri_content := compress x\<rparr>)"
      using True id t by (simp add: m2_def fetch_content_def Let_def)
    moreover have "length m2 > 32" using True id z(1) by (cases "compress x") (simp_all add: m2_def)
    ultimately show ?thesis using True id z by (simp add: command_reply_def m2_def)
  qed (use id in \<open>simp add: command_reply_def m2_def\<close>)
  ultimately show ?thesis using task_cdb_write[where compress = compress and x = x, OF assms(2,4,5)] by blast
qed

section \<open>Posting and fetching events\<close>

lemma edb_insert_posted:
  assumes "sint ty \<le> 0" "v \<noteq> []" "length v + 20 < 2 ^ 31"
  shows "edb_insert t (prepare_edb t0 ty v ttl) st =
    Inr (event_init\<lparr>eventType := ty, payload := edb_payload (t0, v, ttl)\<rparr>,
      queue_event ty (event_init\<lparr>timeToLive := ttl, payload := edb_payload (t0, v, ttl), eventType := ty, dtm := t\<rparr>) st)"
proof -
  let ?d = "prepare_edb t0 ty v ttl" and ?n = "12 + length v"
  have d: "?d = numeric_to_chars ty 4 @ numeric_to_chars (of_nat ?n :: int32) 4 @ numeric_to_chars ttl 4 @ numeric_to_chars t0 8 @ v"
    by (simp add: prepare_edb_payload edb_payload_def)
  have f: "take 4 ?d = numeric_to_chars ty 4" "take 4 (drop 4 ?d) = numeric_to_chars (of_nat ?n :: int32) 4"
    "take 4 (drop 8 ?d) = numeric_to_chars ttl 4" "drop 4 ?d = edb_payload (t0, v, ttl)" "length ?d = ?n + 8"
    by (simp_all add: d edb_payload_def)
  have n: "sint (of_nat ?n :: int32) = int ?n" using sint_of_nat_32[of ?n] assms(3) by simp
  have "size_of_int32 (of_nat ?n + 8) = ?n + 8"
    using size_of_int32_nat[of "?n + 8"] assms(3) by simp
  then show ?thesis
    using assms(1,2) f n unfolding edb_insert_def by (simp add: Let_def del: of_nat_add)
qed

text \<open>Several clients post events: the time of the server, then time, content and lifetime of the message.\<close>

fun post_events :: "int32 \<Rightarrow> (date_time \<times> int64 \<times> bytes \<times> int32) list \<Rightarrow> edb \<Rightarrow> edb res" where
  "post_events ty [] st = Inr st"
| "post_events ty ((t, t0, v, ttl) # evs) st =
     bind_res (edb_insert t (prepare_edb t0 ty v ttl) st) (\<lambda>(r, st). post_events ty evs st)"

lemma post_events_queue:
  assumes "sint ty \<le> 0" "\<forall>(t, t0, v, ttl) \<in> set evs. v \<noteq> [] \<and> length v + 20 < 2 ^ 31"
  shows "\<exists>st'. post_events ty evs st = Inr st' \<and> at_or_empty (eventQueue st') ty = at_or_empty (eventQueue st) ty
    @ map (\<lambda>(t, t0, v, ttl). event_init\<lparr>timeToLive := ttl, payload := edb_payload (t0, v, ttl), eventType := ty, dtm := t\<rparr>) evs"
  using assms(2)
proof (induction evs arbitrary: st)
  case (Cons ev evs)
  obtain t t0 v ttl where ev: "ev = (t, t0, v, ttl)" by (cases ev)
  let ?e = "event_init\<lparr>timeToLive := ttl, payload := edb_payload (t0, v, ttl), eventType := ty, dtm := t\<rparr>"
  have "edb_insert t (prepare_edb t0 ty v ttl) st =
      Inr (event_init\<lparr>eventType := ty, payload := edb_payload (t0, v, ttl)\<rparr>, queue_event ty ?e st)"
    using Cons.prems ev by (intro edb_insert_posted[OF assms(1)]) auto
  moreover have "at_or_empty (eventQueue (queue_event ty ?e st)) ty = at_or_empty (eventQueue st) ty @ [?e]"
    by (simp add: queue_event_def at_or_empty_update)
  ultimately show ?case using Cons.IH[of "queue_event ty ?e st"] Cons.prems ev by auto
qed simp

lemma events_delivered:
  assumes "sint ty \<le> 0" "at_or_empty (eventQueue (edb_instance a)) ty = []" "identy_ok identy"
    and "get_vector_from_string k = [age, ty]"
    and "\<forall>(t, t0, v, ttl) \<in> set evs. v \<noteq> [] \<and> secs_to (he_mktime he) t (now (he_senv he)) < sint age"
    and "length (concat (map (\<lambda>ev. edb_payload (snd ev)) evs)) + 20 < 2 ^ 31"
  shows "\<exists>st m. post_events ty evs (edb_instance a) = Inr st
    \<and> task he (command_message ri_read_edb_events identy k) (a\<lparr>edb_instance := st\<rparr>) = Inr (Some [Reply m], a\<lparr>edb_instance := st\<rparr>)
    \<and> fetch_edb_content (drop 9 m) 0 [] = Some (Inr (map (\<lambda>(t, t0, v, ttl). (t0, v)) evs))"
proof -
  let ?ev = "\<lambda>(t, t0, v, ttl). event_init\<lparr>timeToLive := ttl, payload := edb_payload (t0, v, ttl), eventType := ty, dtm := t\<rparr>"
  let ?pays = "concat (map (\<lambda>ev. edb_payload (snd ev)) evs)"
  have b: "\<forall>(t, t0, v, ttl) \<in> set evs. v \<noteq> [] \<and> length v + 20 < 2 ^ 31"
  proof -
    have "length (edb_payload (t0, v, ttl)) \<le> length ?pays" if "(t, t0, v, ttl) \<in> set evs" for t t0 v ttl
      using that by (induction evs) fastforce+
    then show ?thesis using assms(5,6) by (fastforce simp: length_edb_payload)
  qed
  then obtain st where st: "post_events ty evs (edb_instance a) = Inr st" "at_or_empty (eventQueue st) ty = map ?ev evs"
    using post_events_queue[OF assms(1) b, of "edb_instance a"] assms(2) by auto
  have q: "filter (\<lambda>r. secs_to (he_mktime he) (dtm r) (now (he_senv he)) < sint age) (map ?ev evs) = map ?ev evs"
    using assms(5) by (intro filter_True) fastforce
  have p: "concat (map payload (map ?ev evs)) = ?pays" by (simp add: o_def case_prod_beta)
  have "concat (map payload (fetchEvents (he_mktime he) (now (he_senv he)) k st)) = ?pays"
    using assms(1,4) st(2) q p by (auto simp: fetchEvents_def Let_def collect_queue_def)
  then have "task he (command_message ri_read_edb_events identy k) (a\<lparr>edb_instance := st\<rparr>) =
      Inr (Some [Reply (''3101'' @ to_string (sint identy) @ ?pays)], a\<lparr>edb_instance := st\<rparr>)"
    unfolding task_def Let_def command_message_def command_code.simps
    by (simp add: request_parts[OF _ identy_length[OF assms(3)], of "''31''", simplified] codes)
  moreover have "fetch_edb_content ?pays 0 [] = Some (Inr (map (\<lambda>(t, t0, v, ttl). (t0, v)) evs))"
    using fetch_edb_stream[of ?pays "[]" "map snd evs" "[]"] assms(6) by (simp add: o_def case_prod_beta)
  ultimately show ?thesis using st(1) identy_length[OF assms(3)] by fastforce
qed


section \<open>An example server\<close>

lemma sample_can_store:
  "can_store (he_senv sample_env) (he_conf sample_env) (disk_server sample_app) ''s/doc'' sample_dir"
  "enable_read (he_conf sample_env)"
proof -
  have "split_subfolder ''s/doc'' = (''s'', ''doc'')" by code_simp
  then show "can_store (he_senv sample_env) (he_conf sample_env) (disk_server sample_app) ''s/doc'' sample_dir"
    by (simp add: can_store_def sample_env_def sample_conf_def sample_senv_def sample_app_def sample_server_def sample_dir_def
        may_write_def lf_idle_def lf_counted_def lf_init_def)
  show "enable_read (he_conf sample_env)" by (simp add: sample_env_def sample_conf_def)
qed

end
