(* ===== verification/Spec2Isabelle.thy ===== *)
theory Spec2Isabelle
  imports J_Index C_Manager E_Manager Hstf Base64 Crc32 Date_Time Basefunc Epoll Client_Server
begin

text \<open>
  \<^bold>\<open>rssdisk\<close> is a network file store. A server (\<open>rssdisk/rssdisk\<close>) keeps files in the segments of
  its directories, sorted binary indexes over JSON documents, a cache of keys with a time to live, a
  store of events, and a log of its writes that other servers poll. Clients decode the header a file
  carries. The code under \<open>libs\<close> supplies bytes, strings, dates and checksums.

  \<^bold>\<open>Theories.\<close>
  \<^item> \<open>Prelude\<close>: the names of the machine integers, the result type \<open>res\<close> of code that may raise
    (\<open>cpp_exn\<close>), \<open>substr\<close>, and the lemmas on lists and words that the components share.
  \<^item> \<open>Bitbase\<close> (\<open>libs/bitbase.h\<close>), \<open>Cpp_Std\<close> (number parsing and printing, \<open>find\<close>, \<open>getline\<close>),
    \<open>Basefunc\<close> (\<open>libs/basefunc_std.*\<close>), \<open>Base64\<close> (\<open>libs/base64.*\<close>), \<open>Crc32\<close> (\<open>libs/crc32.h\<close>),
    \<open>Date_Time\<close> (\<open>libs/date_time.h\<close>): bytes, strings, checksums and dates. Shown: base64, URL and number
    compression round trips; splitting, joining and replacing agree; UTF-8 conversion keeps the code
    points; the table driven checksum is the bitwise CRC-32; date arithmetic and comparison agree with
    absolute time, and printing with parsing.
  \<^item> \<open>Map_Time\<close> (\<open>libs/map_time.h\<close>) and \<open>C_Manager\<close> (\<open>extentions/c_manager.*\<close>): the cache. Its state
    is an association list of values and one of expiry times. Shown: the last record of a key decides,
    saving and loading keeps every item, clearing drops exactly the expired items, and the record
    length on which the insert loop never ends.
  \<^item> \<open>E_Manager\<close> (\<open>extentions/e_manager.*\<close>): stored and queued events. Shown: what a query returns
    after an insertion, that no input raises, what a reset drops and what a fetch returns.
  \<^item> \<open>B_Tree\<close> (types of \<open>extentions/b_tree.h\<close>) and \<open>J_Index\<close> (the index part of
    \<open>extentions/j_manager.cpp\<close>): an index is a byte string of 16-byte entries sorted by key. Shown:
    insertion keeps it sorted, the binary search stops where it should, and searches return exactly
    the entries asked for when the bound is in the index; for an absent bound a counterexample.
  \<^item> \<open>Hstf\<close> (\<open>hstf.*\<close>): the log of writes and its polling. Shown: a client applies exactly the records
    it has not seen, and the log keeps its format.
  \<^item> \<open>W_Type\<close> (\<open>rssdisk_w_type.hpp\<close>): types of files, status codes, decoding of a file by the client.
  \<^item> \<open>Disk_Helper\<close> (\<open>disk_helper.hpp\<close>): the file system is a map from paths to bytes; a write stores
    header and content and reports the growth in blocks exactly.
  \<^item> \<open>Locked_Files\<close> (\<open>locked_files\<close> and \<open>locker_file\<close> in \<open>disk_server.hpp\<close>): the locks as steps of
    threads. Shown: a writer is alone with up to 256 threads, a waiting writer gets its turn, and the
    8-bit counter fails beyond that.
  \<^item> \<open>Disk_Server\<close> (\<open>disk_server.cpp\<close>): \<open>accept_file\<close>, \<open>read_file\<close>, \<open>read_file_info\<close>,
    \<open>remove_file_by_tms\<close> and \<open>run_ttl_remover\<close> over the files, the directories' used sizes, the locks
    and the log. \<open>Server_Files\<close> has the lemmas on them: parsing of the message header, locks given back,
    used sizes kept exact, versions compared.
  \<^item> \<open>Server_Spec\<close>: the contract of the file server. The locale \<open>implements\<close> says that a machine whose
    steps follow an abstract step also does so over any sequence of requests; it is interpreted on
    \<open>accept_file\<close>, \<open>read_file\<close> and \<open>remove_file_by_tms\<close> against a map from names to stored texts.
    Shown besides: the order and the effect of refusals, exact sizes, released locks, replicated
    removals, and what a document message that is too short does.
  \<^item> \<open>Tcp_Handler\<close> (\<open>clienttcphandler.hpp\<close>): the dispatch of a client's message to the file server,
    the cache and the event store. \<open>Handler_Spec\<close> shows the format of every reply and which store a
    query may change.
  \<^item> \<open>Framing\<close> (the readers of \<open>libs/network/epoll_v2.cpp\<close> and \<open>tcp_client.cpp\<close>): how both sides cut the
    bytes of a connection into messages. The locale \<open>frame_reader\<close> says what a reader promises, and that
    the pieces in which bytes arrive then do not matter; it is interpreted on the server's and on the
    client's reader.
  \<^item> \<open>Epoll\<close> (\<open>libs/network/epoll_v2.*\<close>): the event loop as operations on connections, queues, tasks
    of other threads and answers, in any order. Shown: what the kernel takes are the frames of the queued
    messages, clients get their answers and the handler the requests.
  \<^item> \<open>Client\<close> (\<open>client/rssdisk_pool.*\<close>): the messages a client sends, its reading of the answers, the
    choice of servers and the rounds of a write. \<open>Client_Server\<close> composes client, handler and stores;
    its properties are in this theory: what a client writes, caches or posts comes back.

  \<^bold>\<open>Conventions.\<close> A \<open>std::string\<close> is a list of characters, an integer a word of its width (\<open>sint\<close> reads
  the signed ones), an \<open>unordered_map\<close> a map or, where its order shows, an association list. An
  exception is a value of \<open>res\<close>. Loops that may not end are \<open>partial_function (option)\<close>; the only
  bounds are the code's own (10000 steps of the binary search, 50 attempts to lock).

  \<^bold>\<open>Parameters.\<close> The clock, \<open>mktime\<close>, \<open>std::hash\<close>, decryption, the boost checksum of a file, the JSON
  reader and the assembly of document databases are arguments of the definitions that use them.

  \<^bold>\<open>Not modelled.\<close> Opening sockets, \<open>epoll\<close>, threads and the client's connections (system calls; what
  they return are arguments of the event loop's operations), the JSON, HTTP and cipher libraries kept in
  the tree, the loading of the settings file, and the evaluation of JSON conditions.
\<close>

section \<open>Clients and servers together\<close>

text \<open>
  C2: a file that a client writes comes back. For every type that is stored as it comes, when the
  server may store the name, the answer to the client's message confirms the write, and a later read
  returns the same content, type, lifetime and creation time (to the second), and time and checksum
  for the types that carry them. The client compresses and decompresses where the type asks for it.
\<close>

theorem file_write_read:
  assumes "zlib_ok compress decompress" "plain_type w" "identy_ok i1" "identy_ok i2" "x \<noteq> []"
    and "can_store (he_senv he) (he_conf he) (disk_server a) name d" "enable_read (he_conf he)"
    and "str_find (snd (split_subfolder name)) ''?jdb'' 0 = None" "date_ok (now (he_senv he))" "ttl_ok ttl"
    and "w = appendable \<longrightarrow> disk (disk_server a) (file_path (he_senv he) d name) = None"
  shows "\<exists>c m1 a' m2 st. write_body compress w x = Some c
    \<and> task he (write_message compress t0 True i1 w name c ttl tms crc) a = Inr (Some [Reply m1], a') \<and> on_write_reply i1 m1 = Wr_ok
    \<and> task he (command_message ri_read_files i2 name) a' = Inr (Some [Reply m2], a')
    \<and> on_read_reply oob False i2 m2 read_start = Inr st \<and> read_finish decompress False st = (x, True)
    \<and> file_type (rs_ri st) = w \<and> file_created (rs_ri st) = printed (now (he_senv he)) \<and> ttl_days (rs_ri st) = word_of_int (sint ttl)
    \<and> file_tms (rs_ri st) = (if versioned w \<or> w = appendable then tms else 0)
    \<and> file_crc32 (rs_ri st) = (if versioned w then crc else 0)"
  using assms by (rule client_file_round_trip)

theorem file_write_read_witness:
  "\<exists>m1 a' m2 st. task sample_env (write_message (\<lambda>x. CHR ''z'' # x) 5 True 10001 updatable ''s/doc'' ''zhello'' 30 77 99) sample_app =
      Inr (Some [Reply m1], a') \<and> on_write_reply 10001 m1 = Wr_ok
    \<and> task sample_env (command_message ri_read_files 10002 ''s/doc'') a' = Inr (Some [Reply m2], a')
    \<and> on_read_reply (\<lambda>_. CHR ''?'') False 10002 m2 read_start = Inr st \<and> read_finish tl False st = (''hello'', True)
    \<and> file_tms (rs_ri st) = 77 \<and> file_crc32 (rs_ri st) = 99"
proof -
  have "zlib_ok (\<lambda>x. CHR ''z'' # x) tl" by (simp add: zlib_ok_def)
  moreover have "plain_type updatable" "identy_ok 10001" "identy_ok 10002" "ttl_ok 30" "versioned updatable"
    by (simp_all add: plain_type_def versioned_def identy_ok_def ttl_ok_def)
  moreover have "write_body (\<lambda>x. CHR ''z'' # x) updatable ''hello'' = Some ''zhello''" by (simp add: write_body_def)
  moreover have "str_find (snd (split_subfolder ''s/doc'')) ''?jdb'' 0 = None" by code_simp
  moreover have "date_ok (now (he_senv sample_env))" by (simp add: date_ok_def sample_env_def sample_senv_def sample_now_ok)
  ultimately show ?thesis
    using file_write_read[of "\<lambda>x. CHR ''z'' # x" tl updatable 10001 10002 "''hello''" sample_env sample_app "''s/doc''" sample_dir 30
      5 77 99 "\<lambda>_. CHR ''?''"] sample_can_store by fastforce
qed

text \<open>
  C3: a cache entry that a client writes comes back until its lifetime ends: the write is confirmed,
  a read on the clock of the server within the lifetime returns the value with its time and checksum,
  and a later one returns nothing.
\<close>

theorem cache_write_read:
  assumes "zlib_ok compress decompress" "identy_ok i1" "identy_ok i2" "k \<noteq> []"
    and "length k + length (compress x) + 56 < 2 ^ 31"
  shows "\<exists>m1 a' m2. task he (write_message compress t0 True i1 cdb k x ttl tms crc) a = Inr (Some [Reply m1], a')
    \<and> on_write_reply i1 m1 = Wr_ok
    \<and> task he2 (command_message ri_read_cdb i2 k) a' = Inr (Some [Reply m2], a')
    \<and> command_reply oob decompress ri_read_cdb i2 m2 =
        Inr (if he_steady he2 0 \<le> he_steady he 0 + seconds ttl
             then Some (read_info_init\<lparr>file_type := cdb, file_tms := t0, file_crc32 := ucast (get_hash x), ri_content := x\<rparr>)
             else None)"
  using assms by (rule client_cache_round_trip)

theorem cache_write_read_witness:
  "\<exists>m1 a' m2. task sample_env (write_message (\<lambda>x. CHR ''z'' # x) 5 True 10001 cdb ''k'' ''v'' 60 0 0) sample_app = Inr (Some [Reply m1], a')
    \<and> task sample_env (command_message ri_read_cdb 10002 ''k'') a' = Inr (Some [Reply m2], a')
    \<and> command_reply (\<lambda>_. CHR ''?'') tl ri_read_cdb 10002 m2 =
        Inr (Some (read_info_init\<lparr>file_type := cdb, file_tms := 5, file_crc32 := ucast (get_hash ''v''), ri_content := ''v''\<rparr>))"
proof -
  have "zlib_ok (\<lambda>x. CHR ''z'' # x) tl" "identy_ok 10001" "identy_ok 10002"
    by (simp_all add: zlib_ok_def identy_ok_def)
  moreover have "he_steady sample_env 0 \<le> he_steady sample_env 0 + seconds 60" by (simp add: seconds_def)
  ultimately show ?thesis
    using cache_write_read[of "\<lambda>x. CHR ''z'' # x" tl 10001 10002 "''k''" "''v''" sample_env 5 60 0 0 sample_app sample_env "\<lambda>_. CHR ''?''"]
    by auto
qed



end
